(* ===== verification/Prelude.thy ===== *)
theory Prelude
  imports Main "HOL-Library.Word" "HOL-Library.Code_Target_Nat"
begin

text \<open>
  The prelude of the development: the machine types of the Rust program, the result type that
  keeps an error return apart from a panic, the bounds-checked reads every parser of the program
  uses, big-endian integers, and the codec locales that the wire formats interpret.

  Rust's fixed-width integers are words of their width. A \<open>usize\<close> is a \<open>nat\<close>: it indexes and
  counts lists; where the program's \<open>usize\<close> arithmetic can leave the 64-bit range the release
  build's wrap-around is written out (\<open>usize_sub\<close>, \<open>usize_mul\<close>). A \<open>[u8; 32]\<close> digest is a byte list.
\<close>

section \<open>Machine types and collections of facts\<close>

type_synonym u8 = "8 word"
type_synonym u16 = "16 word"
type_synonym u32 = "32 word"
type_synonym u64 = "64 word"
type_synonym usize = nat
type_synonym bytes = "u8 list"

named_theorems res_simps \<open>equations of the result type and of bounds-checked reads\<close>
named_theorems const_defs \<open>the constants of the protocol\<close>

definition usize_sub :: "usize \<Rightarrow> usize \<Rightarrow> usize" where
  "usize_sub a b = (a + 2 ^ 64 - b) mod 2 ^ 64"

definition usize_mul :: "usize \<Rightarrow> usize \<Rightarrow> usize" where
  "usize_mul a b = (a * b) mod 2 ^ 64"

lemma usize_sub_exact: "b \<le> a \<Longrightarrow> a < 2 ^ 64 \<Longrightarrow> usize_sub a b = a - b"
proof -
  assume "b \<le> a" "a < 2 ^ 64"
  then have "usize_sub a b = (a - b + 2 ^ 64) mod 2 ^ 64"
    unfolding usize_sub_def by (metis Nat.add_diff_assoc2)
  then show ?thesis
    using \<open>a < 2 ^ 64\<close> by (simp only: mod_add_self2 mod_less less_imp_diff_less)
qed

lemma usize_sub_wraps: "a < b \<Longrightarrow> b < 2 ^ 64 \<Longrightarrow> usize_sub a b = 2 ^ 64 - (b - a)"
  by (simp add: usize_sub_def)

lemma usize_mul_exact: "a * b < 2 ^ 64 \<Longrightarrow> usize_mul a b = a * b"
  by (simp add: usize_mul_def)

section \<open>Results: a value, an error, or a panic\<close>

datatype fs_op = OpCreate | OpOpen | OpRead | OpWrite | OpRename | OpRemove | OpExists | OpMkdir | OpStat

datatype bee_error =
    UnexpectedEof
  | FrameTooLarge nat
  | SendTimedOut
  | RecvTimedOut
  | BrokenPipe
  | IoError fs_op
  | HandshakeTooShort nat
  | BadMagic bytes
  | FilenameTooLong nat
  | TooShortForFilename
  | InvalidFilename
  | ZeroChunkSize
  | ZeroNumChunks
  | TooManyChunks nat
  | MetaTooShort nat
  | BadMetaMagic bytes
  | UnsupportedVersion u8
  | MetaTruncated nat nat
  | ResponseTooShort
  | ResponseTooShortForPorts
  | PortsUnavailable nat
  | BindFailed
  | EmptyAck
  | ChunkRejected
  | FileNotFound string
  | ConnectFailed
  | InvalidAddress string
  | InvalidPort string
  | EmptyChunkSize
  | InvalidChunkSize string
  | ChunkSizeTooLarge string
  | NoPrivateKey
  | TlsFailed

text \<open>
  \<open>Err\<close> is a value of Rust's \<open>anyhow::Error\<close>; \<open>Panic\<close> is an unwinding panic (an index out of
  bounds, a division by zero), which no \<open>?\<close> of the program catches.
\<close>

datatype 'a res = Ok 'a | Err bee_error | Panic

fun res_bind :: "'a res \<Rightarrow> ('a \<Rightarrow> 'b res) \<Rightarrow> 'b res" where
  "res_bind (Ok x) f = f x"
| "res_bind (Err e) f = Err e"
| "res_bind Panic f = Panic"

fun res_map :: "('a \<Rightarrow> 'b) \<Rightarrow> 'a res \<Rightarrow> 'b res" where
  "res_map f (Ok x) = Ok (f x)"
| "res_map f (Err e) = Err e"
| "res_map f Panic = Panic"

fun is_ok :: "'a res \<Rightarrow> bool" where
  "is_ok (Ok x) = True"
| "is_ok (Err e) = False"
| "is_ok Panic = False"

fun res_mapM :: "('a \<Rightarrow> 'b res) \<Rightarrow> 'a list \<Rightarrow> 'b list res" where
  "res_mapM f [] = Ok []"
| "res_mapM f (x # xs) = res_bind (f x) (\<lambda>y. res_bind (res_mapM f xs) (\<lambda>ys. Ok (y # ys)))"

lemma res_bind_Ok_iff [res_simps]:
  "res_bind m f = Ok y \<longleftrightarrow> (\<exists>x. m = Ok x \<and> f x = Ok y)"
  by (cases m) auto

lemma res_bind_Panic_iff [res_simps]:
  "res_bind m f = Panic \<longleftrightarrow> m = Panic \<or> (\<exists>x. m = Ok x \<and> f x = Panic)"
  by (cases m) auto

lemma res_map_Ok_iff [res_simps]: "res_map f m = Ok y \<longleftrightarrow> (\<exists>x. m = Ok x \<and> y = f x)"
  by (cases m) auto

lemma res_map_Panic_iff [res_simps]: "res_map f m = Panic \<longleftrightarrow> m = Panic"
  by (cases m) auto

lemma is_ok_iff: "is_ok m \<longleftrightarrow> (\<exists>x. m = Ok x)"
  by (cases m) auto

lemma res_mapM_all_Ok:
  "(\<And>x. x \<in> set xs \<Longrightarrow> f x = Ok (g x)) \<Longrightarrow> res_mapM f xs = Ok (map g xs)"
  by (induction xs) auto

lemma res_mapM_not_Panic:
  "(\<And>x. x \<in> set xs \<Longrightarrow> f x \<noteq> Panic) \<Longrightarrow> res_mapM f xs \<noteq> Panic"
  by (induction xs) (auto simp: res_simps)

lemma res_mapM_Panic:
  assumes "x \<in> set xs" "f x = Panic" "\<And>y. y \<in> set xs \<Longrightarrow> f y = Panic \<or> is_ok (f y)"
  shows "res_mapM f xs = Panic"
  using assms
proof (induction xs)
  case Nil
  then show ?case by simp
next
  case (Cons a xs)
  then show ?case
    by (cases "f a = Panic") (auto simp: is_ok_iff res_simps)
qed

text \<open>
  A stateful operation returns its new state beside its result; \<open>st_bind\<close> is the \<open>?\<close> of the
  program after such an operation: the state changes stay, an error or a panic ends the rest.
\<close>

definition st_bind :: "'s \<times> 'a res \<Rightarrow> ('s \<Rightarrow> 'a \<Rightarrow> 's \<times> 'b res) \<Rightarrow> 's \<times> 'b res" where
  "st_bind m f = (case m of (s, r) \<Rightarrow> (case r of Ok x \<Rightarrow> f s x | Err e \<Rightarrow> (s, Err e) | Panic \<Rightarrow> (s, Panic)))"

lemma st_bind_simps [simp]:
  "st_bind (s, Ok x) f = f s x"
  "st_bind (s, Err e) f = (s, Err e)"
  "st_bind (s, Panic) f = (s, Panic)"
  by (simp_all add: st_bind_def)

lemma st_bind_Ok_iff [res_simps]:
  "st_bind m f = (t, Ok y) \<longleftrightarrow> (\<exists>s x. m = (s, Ok x) \<and> f s x = (t, Ok y))"
  by (auto simp: st_bind_def split: prod.splits res.splits)

lemma st_bind_assoc: "st_bind (st_bind m f) g = st_bind m (\<lambda>s x. st_bind (f s x) g)"
  by (simp add: st_bind_def split: prod.splits res.splits)

section \<open>Bounds-checked reads\<close>

text \<open>\<open>data[o]\<close>, and \<open>data[o..o+n]\<close> or \<open>[data[o], ..., data[o+n-1]]\<close>: a panic out of bounds.\<close>

definition index_at :: "'a list \<Rightarrow> nat \<Rightarrow> 'a res" where
  "index_at d i = (if i < length d then Ok (d ! i) else Panic)"

definition read_bytes :: "'a list \<Rightarrow> nat \<Rightarrow> nat \<Rightarrow> 'a list res" where
  "read_bytes d off n = (if off + n \<le> length d then Ok (take n (drop off d)) else Panic)"

definition set_at :: "'a list \<Rightarrow> nat \<Rightarrow> 'a \<Rightarrow> 'a list res" where
  "set_at d i x = (if i < length d then Ok (d[i := x]) else Panic)"

lemma index_at_Ok [res_simps]: "i < length d \<Longrightarrow> index_at d i = Ok (d ! i)"
  by (simp add: index_at_def)

lemma read_bytes_Ok [res_simps]:
  "off + n \<le> length d \<Longrightarrow> read_bytes d off n = Ok (take n (drop off d))"
  by (simp add: read_bytes_def)

lemma read_bytes_Panic [res_simps]: "read_bytes d off n = Panic \<longleftrightarrow> length d < off + n"
  by (auto simp: read_bytes_def)

lemma read_bytes_not_Err [res_simps]: "read_bytes d off n \<noteq> Err e"
  by (simp add: read_bytes_def)

lemma read_bytes_append:
  "length pre = off \<Longrightarrow> length mid = n \<Longrightarrow> read_bytes (pre @ mid @ post) off n = Ok mid"
  by (simp add: read_bytes_def)

lemma read_bytes_length: "read_bytes d off n = Ok bs \<Longrightarrow> length bs = n"
  by (auto simp: read_bytes_def split: if_splits)

lemma length_concat_blocks:
  "(\<And>b. b \<in> set bs \<Longrightarrow> length b = w) \<Longrightarrow> length (concat bs) = length bs * w"
  by (induction bs) auto

lemma read_bytes_block:
  assumes w: "\<And>b. b \<in> set bs \<Longrightarrow> length b = w" and i: "i < length bs"
    and off: "length pre = off"
  shows "read_bytes (pre @ concat bs @ post) (off + i * w) w = Ok (bs ! i)"
proof -
  let ?pre = "pre @ concat (take i bs)"
  have "length (concat (take i bs)) = i * w"
    using length_concat_blocks [of "take i bs" w] w i by (auto dest: in_set_takeD)
  then have len: "length ?pre = off + i * w" using off by simp
  have "concat bs = concat (take i bs) @ bs ! i @ concat (drop (Suc i) bs)"
    using i by (metis concat.simps(2) concat_append id_take_nth_drop)
  then have "pre @ concat bs @ post = ?pre @ bs ! i @ (concat (drop (Suc i) bs) @ post)"
    by simp
  then show ?thesis using read_bytes_append [OF len, of "bs ! i" w] w i by simp
qed

end
