(* ===== verification/Rust_Str.thy ===== *)
theory Rust_Str
  imports Prelude
begin

text \<open>
  What the program uses of Rust's strings and paths: a \<open>String\<close> is a char list holding its UTF-8
  bytes; \<open>String::from_utf8_lossy\<close>, \<open>str::split\<close>, \<open>rsplit_once\<close>, \<open>Path::file_name\<close>,
  \<open>Path::join\<close>, the decimal formatting of a \<open>usize\<close> and the parsing of unsigned integers. A path
  denotes the file of its normalised components (\<open>path_of\<close>): repeated slashes and \<open>.\<close> components
  do not matter, as in \<open>std::path\<close>; \<open>..\<close> and symbolic links are not resolved.
\<close>

section \<open>Strings and bytes\<close>

definition byte_of_char :: "char \<Rightarrow> u8" where
  "byte_of_char c = word_of_nat (of_char c)"

definition char_of_byte :: "u8 \<Rightarrow> char" where
  "char_of_byte b = char_of (unat b)"

definition str_bytes :: "string \<Rightarrow> bytes" where
  "str_bytes s = map byte_of_char s"

definition bytes_str :: "bytes \<Rightarrow> string" where
  "bytes_str bs = map char_of_byte bs"

lemma byte_of_char_of_byte [simp]: "byte_of_char (char_of_byte b) = b"
proof -
  have "unat b < 256" using unsigned_less [of b] by simp
  then show ?thesis by (simp add: byte_of_char_def char_of_byte_def)
qed

lemma char_of_byte_of_char [simp]: "char_of_byte (byte_of_char c) = c"
  by (simp add: byte_of_char_def char_of_byte_def unat_of_nat)

lemma str_bytes_bytes_str [simp]: "str_bytes (bytes_str bs) = bs"
  by (simp add: str_bytes_def bytes_str_def o_def)

lemma bytes_str_str_bytes [simp]: "bytes_str (str_bytes s) = s"
  by (simp add: str_bytes_def bytes_str_def o_def)

lemma set_bytes_str: "c \<in> set (bytes_str bs) \<longleftrightarrow> byte_of_char c \<in> set bs"
  by (force simp: bytes_str_def)

lemma set_str_bytes: "b \<in> set (str_bytes s) \<longleftrightarrow> char_of_byte b \<in> set s"
  by (force simp: str_bytes_def)

lemma length_str_bytes [simp]: "length (str_bytes s) = length s"
  by (simp add: str_bytes_def)

lemma length_bytes_str [simp]: "length (bytes_str s) = length s"
  by (simp add: bytes_str_def)

lemma str_bytes_inj [simp]: "str_bytes s = str_bytes t \<longleftrightarrow> s = t"
  by (metis bytes_str_str_bytes)

section \<open>Lossy UTF-8 decoding\<close>

text \<open>
  One step of \<open>core::str::lossy::Utf8Chunks\<close>: the length of the next sequence, and whether it is a
  well-formed character. Reading past the end yields 0, as in the standard library.
\<close>

definition peek :: "bytes \<Rightarrow> nat \<Rightarrow> u8" where
  "peek bs i = (if i < length bs then bs ! i else 0)"

definition is_cont :: "u8 \<Rightarrow> bool" where
  "is_cont b \<longleftrightarrow> 0x80 \<le> b \<and> b \<le> 0xBF"

definition second3 :: "u8 \<Rightarrow> u8 \<Rightarrow> bool" where
  "second3 b c \<longleftrightarrow>
     (if b = 0xE0 then 0xA0 \<le> c \<and> c \<le> 0xBF
      else if b = 0xED then 0x80 \<le> c \<and> c \<le> 0x9F
      else is_cont c)"

definition second4 :: "u8 \<Rightarrow> u8 \<Rightarrow> bool" where
  "second4 b c \<longleftrightarrow>
     (if b = 0xF0 then 0x90 \<le> c \<and> c \<le> 0xBF
      else if b = 0xF4 then 0x80 \<le> c \<and> c \<le> 0x8F
      else is_cont c)"

definition utf8_step :: "bytes \<Rightarrow> nat \<times> bool" where
  "utf8_step bs =
     (let b = peek bs 0 in
      if b < 0x80 then (1, True)
      else if 0xC2 \<le> b \<and> b \<le> 0xDF then
        (if is_cont (peek bs 1) then (2, True) else (1, False))
      else if 0xE0 \<le> b \<and> b \<le> 0xEF then
        (if \<not> second3 b (peek bs 1) then (1, False)
         else if \<not> is_cont (peek bs 2) then (2, False) else (3, True))
      else if 0xF0 \<le> b \<and> b \<le> 0xF4 then
        (if \<not> second4 b (peek bs 1) then (1, False)
         else if \<not> is_cont (peek bs 2) then (2, False)
         else if \<not> is_cont (peek bs 3) then (3, False) else (4, True))
      else (1, False))"

definition REPLACEMENT :: bytes where "REPLACEMENT = [0xEF, 0xBF, 0xBD]"

lemma utf8_step_pos: "0 < fst (utf8_step bs)"
  by (auto simp: utf8_step_def Let_def)

function utf8_lossy :: "bytes \<Rightarrow> bytes" where
  "utf8_lossy bs =
     (if bs = [] then []
      else (case utf8_step bs of (n, ok) \<Rightarrow>
        (if ok then take n bs else REPLACEMENT) @ utf8_lossy (drop n bs)))"
  by pat_completeness auto
termination
proof (relation "measure length", goal_cases)
  case 1
  show ?case by simp
next
  case (2 bs n ok)
  then have "n = fst (utf8_step bs)" by (metis fst_conv)
  with 2 show ?case using utf8_step_pos [of bs] by (simp add: diff_less)
qed

declare utf8_lossy.simps [simp del]

lemma utf8_lossy_Nil [simp]: "utf8_lossy [] = []"
  by (simp add: utf8_lossy.simps)

lemma utf8_lossy_unfold:
  "bs \<noteq> [] \<Longrightarrow> utf8_step bs = (n, ok) \<Longrightarrow>
     utf8_lossy bs = (if ok then take n bs else REPLACEMENT) @ utf8_lossy (drop n bs)"
  by (subst utf8_lossy.simps) simp

lemma utf8_lossy_ascii_Cons: "b < 0x80 \<Longrightarrow> utf8_lossy (b # bs) = b # utf8_lossy bs"
  by (subst utf8_lossy.simps) (simp add: utf8_step_def peek_def)

lemma utf8_lossy_ascii: "list_all (\<lambda>b. b < 0x80) bs \<Longrightarrow> utf8_lossy bs = bs"
  by (induction bs) (auto simp: utf8_lossy_ascii_Cons)

lemma utf8_lossy_nonempty: "utf8_lossy bs = [] \<longleftrightarrow> bs = []"
  using utf8_step_pos [of bs]
  by (subst utf8_lossy.simps) (auto simp: REPLACEMENT_def split: prod.splits)

lemma utf8_lossy_head: "bs \<noteq> [] \<Longrightarrow> \<not> peek bs 0 < 0x80 \<Longrightarrow> \<exists>b rest. utf8_lossy bs = b # rest \<and> \<not> b < 0x80"
proof -
  assume ne: "bs \<noteq> []" and b: "\<not> peek bs 0 < 0x80"
  obtain n ok where st: "utf8_step bs = (n, ok)" by (cases "utf8_step bs")
  then have "0 < n" using utf8_step_pos [of bs] by simp
  with ne b show ?thesis
    unfolding utf8_lossy_unfold [OF ne st]
    by (cases bs; cases n) (auto simp: REPLACEMENT_def peek_def)
qed

lemma utf8_lossy_ascii_inv: "list_all (\<lambda>b. b < 0x80) (utf8_lossy bs) \<Longrightarrow> utf8_lossy bs = bs"
proof (induction bs)
  case Nil
  then show ?case by simp
next
  case (Cons b bs)
  show ?case
  proof (cases "b < 0x80")
    case True
    with Cons show ?thesis by (simp add: utf8_lossy_ascii_Cons)
  next
    case False
    then have "\<not> peek (b # bs) 0 < 0x80" by (simp add: peek_def)
    from utf8_lossy_head [OF _ this] Cons.prems show ?thesis by auto
  qed
qed

lemma utf8_lossy_ascii_set: "x \<in> set (utf8_lossy bs) \<Longrightarrow> x < 0x80 \<Longrightarrow> x \<in> set bs"
proof (induction bs rule: utf8_lossy.induct)
  case (1 bs)
  obtain n ok where st: "utf8_step bs = (n, ok)" by (cases "utf8_step bs")
  show ?case
  proof (cases "bs = []")
    case True
    with 1 show ?thesis by simp
  next
    case False
    with 1 st have "x \<in> set (if ok then take n bs else REPLACEMENT) \<or> x \<in> set (utf8_lossy (drop n bs))"
      by (subst (asm) (2) utf8_lossy.simps) (auto split: if_splits)
    moreover have "x \<notin> set REPLACEMENT" using 1(3) by (auto simp: REPLACEMENT_def)
    ultimately show ?thesis
      using 1 False st by (auto split: if_splits dest: in_set_takeD in_set_dropD)
  qed
qed

definition to_string_lossy :: "string \<Rightarrow> string" where
  "to_string_lossy s = bytes_str (utf8_lossy (str_bytes s))"

definition from_utf8_lossy :: "bytes \<Rightarrow> string" where
  "from_utf8_lossy bs = bytes_str (utf8_lossy bs)"

lemma is_cont_peek: "is_cont (peek bs i) \<Longrightarrow> i < length bs"
  by (cases "i < length bs") (simp_all add: peek_def is_cont_def)

lemma utf8_step_True:
  "utf8_step bs = (n, True) \<Longrightarrow>
     n = 1 \<or> n = 2 \<and> is_cont (peek bs 1) \<or> n = 3 \<and> is_cont (peek bs 2) \<or> n = 4 \<and> is_cont (peek bs 3)"
  unfolding utf8_step_def Let_def by (simp split: if_split_asm)

lemma utf8_step_cong:
  assumes "utf8_step bs = (n, True)" and pk: "\<And>i. i < n \<Longrightarrow> peek cs i = peek bs i"
  shows "utf8_step cs = (n, True)"
proof -
  have n: "n = 1 \<or> n = 2 \<or> n = 3 \<or> n = 4" using utf8_step_True [OF assms(1)] by blast
  have "peek cs 0 = peek bs 0" using n by (intro pk) auto
  moreover have "peek cs 1 = peek bs 1" if "n = 2 \<or> n = 3 \<or> n = 4" using that by (intro pk) auto
  moreover have "peek cs 2 = peek bs 2" if "n = 3 \<or> n = 4" using that by (intro pk) auto
  moreover have "peek cs 3 = peek bs 3" if "n = 4" using that by (intro pk) auto
  ultimately show ?thesis
    using assms(1) n unfolding utf8_step_def Let_def by (elim disjE) (simp_all split: if_split_asm, blast?)
qed

lemma utf8_step_take:
  assumes "bs \<noteq> []" "utf8_step bs = (n, True)"
  shows "n \<le> length bs \<and> utf8_step (take n bs @ rest) = (n, True)"
proof -
  have len: "n \<le> length bs"
    using utf8_step_True [OF assms(2)] is_cont_peek [of bs 1] is_cont_peek [of bs 2]
      is_cont_peek [of bs 3] assms(1)
    by (auto simp: Suc_le_eq)
  then have "peek (take n bs @ rest) i = peek bs i" if "i < n" for i
    using that by (simp add: peek_def nth_append)
  then have "utf8_step (take n bs @ rest) = (n, True)"
    by (rule utf8_step_cong [OF assms(2)])
  with len show ?thesis by blast
qed

lemma utf8_lossy_idem: "utf8_lossy (utf8_lossy bs) = utf8_lossy bs"
proof (induction bs rule: utf8_lossy.induct)
  case (1 bs)
  obtain n ok where st: "utf8_step bs = (n, ok)" by (cases "utf8_step bs")
  show ?case
  proof (cases "bs = []")
    case True
    then show ?thesis by simp
  next
    case False
    let ?rest = "utf8_lossy (drop n bs)"
    have IH: "utf8_lossy ?rest = ?rest" using 1 False st by simp
    show ?thesis
    proof (cases ok)
      case True
      with False st utf8_step_take [of bs n ?rest]
      have len: "n \<le> length bs" and step: "utf8_step (take n bs @ ?rest) = (n, True)" by auto
      have "n > 0" using utf8_step_pos [of bs] st by simp
      then have ne: "take n bs @ ?rest \<noteq> []" using False by simp
      have "utf8_lossy (take n bs @ ?rest) = take n bs @ ?rest"
        using utf8_lossy_unfold [OF ne step] len IH by simp
      then show ?thesis using utf8_lossy_unfold [OF False st] True by simp
    next
      case False': False
      have ne: "REPLACEMENT @ ?rest \<noteq> []" by (simp add: REPLACEMENT_def)
      have step: "utf8_step (REPLACEMENT @ ?rest) = (3, True)"
        by (simp add: REPLACEMENT_def utf8_step_def peek_def second3_def is_cont_def)
      have "utf8_lossy (REPLACEMENT @ ?rest) = REPLACEMENT @ ?rest"
        unfolding utf8_lossy_unfold [OF ne step] using IH by (simp add: REPLACEMENT_def)
      then show ?thesis using utf8_lossy_unfold [OF False st] False' by simp
    qed
  qed
qed

section \<open>Splitting and paths\<close>

fun split_on :: "char \<Rightarrow> string \<Rightarrow> string list" where
  "split_on c [] = [[]]"
| "split_on c (x # xs) =
     (if x = c then [] # split_on c xs
      else (case split_on c xs of [] \<Rightarrow> [[x]] | w # ws \<Rightarrow> (x # w) # ws))"

definition rsplit_once :: "char \<Rightarrow> string \<Rightarrow> (string \<times> string) option" where
  "rsplit_once c s =
     (case dropWhile (\<lambda>x. x \<noteq> c) (rev s) of
        [] \<Rightarrow> None
      | _ # before \<Rightarrow> Some (rev before, rev (takeWhile (\<lambda>x. x \<noteq> c) (rev s))))"

type_synonym path = "bool \<times> string list"

definition path_comps :: "string \<Rightarrow> string list" where
  "path_comps s = filter (\<lambda>w. w \<noteq> [] \<and> w \<noteq> ''.'') (split_on (CHR ''/'') s)"

definition path_of :: "string \<Rightarrow> path" where
  "path_of s = (s \<noteq> [] \<and> hd s = CHR ''/'', path_comps s)"

definition file_name :: "string \<Rightarrow> string option" where
  "file_name s = (case rev (path_comps s) of [] \<Rightarrow> None | w # _ \<Rightarrow> if w = ''..'' then None else Some w)"

definition path_join :: "string \<Rightarrow> string \<Rightarrow> string" where
  "path_join dir f =
     (if f \<noteq> [] \<and> hd f = CHR ''/'' then f
      else if dir = [] then f
      else if last dir = CHR ''/'' then dir @ f
      else dir @ ''/'' @ f)"

definition plain_name :: "string \<Rightarrow> bool" where
  "plain_name f \<longleftrightarrow> f \<noteq> [] \<and> f \<noteq> ''.'' \<and> f \<noteq> ''..'' \<and> CHR ''/'' \<notin> set f"

lemma split_on_nonempty [simp]: "split_on c s \<noteq> []"
  by (induction s) (auto split: list.splits)

lemma split_on_none: "c \<notin> set s \<Longrightarrow> split_on c s = [s]"
  by (induction s) auto

lemma split_on_append: "split_on c (a @ c # b) = split_on c a @ split_on c b"
  by (induction a) (auto split: list.splits)

lemma split_on_sep: "w \<in> set (split_on c s) \<Longrightarrow> c \<notin> set w"
  by (induction s arbitrary: w) (auto split: list.splits if_splits)

lemma path_comps_dir: "plain_name f \<Longrightarrow> path_comps (d @ CHR ''/'' # f) = path_comps d @ [f]"
  by (simp add: path_comps_def split_on_append split_on_none plain_name_def)

lemma path_comps_plain: "plain_name f \<Longrightarrow> path_comps f = [f]"
  by (simp add: path_comps_def split_on_none plain_name_def)

lemma path_comps_slash: "path_comps (d @ ''/'') = path_comps d"
  by (simp add: path_comps_def split_on_append)

lemma file_name_plain: "file_name s = Some f \<Longrightarrow> plain_name f"
proof -
  assume a: "file_name s = Some f"
  then obtain ws where "rev (path_comps s) = f # ws" and "f \<noteq> ''..''"
    by (auto simp: file_name_def split: list.splits if_splits)
  then have "f \<in> set (path_comps s)" by (metis list.set_intros(1) set_rev)
  with \<open>f \<noteq> ''..''\<close> show ?thesis
    by (auto simp: path_comps_def plain_name_def dest: split_on_sep)
qed

lemma file_name_of_plain: "plain_name f \<Longrightarrow> file_name f = Some f"
  by (simp add: file_name_def path_comps_plain) (simp add: plain_name_def)

lemma file_name_dir: "plain_name f \<Longrightarrow> file_name (d @ CHR ''/'' # f) = Some f"
  by (simp add: file_name_def path_comps_dir) (simp add: plain_name_def)

lemma path_join_same:
  assumes "plain_name f" "dir \<noteq> []"
  shows "path_of (path_join dir f) = path_of (dir @ ''/'' @ f)"
proof (cases "last dir = CHR ''/''")
  case True
  then obtain d where d: "dir = d @ ''/''" using assms(2) by (metis append_butlast_last_id)
  have "hd f \<noteq> CHR ''/''" using assms(1) by (cases f) (auto simp: plain_name_def)
  have "path_comps (dir @ ''/'' @ f) = path_comps d @ [f]"
    using path_comps_dir [OF assms(1), of dir] path_comps_slash [of d] d by simp
  moreover have "path_comps (dir @ f) = path_comps d @ [f]"
    using path_comps_dir [OF assms(1), of d] d by simp
  moreover have "path_join dir f = dir @ f"
    using True \<open>hd f \<noteq> CHR ''/''\<close> assms(2) by (simp add: path_join_def)
  ultimately show ?thesis using assms(2) by (simp add: path_of_def)
next
  case False
  have "hd f \<noteq> CHR ''/''" using assms(1) by (cases f) (auto simp: plain_name_def)
  with False assms(2) show ?thesis by (simp add: path_join_def)
qed

lemma plain_name_lossy: "plain_name f \<Longrightarrow> plain_name (to_string_lossy f)"
proof -
  assume p: "plain_name f"
  have ascii: "utf8_lossy (str_bytes f) = str_bytes f" if "to_string_lossy f = t" "list_all (\<lambda>b. b < 0x80) (str_bytes t)" for t
    using that utf8_lossy_ascii_inv [of "str_bytes f"] by (auto simp: to_string_lossy_def)
  have dots: "list_all (\<lambda>b. b < 0x80) (str_bytes ''.'')" "list_all (\<lambda>b. b < 0x80) (str_bytes ''..'')"
    by (simp_all add: str_bytes_def byte_of_char_def)
  have "to_string_lossy f \<noteq> []"
    using p utf8_lossy_nonempty [of "str_bytes f"]
    by (auto simp: to_string_lossy_def bytes_str_def str_bytes_def plain_name_def)
  moreover have "to_string_lossy f \<noteq> ''.''"
    using ascii [OF _ dots(1)] p by (auto simp: to_string_lossy_def plain_name_def)
  moreover have "to_string_lossy f \<noteq> ''..''"
    using ascii [OF _ dots(2)] p by (auto simp: to_string_lossy_def plain_name_def)
  moreover have "CHR ''/'' \<notin> set (to_string_lossy f)"
  proof
    assume "CHR ''/'' \<in> set (to_string_lossy f)"
    then have "byte_of_char (CHR ''/'') \<in> set (utf8_lossy (str_bytes f))"
      by (simp add: to_string_lossy_def set_bytes_str)
    moreover have "byte_of_char (CHR ''/'') < 0x80" by (simp add: byte_of_char_def)
    ultimately have "byte_of_char (CHR ''/'') \<in> set (str_bytes f)" by (rule utf8_lossy_ascii_set)
    then show False using p by (simp add: set_str_bytes plain_name_def)
  qed
  ultimately show ?thesis by (simp add: plain_name_def)
qed

section \<open>Decimal numbers\<close>

definition digit_char :: "nat \<Rightarrow> char" where "digit_char d = char_of (48 + d)"

definition digit_value :: "char \<Rightarrow> nat option" where
  "digit_value c = (let n = of_char c in if 48 \<le> n \<and> n \<le> 57 then Some (n - 48) else None)"

fun decimal :: "nat \<Rightarrow> string" where
  "decimal n = (if n < 10 then [digit_char n] else decimal (n div 10) @ [digit_char (n mod 10)])"

fun parse_digits :: "nat \<Rightarrow> string \<Rightarrow> nat option" where
  "parse_digits acc [] = Some acc"
| "parse_digits acc (c # cs) =
     (case digit_value c of None \<Rightarrow> None | Some d \<Rightarrow> parse_digits (acc * 10 + d) cs)"

declare decimal.simps [simp del]

text \<open>\<open>str::parse\<close> of an unsigned integer of maximum \<open>mx\<close>: an optional plus, then digits.\<close>

definition parse_uint :: "nat \<Rightarrow> string \<Rightarrow> nat option" where
  "parse_uint mx s =
     (let body = (case s of c # cs \<Rightarrow> if c = CHR ''+'' then cs else s | [] \<Rightarrow> [])
      in if body = [] then None
         else (case parse_digits 0 body of
                 None \<Rightarrow> None
               | Some n \<Rightarrow> if n \<le> mx then Some n else None))"

lemma digit_value_char: "d < 10 \<Longrightarrow> digit_value (digit_char d) = Some d"
  by (simp add: digit_value_def digit_char_def)

lemma parse_digits_append:
  "parse_digits acc (xs @ ys) = (case parse_digits acc xs of None \<Rightarrow> None | Some a \<Rightarrow> parse_digits a ys)"
  by (induction xs arbitrary: acc) (auto split: option.splits)

lemma parse_digits_decimal: "parse_digits 0 (decimal n) = Some n"
proof (induction n rule: decimal.induct)
  case (1 n)
  show ?case
  proof (cases "n < 10")
    case True
    then show ?thesis by (simp add: decimal.simps [of n] digit_value_char)
  next
    case False
    with 1 show ?thesis
      by (simp add: decimal.simps [of n] parse_digits_append digit_value_char)
  qed
qed

lemma decimal_inj [simp]: "decimal m = decimal n \<longleftrightarrow> m = n"
  by (metis option.inject parse_digits_decimal)

lemma decimal_digits: "c \<in> set (decimal n) \<Longrightarrow> \<exists>d < 10. c = digit_char d"
proof (induction n rule: decimal.induct)
  case (1 n)
  have "\<exists>d < 10. digit_char (n mod 10) = digit_char d" by (rule exI [of _ "n mod 10"]) simp
  with 1 show ?case by (auto simp: decimal.simps [of n] split: if_splits)
qed

lemma decimal_nonempty [simp]: "decimal n \<noteq> []"
  by (simp add: decimal.simps [of n])

lemma digit_char_neq: "d < 10 \<Longrightarrow> digit_char d \<noteq> CHR ''/''" "d < 10 \<Longrightarrow> digit_char d \<noteq> CHR ''+''"
  "d < 10 \<Longrightarrow> digit_char d \<noteq> CHR '':''"
  using digit_value_char [of d] by (auto simp: digit_value_def)

lemma decimal_no_sep: "CHR ''/'' \<notin> set (decimal n)" "CHR '':'' \<notin> set (decimal n)"
  using decimal_digits digit_char_neq by metis+

lemma hd_decimal: "hd (decimal n) \<noteq> CHR ''+''"
  using decimal_digits [OF hd_in_set [OF decimal_nonempty]] digit_char_neq by metis

lemma parse_uint_decimal: "n \<le> mx \<Longrightarrow> parse_uint mx (decimal n) = Some n"
  using hd_decimal [of n] decimal_nonempty [of n] parse_digits_decimal [of n]
  by (cases "decimal n") (auto simp: parse_uint_def)

lemma parse_uint_le: "parse_uint mx s = Some n \<Longrightarrow> n \<le> mx"
  by (auto simp: parse_uint_def Let_def split: if_splits option.splits)

end
