(* ===== verification/Disk.thy ===== *)
theory Disk
  imports Rust_Str
begin

text \<open>
  The file system as the program uses it through \<open>std::fs\<close>, and \<open>src/file_ops.rs\<close>.

  A \<open>disk\<close> maps the path of every regular file to its content and says which operations the
  environment lets fail: a file that cannot be created, opened, renamed or removed, a device that
  runs out of room after some bytes of a file (the write fails and leaves the bytes that fitted), a
  read that fails at some offset or delivers fewer bytes than asked for (at least one before the end
  of the file), a directory that cannot be made. A failed operation leaves what
  the operating system leaves. BLAKE3 is not part of the program: its one-shot and incremental
  interfaces are the parameter \<open>blake3\<close>, and \<open>blake3_ok\<close> is its documented behaviour.
\<close>

section \<open>The disk\<close>

record disk =
  files :: "path \<rightharpoonup> bytes"
  create_err :: "path \<Rightarrow> bool"
  write_room :: "path \<Rightarrow> nat option"
  open_err :: "path \<Rightarrow> bool"
  read_err :: "path \<Rightarrow> nat \<Rightarrow> bool"
  short_read :: "path \<Rightarrow> nat \<Rightarrow> nat option"
  rename_err :: "path \<Rightarrow> bool"
  remove_err :: "path \<Rightarrow> bool"
  exists_err :: "path \<Rightarrow> bool"
  mkdir_err :: "path \<Rightarrow> bool"

definition empty_disk :: disk where
  "empty_disk = \<lparr>files = Map.empty, create_err = (\<lambda>_. False), write_room = (\<lambda>_. None),
     open_err = (\<lambda>_. False), read_err = (\<lambda>_ _. False), short_read = (\<lambda>_ _. None), rename_err = (\<lambda>_. False),
     remove_err = (\<lambda>_. False), exists_err = (\<lambda>_. False), mkdir_err = (\<lambda>_. False)\<rparr>"

definition contents :: "disk \<Rightarrow> path \<Rightarrow> bytes" where
  "contents d p = (case files d p of None \<Rightarrow> [] | Some bs \<Rightarrow> bs)"

definition file_create :: "disk \<Rightarrow> path \<Rightarrow> disk \<times> unit res" where
  "file_create d p =
     (if create_err d p then (d, Err (IoError OpCreate))
      else (d\<lparr>files := (files d)(p \<mapsto> [])\<rparr>, Ok ()))"

definition file_append :: "disk \<Rightarrow> path \<Rightarrow> bytes \<Rightarrow> disk \<times> unit res" where
  "file_append d p bs =
     (let old = contents d p in
      case write_room d p of
        None \<Rightarrow> (d\<lparr>files := (files d)(p \<mapsto> old @ bs)\<rparr>, Ok ())
      | Some n \<Rightarrow>
          if length old + length bs \<le> n then (d\<lparr>files := (files d)(p \<mapsto> old @ bs)\<rparr>, Ok ())
          else (d\<lparr>files := (files d)(p \<mapsto> old @ take (n - length old) bs)\<rparr>, Err (IoError OpWrite)))"

definition fs_write :: "disk \<Rightarrow> path \<Rightarrow> bytes \<Rightarrow> disk \<times> unit res" where
  "fs_write d p bs = st_bind (file_create d p) (\<lambda>d _. file_append d p bs)"

definition file_open :: "disk \<Rightarrow> path \<Rightarrow> unit res" where
  "file_open d p = (if open_err d p \<or> files d p = None then Err (IoError OpOpen) else Ok ())"

text \<open>One call of \<open>read\<close> with a buffer of \<open>n\<close> bytes.\<close>

definition read_count :: "disk \<Rightarrow> path \<Rightarrow> nat \<Rightarrow> nat \<Rightarrow> nat" where
  "read_count d p pos n = (case short_read d p pos of None \<Rightarrow> n | Some k \<Rightarrow> min n (Suc k))"

definition file_read_at :: "disk \<Rightarrow> path \<Rightarrow> nat \<Rightarrow> nat \<Rightarrow> bytes res" where
  "file_read_at d p pos n =
     (if read_err d p pos then Err (IoError OpRead) else Ok (take (read_count d p pos n) (drop pos (contents d p))))"

definition fs_read :: "disk \<Rightarrow> path \<Rightarrow> bytes res" where
  "fs_read d p =
     res_bind (file_open d p) (\<lambda>_. if read_err d p 0 then Err (IoError OpRead) else Ok (contents d p))"

definition fs_rename :: "disk \<Rightarrow> path \<Rightarrow> path \<Rightarrow> disk \<times> unit res" where
  "fs_rename d p q =
     (case files d p of
        None \<Rightarrow> (d, Err (IoError OpRename))
      | Some bs \<Rightarrow> if rename_err d p then (d, Err (IoError OpRename))
                   else (d\<lparr>files := (files d)(p := None, q \<mapsto> bs)\<rparr>, Ok ()))"

definition fs_remove :: "disk \<Rightarrow> path \<Rightarrow> disk \<times> unit res" where
  "fs_remove d p =
     (if files d p = None \<or> remove_err d p then (d, Err (IoError OpRemove))
      else (d\<lparr>files := (files d)(p := None)\<rparr>, Ok ()))"

definition path_exists :: "disk \<Rightarrow> path \<Rightarrow> bool" where
  "path_exists d p \<longleftrightarrow> files d p \<noteq> None \<and> \<not> exists_err d p"

definition fs_exists :: "disk \<Rightarrow> path \<Rightarrow> bool res" where
  "fs_exists d p = (if exists_err d p then Err (IoError OpExists) else Ok (files d p \<noteq> None))"

definition create_dir_all :: "disk \<Rightarrow> string \<Rightarrow> unit res" where
  "create_dir_all d dir = (if mkdir_err d (path_of dir) then Err (IoError OpMkdir) else Ok ())"

text \<open>A file no operation fails on.\<close>

definition healthy :: "disk \<Rightarrow> path \<Rightarrow> bool" where
  "healthy d p \<longleftrightarrow> \<not> create_err d p \<and> write_room d p = None \<and> \<not> open_err d p
     \<and> (\<forall>pos. \<not> read_err d p pos \<and> short_read d p pos = None) \<and> \<not> rename_err d p \<and> \<not> remove_err d p \<and> \<not> exists_err d p"

lemma read_step:
  assumes "file_read_at d p pos n = Ok buf" "0 < n"
  shows "buf @ drop (pos + length buf) (contents d p) = drop pos (contents d p)"
    and "buf = [] \<Longrightarrow> drop pos (contents d p) = []"
    and "buf \<noteq> [] \<Longrightarrow> pos < length (contents d p)"
proof -
  let ?k = "read_count d p pos n" and ?rest = "drop pos (contents d p)"
  have buf: "buf = take ?k ?rest" and k: "0 < ?k"
    using assms by (auto simp: file_read_at_def read_count_def split: if_splits option.splits)
  have "buf @ drop (length buf) ?rest = ?rest" unfolding buf by (cases "?k \<le> length ?rest") (simp_all del: drop_drop)
  then show "buf @ drop (pos + length buf) (contents d p) = ?rest" by (simp add: add.commute)
  show "buf = [] \<Longrightarrow> ?rest = []" "buf \<noteq> [] \<Longrightarrow> pos < length (contents d p)" using buf k by auto
qed

lemma file_read_at_full:
  "\<not> read_err d p pos \<Longrightarrow> short_read d p pos = None \<Longrightarrow> file_read_at d p pos n = Ok (take n (drop pos (contents d p)))"
  by (simp add: file_read_at_def read_count_def)

lemma file_read_at_not_Panic [simp]: "file_read_at d p pos n \<noteq> Panic"
  by (simp add: file_read_at_def)

definition same_faults :: "disk \<Rightarrow> disk \<Rightarrow> bool" where
  "same_faults d d' \<longleftrightarrow> d'\<lparr>files := files d\<rparr> = d"

named_theorems fs_defs \<open>definitions of the file operations\<close>

lemmas [fs_defs] = file_create_def file_append_def fs_write_def fs_rename_def fs_remove_def

lemma same_faults_refl [simp]: "same_faults d d"
  by (simp add: same_faults_def)

lemma same_faults_update [simp]: "same_faults d (d\<lparr>files := f\<rparr>)"
  by (simp add: same_faults_def)

lemma same_faults_trans: "same_faults d e \<Longrightarrow> same_faults e f \<Longrightarrow> same_faults d f"
  by (cases d; cases e; cases f) (auto simp: same_faults_def)

lemma same_faults_healthy: "same_faults d d' \<Longrightarrow> healthy d' p = healthy d p"
  by (cases d; cases d') (auto simp: same_faults_def healthy_def)

lemma fs_ops_same_faults [simp]:
  "same_faults d (fst (file_create d p))" "same_faults d (fst (file_append d p bs))"
  "same_faults d (fst (fs_write d p bs))" "same_faults d (fst (fs_rename d p q))"
  "same_faults d (fst (fs_remove d p))"
  by (auto simp: fs_defs Let_def split: option.splits)

lemma fs_write_frame: "q \<noteq> p \<Longrightarrow> files (fst (fs_write d p bs)) q = files d q"
  by (auto simp: fs_defs Let_def split: option.splits)

lemma fs_write_Ok: "snd (fs_write d p bs) = Ok () \<Longrightarrow> files (fst (fs_write d p bs)) = (files d)(p \<mapsto> bs)"
  by (auto simp: fs_defs contents_def Let_def split: option.splits if_splits)

lemma fs_write_healthy:
  "healthy d p \<Longrightarrow> fs_write d p bs = (d\<lparr>files := (files d)(p \<mapsto> bs)\<rparr>, Ok ())"
  by (auto simp: fs_defs contents_def healthy_def)

lemma fs_write_not_Panic: "snd (fs_write d p bs) \<noteq> Panic"
  by (auto simp: fs_defs Let_def split: option.splits)

lemma fs_rename_cases:
  "snd (fs_rename d p q) = Ok () \<and> files d p \<noteq> None \<and>
     files (fst (fs_rename d p q)) = (files d)(p := None, q := files d p)
   \<or> (\<exists>e. snd (fs_rename d p q) = Err e) \<and> fst (fs_rename d p q) = d"
  by (auto simp: fs_defs split: option.splits)

lemma fs_remove_cases:
  "files (fst (fs_remove d p)) = files d \<or> files (fst (fs_remove d p)) = (files d)(p := None)"
  by (auto simp: fs_defs)

lemma fs_remove_frame: "q \<noteq> p \<Longrightarrow> files (fst (fs_remove d p)) q = files d q"
  by (auto simp: fs_defs)

lemma fs_remove_healthy: "healthy d p \<Longrightarrow> files (fst (fs_remove d p)) p = None"
  by (auto simp: fs_defs healthy_def)

section \<open>The contract of a file store, and atomic replacement\<close>

text \<open>
  What writing a new version of a file relies on: a write touches its file only, a rename moves a
  file in one step or does nothing, a removal touches its file only.
\<close>

locale file_store =
  fixes look :: "'d \<Rightarrow> path \<Rightarrow> bytes option"
    and wr :: "'d \<Rightarrow> path \<Rightarrow> bytes \<Rightarrow> 'd \<times> unit res"
    and rn :: "'d \<Rightarrow> path \<Rightarrow> path \<Rightarrow> 'd \<times> unit res"
    and rm :: "'d \<Rightarrow> path \<Rightarrow> 'd \<times> unit res"
  assumes wr_frame: "q \<noteq> p \<Longrightarrow> look (fst (wr d p bs)) q = look d q"
    and wr_ok: "snd (wr d p bs) = Ok () \<Longrightarrow> look (fst (wr d p bs)) p = Some bs"
    and rn_ok: "snd (rn d p q) = Ok () \<Longrightarrow> p \<noteq> q \<Longrightarrow>
      look (fst (rn d p q)) q = look d p \<and> look (fst (rn d p q)) p = None"
    and rn_fail: "snd (rn d p q) \<noteq> Ok () \<Longrightarrow> look (fst (rn d p q)) = look d"
    and rn_frame: "r \<noteq> p \<Longrightarrow> r \<noteq> q \<Longrightarrow> look (fst (rn d p q)) r = look d r"
    and rm_frame: "q \<noteq> p \<Longrightarrow> look (fst (rm d p)) q = look d q"
begin

text \<open>
  Write the new version to \<open>tmp\<close>, rename it over \<open>p\<close>, and remove \<open>tmp\<close> when the rename fails: at
  every moment \<open>p\<close> holds the old version or the whole new one, and no other file changes.
\<close>

lemma replace_atomic:
  assumes "tmp \<noteq> p" "wr d tmp bs = (d1, r1)"
    and "r1 = Ok () \<Longrightarrow> rn d1 tmp p = (d2, r2)"
  shows "look d1 p = look d p"
    and "r1 = Ok () \<Longrightarrow> r2 = Ok () \<Longrightarrow> look d2 p = Some bs \<and> look d2 tmp = None"
    and "r1 = Ok () \<Longrightarrow> r2 \<noteq> Ok () \<Longrightarrow> look d2 p = look d p \<and> look (fst (rm d2 tmp)) p = look d p"
    and "r1 = Ok () \<Longrightarrow> q \<noteq> p \<Longrightarrow> q \<noteq> tmp \<Longrightarrow>
      look d2 q = look d q \<and> look (fst (rm d2 tmp)) q = look d q"
    and "q \<noteq> tmp \<Longrightarrow> look d1 q = look d q"
proof -
  show one: "look d1 p = look d p"
    using wr_frame [of p tmp d bs] assms(1,2) by simp
  show "r1 = Ok () \<Longrightarrow> r2 = Ok () \<Longrightarrow> look d2 p = Some bs \<and> look d2 tmp = None"
    using wr_ok [of d tmp bs] rn_ok [of d1 tmp p] assms by simp
  show "r1 = Ok () \<Longrightarrow> r2 \<noteq> Ok () \<Longrightarrow> look d2 p = look d p \<and> look (fst (rm d2 tmp)) p = look d p"
    using one rn_fail [of d1 tmp p] rm_frame [of p tmp d2] assms by simp
  show other: "q \<noteq> tmp \<Longrightarrow> look d1 q = look d q"
    using wr_frame [of q tmp d bs] assms(2) by simp
  show "r1 = Ok () \<Longrightarrow> q \<noteq> p \<Longrightarrow> q \<noteq> tmp \<Longrightarrow>
      look d2 q = look d q \<and> look (fst (rm d2 tmp)) q = look d q"
    using other rn_frame [of q tmp p d1] rm_frame [of q tmp d2] assms by simp
qed

end

interpretation store: file_store files fs_write fs_rename fs_remove
proof unfold_locales
  show "snd (fs_write d p bs) = Ok () \<Longrightarrow> files (fst (fs_write d p bs)) p = Some bs" for d p bs
    by (simp add: fs_write_Ok)
  show "snd (fs_rename d p q) = Ok () \<Longrightarrow> p \<noteq> q \<Longrightarrow>
      files (fst (fs_rename d p q)) q = files d p \<and> files (fst (fs_rename d p q)) p = None" for d p q
    using fs_rename_cases [of d p q] by auto
  show "snd (fs_rename d p q) \<noteq> Ok () \<Longrightarrow> files (fst (fs_rename d p q)) = files d" for d p q
    using fs_rename_cases [of d p q] by auto
  show "r \<noteq> p \<Longrightarrow> r \<noteq> q \<Longrightarrow> files (fst (fs_rename d p q)) r = files d r" for d p q r
    using fs_rename_cases [of d p q] by auto
qed (simp_all add: fs_write_frame fs_remove_frame)

section \<open>Hashing (src/file\_ops.rs)\<close>

record 'h blake3 =
  b3_hash :: "bytes \<Rightarrow> bytes"
  b3_new :: 'h
  b3_update :: "'h \<Rightarrow> bytes \<Rightarrow> 'h"
  b3_finalize :: "'h \<Rightarrow> bytes"

definition blake3_ok :: "'h blake3 \<Rightarrow> bool" where
  "blake3_ok B \<longleftrightarrow> (\<forall>bs. length (b3_hash B bs) = 32) \<and>
     (\<forall>pieces. b3_finalize B (foldl (b3_update B) (b3_new B) pieces) = b3_hash B (concat pieces))"

definition HASH_SIZE :: usize where [const_defs]: "HASH_SIZE = 32"

definition BUFFER_SIZE :: usize where [const_defs]: "BUFFER_SIZE = 65536"

definition calc_hash :: "'h blake3 \<Rightarrow> bytes \<Rightarrow> bytes" where
  "calc_hash B data = b3_hash B data"

lemma read_advances:
  assumes "file_read_at d p pos BUFFER_SIZE = Ok buf" "buf \<noteq> []"
  shows "length (contents d p) - (pos + length buf) < length (contents d p) - pos"
proof -
  have "pos < length (contents d p)" "0 < length buf"
    using read_step(3) [OF assms(1) _ assms(2)] assms(2) by (simp_all add: BUFFER_SIZE_def)
  then show ?thesis by linarith
qed

function hash_loop :: "'h blake3 \<Rightarrow> disk \<Rightarrow> path \<Rightarrow> nat \<Rightarrow> 'h \<Rightarrow> 'h res" where
  "hash_loop B d p pos hasher =
     (case file_read_at d p pos BUFFER_SIZE of
        Ok buf \<Rightarrow>
          if buf = [] then Ok hasher
          else hash_loop B d p (pos + length buf) (b3_update B hasher buf)
      | Err e \<Rightarrow> Err e
      | Panic \<Rightarrow> Panic)"
  by pat_completeness auto
termination
  by (relation "measure (\<lambda>(B, d, p, pos, h). length (contents d p) - pos)")
    (auto intro: read_advances)

declare hash_loop.simps [simp del]

definition file_hash :: "'h blake3 \<Rightarrow> disk \<Rightarrow> string \<Rightarrow> bytes res" where
  "file_hash B d filepath =
     res_bind (file_open d (path_of filepath)) (\<lambda>_.
       res_map (b3_finalize B) (hash_loop B d (path_of filepath) 0 (b3_new B)))"

lemma hash_loop_pieces:
  "hash_loop B d p pos h = Ok h' \<Longrightarrow>
     \<exists>pieces. concat pieces = drop pos (contents d p) \<and> h' = foldl (b3_update B) h pieces"
proof (induction B d p pos h rule: hash_loop.induct)
  case (1 B d p pos h)
  obtain buf where rd: "file_read_at d p pos BUFFER_SIZE = Ok buf"
    using 1(2) by (auto simp: hash_loop.simps [of B d p pos h] split: res.splits)
  note step = read_step [OF rd, unfolded BUFFER_SIZE_def, simplified]
  show ?case
  proof (cases "buf = []")
    case True
    then have "h' = h" using 1(2) rd by (simp add: hash_loop.simps [of B d p pos h])
    then show ?thesis using step(2) [OF True] by (intro exI [of _ "[]"]) simp
  next
    case False
    then have "hash_loop B d p (pos + length buf) (b3_update B h buf) = Ok h'"
      using 1(2) rd by (simp add: hash_loop.simps [of B d p pos h])
    with 1(1) rd False obtain pieces where
      "concat pieces = drop (pos + length buf) (contents d p)"
      "h' = foldl (b3_update B) (b3_update B h buf) pieces"
      by blast
    then show ?thesis using step(1) by (intro exI [of _ "buf # pieces"]) simp
  qed
qed

lemma hash_loop_Ok: "(\<And>n. \<not> read_err d p n) \<Longrightarrow> \<exists>h'. hash_loop B d p pos h = Ok h'"
proof (induction B d p pos h rule: hash_loop.induct)
  case (1 B d p pos h)
  let ?buf = "take (read_count d p pos BUFFER_SIZE) (drop pos (contents d p))"
  have "file_read_at d p pos BUFFER_SIZE = Ok ?buf" using 1(2) by (simp add: file_read_at_def)
  then show ?case using 1 by (cases "?buf = []") (simp_all add: hash_loop.simps [of B d p pos h] del: take_eq_Nil)
qed

lemma file_hash_value:
  "blake3_ok B \<Longrightarrow> file_hash B d f = Ok h \<Longrightarrow> h = b3_hash B (contents d (path_of f))"
  using hash_loop_pieces [of B d "path_of f" 0 "b3_new B"]
  by (force simp: file_hash_def res_simps blake3_ok_def)

lemma file_hash_healthy:
  assumes "blake3_ok B" "healthy d (path_of f)" "files d (path_of f) = Some bs"
  shows "file_hash B d f = Ok (b3_hash B bs)"
proof -
  obtain h' where "hash_loop B d (path_of f) 0 (b3_new B) = Ok h'"
    using hash_loop_Ok assms(2) by (metis healthy_def)
  then have "file_hash B d f = Ok (b3_finalize B h')"
    using assms(2,3) by (simp add: file_hash_def file_open_def healthy_def)
  then show ?thesis using file_hash_value [OF assms(1)] assms(3) by (fastforce simp: contents_def)
qed

text \<open>An instance for the witnesses: a digest that is the first 32 bytes, padded with zeros.\<close>

definition toy_blake3 :: "bytes blake3" where
  "toy_blake3 = \<lparr>b3_hash = (\<lambda>bs. take 32 (bs @ replicate 32 0)), b3_new = [],
     b3_update = (\<lambda>h piece. h @ piece), b3_finalize = (\<lambda>h. take 32 (h @ replicate 32 0))\<rparr>"

lemma foldl_append: "foldl (@) a pieces = a @ concat pieces"
  by (induction pieces arbitrary: a) simp_all

lemma toy_blake3_ok: "blake3_ok toy_blake3"
  by (auto simp: blake3_ok_def toy_blake3_def foldl_append min_def)

lemma toy_hash [simp]: "b3_hash toy_blake3 bs = take 32 (bs @ replicate 32 0)"
  by (simp add: toy_blake3_def)

lemma empty_disk_healthy [simp]: "healthy (empty_disk\<lparr>files := f\<rparr>) p" "healthy empty_disk p"
  by (simp_all add: healthy_def empty_disk_def)

end
