(* ===== verification/Wire_Codec.thy ===== *)
theory Wire_Codec
  imports Prelude
begin

text \<open>
  Big-endian integers (\<open>to_be_bytes\<close>, \<open>from_be_bytes\<close> of \<open>u16\<close>, \<open>u32\<close>, \<open>u64\<close>) and the contracts
  the wire formats of the program fulfil. \<open>codec\<close> is the contract of one message: what is encoded
  is decoded again. \<open>stream_codec\<close> is the contract of a message inside a byte stream, whose decoder
  returns the bytes after it. \<open>block_codec\<close> is the contract of a table of equally wide entries read
  at computed offsets, which is how ports, resume indices and metadata entries are read.
\<close>

section \<open>Big-endian integers\<close>

fun be_bytes :: "nat \<Rightarrow> nat \<Rightarrow> bytes" where
  "be_bytes 0 x = []"
| "be_bytes (Suc n) x = be_bytes n (x div 256) @ [word_of_nat x]"

definition be_nat :: "bytes \<Rightarrow> nat" where
  "be_nat bs = foldl (\<lambda>a b. a * 256 + unat b) 0 bs"

definition to_be_bytes :: "'a::len word \<Rightarrow> bytes" where
  "to_be_bytes w = be_bytes (LENGTH('a) div 8) (unat w)"

definition from_be_bytes :: "bytes \<Rightarrow> 'a::len word" where
  "from_be_bytes bs = word_of_nat (be_nat bs)"

lemma length_be_bytes [simp]: "length (be_bytes n x) = n"
  by (induction n arbitrary: x) auto

lemma be_nat_snoc: "be_nat (bs @ [b]) = be_nat bs * 256 + unat b"
  by (simp add: be_nat_def)

lemma be_nat_Nil [simp]: "be_nat [] = 0"
  by (simp add: be_nat_def)

lemma be_nat_be_bytes: "be_nat (be_bytes n x) = x mod 256 ^ n"
proof (induction n arbitrary: x)
  case 0
  then show ?case by simp
next
  case (Suc n)
  have "be_nat (be_bytes (Suc n) x) = (x div 256 mod 256 ^ n) * 256 + x mod 256"
    by (simp add: be_nat_snoc Suc unat_of_nat)
  also have "\<dots> = x mod (256 * 256 ^ n)"
    by (simp add: mod_mult2_eq)
  finally show ?case by simp
qed

lemma be_bytes_be_nat: "be_bytes (length bs) (be_nat bs) = bs"
proof (induction bs rule: rev_induct)
  case Nil
  then show ?case by simp
next
  case (snoc b bs)
  have "unat b < 256" using unsigned_less [of b] by simp
  then have "(be_nat bs * 256 + unat b) div 256 = be_nat bs" by simp
  moreover have "word_of_nat (be_nat bs * 256 + unat b) = b"
  proof -
    have "(word_of_nat 256 :: u8) = 0" by simp
    then show ?thesis by (simp only: of_nat_add of_nat_mult) simp
  qed
  ultimately show ?case using snoc by (simp add: be_nat_snoc)
qed

lemma be_nat_less: "be_nat bs < 256 ^ length bs"
  using be_nat_be_bytes [of "length bs" "be_nat bs"] by (metis be_bytes_be_nat mod_less_divisor zero_less_power zero_less_numeral)

lemma length_to_be_bytes [simp]: "length (to_be_bytes (w :: 'a::len word)) = LENGTH('a) div 8"
  by (simp add: to_be_bytes_def)

lemma from_to_be_bytes:
  assumes "8 dvd LENGTH('a::len)"
  shows "from_be_bytes (to_be_bytes (w :: 'a word)) = w"
proof -
  from assms obtain k where k: "LENGTH('a) = 8 * k" by blast
  have "(256 :: nat) ^ k = 2 ^ LENGTH('a)" by (simp add: k power_mult)
  moreover have "unat w < 2 ^ LENGTH('a)" by (rule unsigned_less)
  ultimately show ?thesis
    by (simp add: from_be_bytes_def to_be_bytes_def be_nat_be_bytes k)
qed

lemma unat_from_be_bytes:
  assumes "length bs * 8 \<le> LENGTH('a::len)"
  shows "unat (from_be_bytes bs :: 'a word) = be_nat bs"
proof -
  have "be_nat bs < 256 ^ length bs" by (rule be_nat_less)
  also have "(256 :: nat) ^ length bs = (2 ^ 8) ^ length bs" by simp
  also have "\<dots> = 2 ^ (length bs * 8)" by (simp only: power_mult [symmetric] mult.commute)
  also have "\<dots> \<le> (2 :: nat) ^ LENGTH('a)" using assms by (simp add: power_increasing)
  finally show ?thesis by (simp add: from_be_bytes_def unat_of_nat)
qed

lemma to_from_be_bytes:
  assumes "length bs * 8 = LENGTH('a::len)"
  shows "to_be_bytes (from_be_bytes bs :: 'a word) = bs"
proof -
  have "LENGTH('a) div 8 = length bs" using assms by (metis nonzero_mult_div_cancel_right zero_neq_numeral)
  then show ?thesis using assms by (simp add: to_be_bytes_def unat_from_be_bytes be_bytes_be_nat)
qed

lemma from_be_bytes_of_word [simp]:
  "from_be_bytes (to_be_bytes (a :: u16)) = a"
  "from_be_bytes (to_be_bytes (b :: u32)) = b"
  "from_be_bytes (to_be_bytes (c :: u64)) = c"
  by (simp_all add: from_to_be_bytes)

lemma to_be_bytes_inj [simp]:
  "to_be_bytes (a :: u16) = to_be_bytes a' \<longleftrightarrow> a = a'"
  "to_be_bytes (b :: u32) = to_be_bytes b' \<longleftrightarrow> b = b'"
  "to_be_bytes (c :: u64) = to_be_bytes c' \<longleftrightarrow> c = c'"
  by (metis from_be_bytes_of_word)+

text \<open>A \<open>u32\<close> field written from a \<open>usize\<close> (\<open>n as u32\<close>) and read back (\<open>... as usize\<close>).\<close>

lemma unat_u32_of_usize: "n < 2 ^ 32 \<Longrightarrow> unat (word_of_nat n :: u32) = n"
  by (simp add: unat_of_nat)

lemma unat_u16_of_usize: "n < 2 ^ 16 \<Longrightarrow> unat (word_of_nat n :: u16) = n"
  by (simp add: unat_of_nat)

lemma unat_u8_of_usize: "n < 2 ^ 8 \<Longrightarrow> unat (word_of_nat n :: u8) = n"
  by (simp add: unat_of_nat)

lemma unat_u32_less: "unat (w :: u32) < 2 ^ 32"
  using unsigned_less [of w] by simp

lemma unat_u64_less: "unat (w :: u64) < 2 ^ 64"
  using unsigned_less [of w] by simp

definition read_u16 :: "bytes \<Rightarrow> nat \<Rightarrow> u16 res" where
  "read_u16 d off = res_map from_be_bytes (read_bytes d off 2)"

definition read_u32 :: "bytes \<Rightarrow> nat \<Rightarrow> u32 res" where
  "read_u32 d off = res_map from_be_bytes (read_bytes d off 4)"

definition read_u64 :: "bytes \<Rightarrow> nat \<Rightarrow> u64 res" where
  "read_u64 d off = res_map from_be_bytes (read_bytes d off 8)"

lemma read_word_Panic [res_simps]:
  "read_u16 d off = Panic \<longleftrightarrow> length d < off + 2"
  "read_u32 d off = Panic \<longleftrightarrow> length d < off + 4"
  "read_u64 d off = Panic \<longleftrightarrow> length d < off + 8"
  by (simp_all add: read_u16_def read_u32_def read_u64_def res_simps)

lemma read_word_Ok [res_simps]:
  "off + 2 \<le> length d \<Longrightarrow> read_u16 d off = Ok (from_be_bytes (take 2 (drop off d)))"
  "off + 4 \<le> length d \<Longrightarrow> read_u32 d off = Ok (from_be_bytes (take 4 (drop off d)))"
  "off + 8 \<le> length d \<Longrightarrow> read_u64 d off = Ok (from_be_bytes (take 8 (drop off d)))"
  by (simp_all add: read_u16_def read_u32_def read_u64_def res_simps)

lemma read_word_append:
  "length pre = off \<Longrightarrow> read_u16 (pre @ to_be_bytes (a :: u16) @ post) off = Ok a"
  "length pre = off \<Longrightarrow> read_u32 (pre @ to_be_bytes (b :: u32) @ post) off = Ok b"
  "length pre = off \<Longrightarrow> read_u64 (pre @ to_be_bytes (c :: u64) @ post) off = Ok c"
  by (simp_all add: read_u16_def read_u32_def read_u64_def read_bytes_append)

section \<open>The codec contracts\<close>

locale codec =
  fixes enc :: "'a \<Rightarrow> bytes" and dec :: "bytes \<Rightarrow> 'a res" and valid :: "'a \<Rightarrow> bool"
  assumes dec_enc: "valid x \<Longrightarrow> dec (enc x) = Ok x"
begin

lemma enc_inj: "valid x \<Longrightarrow> valid y \<Longrightarrow> enc x = enc y \<Longrightarrow> x = y"
  by (metis dec_enc res.inject(1))

lemma dec_determines: "valid x \<Longrightarrow> dec (enc x) = Ok y \<Longrightarrow> y = x"
  by (simp add: dec_enc)

end

fun get_many :: "(bytes \<Rightarrow> ('a \<times> bytes) res) \<Rightarrow> nat \<Rightarrow> bytes \<Rightarrow> ('a list \<times> bytes) res" where
  "get_many get 0 bs = Ok ([], bs)"
| "get_many get (Suc n) bs =
     res_bind (get bs) (\<lambda>(x, rest). res_bind (get_many get n rest) (\<lambda>(xs, rest'). Ok (x # xs, rest')))"

locale stream_codec =
  fixes put :: "'a \<Rightarrow> bytes" and get :: "bytes \<Rightarrow> ('a \<times> bytes) res" and valid :: "'a \<Rightarrow> bool"
  assumes get_put: "valid x \<Longrightarrow> get (put x @ rest) = Ok (x, rest)"
begin

lemma put_prefix_free:
  assumes "valid x" "valid y" "put x @ r = put y @ s"
  shows "x = y \<and> r = s"
  by (metis assms get_put prod.inject res.inject(1))

lemma get_many_put:
  "list_all valid xs \<Longrightarrow> get_many get (length xs) (concat (map put xs) @ rest) = Ok (xs, rest)"
  by (induction xs) (simp_all add: get_put)

lemma put_seq_inj:
  assumes "list_all valid xs" "list_all valid ys" "length xs = length ys"
    and "concat (map put xs) @ r = concat (map put ys) @ s"
  shows "xs = ys \<and> r = s"
  by (metis assms get_many_put prod.inject res.inject(1))

end

sublocale stream_codec \<subseteq> one: codec put "\<lambda>bs. res_map fst (get bs)" valid
proof unfold_locales
  fix x assume "valid x"
  then show "res_map fst (get (put x)) = Ok x" using get_put [of x "[]"] by simp
qed

locale block_codec =
  fixes put :: "'a \<Rightarrow> bytes" and get :: "bytes \<Rightarrow> 'a" and width :: nat and valid :: "'a \<Rightarrow> bool"
  assumes put_length: "valid x \<Longrightarrow> length (put x) = width"
    and get_put: "valid x \<Longrightarrow> get (put x) = x"
begin

lemma length_table: "list_all valid xs \<Longrightarrow> length (concat (map put xs)) = length xs * width"
  by (induction xs) (auto simp: put_length)

lemma read_entry:
  assumes "length pre = off" "i < length xs" "list_all valid xs"
  shows "res_map get (read_bytes (pre @ concat (map put xs) @ post) (off + i * width) width) = Ok (xs ! i)"
proof -
  have "read_bytes (pre @ concat (map put xs) @ post) (off + i * width) width = Ok (map put xs ! i)"
    using assms by (intro read_bytes_block) (auto simp: put_length list_all_iff)
  then show ?thesis using assms by (simp add: get_put list_all_length)
qed

lemma read_table:
  assumes "length pre = off" "list_all valid xs"
  shows "res_mapM (\<lambda>i. res_map get (read_bytes (pre @ concat (map put xs) @ post) (off + i * width) width))
           [0..<length xs] = Ok xs"
proof -
  have "res_mapM (\<lambda>i. res_map get (read_bytes (pre @ concat (map put xs) @ post) (off + i * width) width))
           [0..<length xs] = Ok (map (\<lambda>i. xs ! i) [0..<length xs])"
    using assms by (intro res_mapM_all_Ok read_entry) auto
  then show ?thesis by (simp add: map_nth)
qed

end

interpretation port_block: block_codec "to_be_bytes :: u16 \<Rightarrow> bytes" from_be_bytes 2 "\<lambda>_. True"
  by unfold_locales auto

interpretation index_block: block_codec "\<lambda>i. to_be_bytes (word_of_nat i :: u32)"
  "\<lambda>bs. unat (from_be_bytes bs :: u32)" 4 "\<lambda>i. i < 2 ^ 32"
  by unfold_locales (auto simp: unat_u32_of_usize)

end
