(* ===== verification/Metadata.thy ===== *)
theory Metadata
  imports Disk Wire_Codec "HOL-Library.AList_Mapping"
begin

text \<open>
  Transfer metadata (\<open>src/server/metadata.rs\<close>): the record persisted as \<open><file>.bee-meta\<close> beside
  the \<open>.part\<close> files, its binary format, its atomic save, its load, and the check of a \<open>.part\<close> file
  against its stored hash. The \<open>HashMap\<close> of chunk hashes is a \<open>mapping\<close>, whose executable form is an
  association list; \<open>chunk_hashes\<close> reads it as a partial function.
\<close>

section \<open>File names of one transfer\<close>

definition part_path :: "string \<Rightarrow> string \<Rightarrow> usize \<Rightarrow> string" where
  "part_path dir filename i = dir @ ''/'' @ filename @ ''.part'' @ decimal i"

definition meta_path :: "string \<Rightarrow> string \<Rightarrow> string" where
  "meta_path parts_dir filename = parts_dir @ ''/'' @ filename @ ''.bee-meta''"

definition tmp_path :: "string \<Rightarrow> string \<Rightarrow> string" where
  "tmp_path parts_dir filename = meta_path parts_dir filename @ ''.tmp''"

text \<open>The files these paths denote.\<close>

definition part_file :: "string \<Rightarrow> string \<Rightarrow> usize \<Rightarrow> path" where
  "part_file dir filename i = path_of (part_path dir filename i)"

definition meta_file :: "string \<Rightarrow> string \<Rightarrow> path" where
  "meta_file dir filename = path_of (meta_path dir filename)"

definition tmp_file :: "string \<Rightarrow> string \<Rightarrow> path" where
  "tmp_file dir filename = path_of (tmp_path dir filename)"

named_theorems transfer_files \<open>distinctness of the files of one transfer\<close>

lemma path_of_dir:
  assumes "plain_name f"
  shows "path_of (dir @ CHR ''/'' # f) = (dir = [] \<or> hd dir = CHR ''/'', path_comps dir @ [f])"
  unfolding path_of_def path_comps_dir [OF assms] by (cases dir) auto

lemma path_of_dir_eq:
  "plain_name f \<Longrightarrow> plain_name g \<Longrightarrow>
     path_of (dir @ CHR ''/'' # f) = path_of (dir @ CHR ''/'' # g) \<longleftrightarrow> f = g"
  by (simp add: path_of_dir)

lemma path_of_dirs_neq:
  "plain_name f \<Longrightarrow> plain_name g \<Longrightarrow> f \<noteq> g \<Longrightarrow>
     path_of (d @ CHR ''/'' # f) \<noteq> path_of (e @ CHR ''/'' # g)"
  by (simp add: path_of_dir)

lemma plain_part_name: "plain_name f \<Longrightarrow> plain_name (f @ ''.part'' @ decimal i)"
  using decimal_no_sep [of i] by (auto simp: plain_name_def Cons_eq_append_conv append_eq_Cons_conv)

lemma plain_meta_name: "plain_name f \<Longrightarrow> plain_name (f @ ''.bee-meta'')"
  by (auto simp: plain_name_def Cons_eq_append_conv append_eq_Cons_conv)

lemma plain_tmp_name: "plain_name f \<Longrightarrow> plain_name (f @ ''.bee-meta.tmp'')"
  by (auto simp: plain_name_def Cons_eq_append_conv append_eq_Cons_conv)

lemma transfer_paths:
  "part_file dir f i = path_of (dir @ CHR ''/'' # (f @ ''.part'' @ decimal i))"
  "meta_file dir f = path_of (dir @ CHR ''/'' # (f @ ''.bee-meta''))"
  "tmp_file dir f = path_of (dir @ CHR ''/'' # (f @ ''.bee-meta.tmp''))"
  by (simp_all add: part_file_def meta_file_def tmp_file_def part_path_def meta_path_def tmp_path_def)

lemma transfer_files_distinct [transfer_files]:
  assumes "plain_name f"
  shows "part_file dir f i = part_file dir f j \<longleftrightarrow> i = j"
    and "part_file dir f i \<noteq> meta_file dir f" and "part_file dir f i \<noteq> tmp_file dir f"
    and "meta_file dir f \<noteq> part_file dir f i" and "tmp_file dir f \<noteq> part_file dir f i"
    and "meta_file dir f \<noteq> tmp_file dir f" and "tmp_file dir f \<noteq> meta_file dir f"
  using assms plain_part_name plain_meta_name plain_tmp_name
  by (simp_all add: transfer_paths path_of_dir_eq)

lemma final_file_distinct [transfer_files]:
  assumes "plain_name f"
  shows "path_of (out @ ''/'' @ f) \<noteq> part_file dir f i" "part_file dir f i \<noteq> path_of (out @ ''/'' @ f)"
    and "path_of (out @ ''/'' @ f) \<noteq> meta_file dir f" "meta_file dir f \<noteq> path_of (out @ ''/'' @ f)"
    and "path_of (out @ ''/'' @ f) \<noteq> tmp_file dir f" "tmp_file dir f \<noteq> path_of (out @ ''/'' @ f)"
  using assms plain_part_name plain_meta_name plain_tmp_name path_of_dirs_neq
  by (simp_all add: transfer_paths path_of_dirs_neq)

section \<open>The record and its operations\<close>

record metadata =
  m_chunk_size :: usize
  m_num_chunks :: usize
  m_file_size :: u64
  m_full_hash :: bytes
  hash_table :: "(usize, bytes) mapping"

definition chunk_hashes :: "metadata \<Rightarrow> usize \<rightharpoonup> bytes" where
  "chunk_hashes m = Mapping.lookup (hash_table m)"

lemma lookup_update_map [simp]: "Mapping.lookup (Mapping.update k v t) = (Mapping.lookup t)(k \<mapsto> v)"
  by (auto simp: lookup_update' fun_eq_iff)

lemma lookup_empty_map [simp]: "Mapping.lookup Mapping.empty = Map.empty"
  by (simp add: fun_eq_iff)

lemma lookup_hash_table [simp]: "Mapping.lookup (hash_table m) = chunk_hashes m"
  by (simp add: chunk_hashes_def)

lemma chunk_hashes_new [simp]:
  "chunk_hashes \<lparr>m_chunk_size = a, m_num_chunks = b, m_file_size = c, m_full_hash = e, hash_table = t\<rparr>
     = Mapping.lookup t"
  "chunk_hashes (m\<lparr>hash_table := t\<rparr>) = Mapping.lookup t"
  by (simp_all add: chunk_hashes_def)

lemma keys_hash_table [simp]: "Mapping.keys (hash_table m) = dom (chunk_hashes m)"
  by (simp add: keys_dom_lookup)

lemma hash_table_eqI: "chunk_hashes m = Mapping.lookup t \<Longrightarrow> hash_table m = t"
  by (intro mapping_eqI) simp

definition META_MAGIC :: bytes where [const_defs]: "META_MAGIC = [0x42, 0x45, 0x4D, 0x54]"

definition META_VERSION :: u8 where [const_defs]: "META_VERSION = 1"

definition META_HEADER_SIZE :: usize where
  [const_defs]: "META_HEADER_SIZE = 4 + 1 + 4 + 4 + 8 + 32 + 4"

definition ENTRY_SIZE :: usize where [const_defs]: "ENTRY_SIZE = 36"

definition meta_new :: "usize \<Rightarrow> usize \<Rightarrow> u64 \<Rightarrow> bytes \<Rightarrow> metadata" where
  "meta_new chunk_size num_chunks file_size full_hash =
     \<lparr>m_chunk_size = chunk_size, m_num_chunks = num_chunks, m_file_size = file_size,
      m_full_hash = full_hash, hash_table = Mapping.empty\<rparr>"

definition add_chunk :: "metadata \<Rightarrow> usize \<Rightarrow> bytes \<Rightarrow> metadata" where
  "add_chunk m index hash = m\<lparr>hash_table := Mapping.update index hash (hash_table m)\<rparr>"

text \<open>The entries sorted by index, each index with its hash.\<close>

definition sorted_entries :: "(usize, bytes) mapping \<Rightarrow> (usize \<times> bytes) list" where
  "sorted_entries t = map (\<lambda>i. (i, the (Mapping.lookup t i))) (Mapping.ordered_keys t)"

definition entry_bytes :: "usize \<times> bytes \<Rightarrow> bytes" where
  "entry_bytes e = to_be_bytes (word_of_nat (fst e) :: u32) @ snd e"

definition meta_to_bytes :: "metadata \<Rightarrow> bytes" where
  "meta_to_bytes m =
     META_MAGIC @ [META_VERSION]
     @ to_be_bytes (word_of_nat (m_chunk_size m) :: u32)
     @ to_be_bytes (word_of_nat (m_num_chunks m) :: u32)
     @ to_be_bytes (m_file_size m)
     @ m_full_hash m
     @ to_be_bytes (word_of_nat (Mapping.size (hash_table m)) :: u32)
     @ concat (map entry_bytes (sorted_entries (hash_table m)))"

definition read_entry :: "bytes \<Rightarrow> usize \<Rightarrow> (usize \<times> bytes) res" where
  "read_entry data i =
     (let offset = META_HEADER_SIZE + i * ENTRY_SIZE in
      res_bind (read_u32 data offset) (\<lambda>idx.
      res_bind (read_bytes data (offset + 4) 32) (\<lambda>hash.
      Ok (unat idx, hash))))"

definition insert_entries :: "(usize \<times> bytes) list \<Rightarrow> (usize, bytes) mapping" where
  "insert_entries es = foldl (\<lambda>t (i, h). Mapping.update i h t) Mapping.empty es"

definition meta_from_bytes :: "bytes \<Rightarrow> metadata res" where
  "meta_from_bytes data =
     (if length data < META_HEADER_SIZE then Err (MetaTooShort (length data)) else
      res_bind (read_bytes data 0 4) (\<lambda>magic.
      if magic \<noteq> META_MAGIC then Err (BadMetaMagic magic) else
      res_bind (index_at data 4) (\<lambda>version.
      if version \<noteq> META_VERSION then Err (UnsupportedVersion version) else
      res_bind (read_u32 data 5) (\<lambda>chunk_size.
      res_bind (read_u32 data 9) (\<lambda>num_chunks.
      res_bind (read_u64 data 13) (\<lambda>file_size.
      res_bind (read_bytes data 21 32) (\<lambda>full_hash.
      res_bind (read_u32 data 53) (\<lambda>entry_count.
      let n = unat entry_count; expected_len = META_HEADER_SIZE + n * ENTRY_SIZE in
      if length data < expected_len then Err (MetaTruncated expected_len (length data)) else
      res_bind (res_mapM (read_entry data) [0..<n]) (\<lambda>entries.
      Ok \<lparr>m_chunk_size = unat chunk_size, m_num_chunks = unat num_chunks, m_file_size = file_size,
          m_full_hash = full_hash, hash_table = insert_entries entries\<rparr>)))))))))"

definition meta_save :: "metadata \<Rightarrow> disk \<Rightarrow> string \<Rightarrow> string \<Rightarrow> disk \<times> unit res" where
  "meta_save m d parts_dir filename =
     (let path = meta_file parts_dir filename; tmp = tmp_file parts_dir filename;
          data = meta_to_bytes m
      in st_bind (fs_write d tmp data) (\<lambda>d _.
           case fs_rename d tmp path of
             (d', Ok _) \<Rightarrow> (d', Ok ())
           | (d', Err e) \<Rightarrow> (fst (fs_remove d' tmp), Err e)
           | (d', Panic) \<Rightarrow> (d', Panic)))"

definition meta_load :: "disk \<Rightarrow> string \<Rightarrow> string \<Rightarrow> metadata option res" where
  "meta_load d parts_dir filename =
     (let path = meta_file parts_dir filename in
      if \<not> path_exists d path then Ok None
      else res_bind (fs_read d path) (\<lambda>data. res_map Some (meta_from_bytes data)))"

definition params_match :: "metadata \<Rightarrow> usize \<Rightarrow> usize \<Rightarrow> u64 \<Rightarrow> bytes \<Rightarrow> bool" where
  "params_match m chunk_size num_chunks file_size full_hash \<longleftrightarrow>
     m_chunk_size m = chunk_size \<and> m_num_chunks m = num_chunks \<and> m_file_size m = file_size
     \<and> m_full_hash m = full_hash"

definition verify_part :: "'h blake3 \<Rightarrow> metadata \<Rightarrow> disk \<Rightarrow> usize \<Rightarrow> string \<Rightarrow> string \<Rightarrow> bool" where
  "verify_part B m d index parts_dir filename =
     (case chunk_hashes m index of
        None \<Rightarrow> False
      | Some expected_hash \<Rightarrow>
          (case fs_read d (part_file parts_dir filename index) of
             Ok data \<Rightarrow> b3_hash B data = expected_hash
           | Err e \<Rightarrow> False
           | Panic \<Rightarrow> False))"

fun remove_parts :: "disk \<Rightarrow> string \<Rightarrow> string \<Rightarrow> usize list \<Rightarrow> disk" where
  "remove_parts d parts_dir filename [] = d"
| "remove_parts d parts_dir filename (i # is) =
     remove_parts (fst (fs_remove d (part_file parts_dir filename i))) parts_dir filename is"

definition meta_purge :: "disk \<Rightarrow> string \<Rightarrow> string \<Rightarrow> usize \<Rightarrow> disk" where
  "meta_purge d parts_dir filename num_chunks =
     remove_parts (fst (fs_remove d (meta_file parts_dir filename))) parts_dir filename [0..<num_chunks]"

section \<open>The binary format\<close>

definition meta_wf :: "metadata \<Rightarrow> bool" where
  "meta_wf m \<longleftrightarrow> m_chunk_size m < 2 ^ 32 \<and> m_num_chunks m < 2 ^ 32 \<and> length (m_full_hash m) = 32
     \<and> finite (dom (chunk_hashes m)) \<and> card (dom (chunk_hashes m)) < 2 ^ 32
     \<and> (\<forall>i h. chunk_hashes m i = Some h \<longrightarrow> i < 2 ^ 32 \<and> length h = 32)"

definition valid_entry :: "usize \<times> bytes \<Rightarrow> bool" where
  "valid_entry e \<longleftrightarrow> fst e < 2 ^ 32 \<and> length (snd e) = 32"

definition get_entry :: "bytes \<Rightarrow> usize \<times> bytes" where
  "get_entry bs = (unat (from_be_bytes (take 4 bs) :: u32), drop 4 bs)"

interpretation entry_block: block_codec entry_bytes get_entry ENTRY_SIZE valid_entry
  by unfold_locales
    (auto simp: entry_bytes_def get_entry_def valid_entry_def ENTRY_SIZE_def unat_u32_of_usize)

lemma read_entry_block:
  "read_entry data i = res_map get_entry (read_bytes data (META_HEADER_SIZE + i * ENTRY_SIZE) ENTRY_SIZE)
   \<or> read_entry data i = Panic"
proof (cases "META_HEADER_SIZE + i * ENTRY_SIZE + 36 \<le> length data")
  case True
  then show ?thesis
    by (simp add: read_entry_def Let_def res_simps get_entry_def ENTRY_SIZE_def take_drop)
      (simp add: add.commute drop_take)
next
  case False
  then show ?thesis by (cases "read_entry data i") (auto simp: read_entry_def Let_def read_u32_def read_bytes_def split: if_splits)
qed

lemma ordered_keys_hash_table:
  "finite (dom (chunk_hashes m)) \<Longrightarrow> Mapping.ordered_keys (hash_table m) = sorted_list_of_set (dom (chunk_hashes m))"
  by (simp add: Mapping.ordered_keys_def)

lemma sorted_entries_valid: "meta_wf m \<Longrightarrow> list_all valid_entry (sorted_entries (hash_table m))"
  by (auto simp: list_all_iff sorted_entries_def valid_entry_def meta_wf_def dom_def ordered_keys_hash_table)

lemma insert_entries_map_of: "Mapping.lookup (insert_entries es) = map_of (rev es)"
proof (induction es rule: rev_induct)
  case Nil
  then show ?case by (simp add: insert_entries_def)
next
  case (snoc e es)
  then show ?case by (cases e) (simp add: insert_entries_def)
qed

lemma insert_sorted_entries:
  assumes fin: "finite (dom (chunk_hashes m))"
  shows "insert_entries (sorted_entries (hash_table m)) = hash_table m"
proof -
  let ?es = "sorted_entries (hash_table m)"
  have es: "?es = map (\<lambda>i. (i, the (chunk_hashes m i))) (sorted_list_of_set (dom (chunk_hashes m)))"
    using fin by (simp add: sorted_entries_def ordered_keys_hash_table)
  have d: "distinct (map fst (rev ?es))"
    using fin by (simp add: es rev_map [symmetric] o_def)
  have st: "set ?es = {(i, h). chunk_hashes m i = Some h}"
    using fin by (force simp: es)
  have "map_of (rev ?es) = chunk_hashes m"
    using d st by (intro ext) (metis (mono_tags, lifting) case_prodD case_prodI map_of_SomeD map_of_eq_None_iff
        map_of_is_SomeI mem_Collect_eq not_None_eq set_rev)
  then show ?thesis by (intro hash_table_eqI [symmetric]) (simp add: insert_entries_map_of)
qed

lemma size_hash_table: "Mapping.size (hash_table m) = card (dom (chunk_hashes m))"
  by (simp add: Mapping.size_def)

lemma length_sorted_entries:
  "finite (dom (chunk_hashes m)) \<Longrightarrow> length (sorted_entries (hash_table m)) = card (dom (chunk_hashes m))"
  by (simp add: sorted_entries_def ordered_keys_hash_table)

lemma read_entry_table:
  assumes "list_all valid_entry es" "length pre = META_HEADER_SIZE" "i < length es"
  shows "read_entry (pre @ concat (map entry_bytes es) @ post) i = Ok (es ! i)"
proof -
  let ?d = "pre @ concat (map entry_bytes es) @ post"
  let ?o = "META_HEADER_SIZE + i * ENTRY_SIZE"
  have e: "res_map get_entry (read_bytes ?d ?o ENTRY_SIZE) = Ok (es ! i)"
    using assms by (intro entry_block.read_entry) auto
  then have len: "?o + 36 \<le> length ?d"
    by (auto simp: res_simps read_bytes_def ENTRY_SIZE_def split: if_splits)
  then have "read_entry ?d i \<noteq> Panic"
    by (simp add: read_entry_def Let_def res_simps)
  then show ?thesis using read_entry_block [of ?d i] e by auto
qed

lemma meta_to_bytes_split:
  "\<exists>pre. meta_to_bytes m = pre @ concat (map entry_bytes (sorted_entries (hash_table m)))
     \<and> length pre = 25 + length (m_full_hash m)"
  by (rule exI [of _ "META_MAGIC @ [META_VERSION] @ to_be_bytes (word_of_nat (m_chunk_size m) :: u32)
     @ to_be_bytes (word_of_nat (m_num_chunks m) :: u32) @ to_be_bytes (m_file_size m) @ m_full_hash m
     @ to_be_bytes (word_of_nat (card (dom (chunk_hashes m))) :: u32)"])
    (simp add: meta_to_bytes_def META_MAGIC_def size_hash_table)

lemma meta_roundtrip_junk:
  assumes wf: "meta_wf m"
  shows "meta_from_bytes (meta_to_bytes m @ junk) = Ok m"
proof -
  let ?es = "sorted_entries (hash_table m)"
  let ?data = "meta_to_bytes m @ junk"
  let ?n = "card (dom (chunk_hashes m))"
  have fin: "finite (dom (chunk_hashes m))" and small: "?n < 2 ^ 32"
    and h: "length (m_full_hash m) = 32"
    and c: "m_chunk_size m < 2 ^ 32" and nc: "m_num_chunks m < 2 ^ 32"
    using wf by (auto simp: meta_wf_def)
  have vs: "list_all valid_entry ?es" using wf by (rule sorted_entries_valid)
  have len: "length ?es = ?n" using fin by (rule length_sorted_entries)
  obtain pre where pre: "meta_to_bytes m = pre @ concat (map entry_bytes ?es)"
    and lpre: "length pre = META_HEADER_SIZE"
    using meta_to_bytes_split [of m] h by (auto simp: META_HEADER_SIZE_def)
  have ldata: "length ?data = 57 + ?n * 36 + length junk"
    using pre lpre entry_block.length_table [OF vs] len by (simp add: META_HEADER_SIZE_def ENTRY_SIZE_def)
  have "res_mapM (read_entry ?data) [0..<?n] = Ok (map (\<lambda>i. ?es ! i) [0..<?n])"
    using read_entry_table [OF vs lpre] pre len by (intro res_mapM_all_Ok) simp
  then have tbl: "res_mapM (read_entry ?data) [0..<?n] = Ok ?es"
    using len by (metis map_nth)
  have fields: "read_bytes ?data 0 4 = Ok META_MAGIC" "index_at ?data 4 = Ok META_VERSION"
    "read_u32 ?data 5 = Ok (word_of_nat (m_chunk_size m))"
    "read_u32 ?data 9 = Ok (word_of_nat (m_num_chunks m))"
    "read_u64 ?data 13 = Ok (m_file_size m)" "read_bytes ?data 21 32 = Ok (m_full_hash m)"
    "read_u32 ?data 53 = Ok (word_of_nat ?n)"
    using h ldata by (simp_all add: res_simps index_at_def meta_to_bytes_def META_MAGIC_def META_VERSION_def size_hash_table)
  show ?thesis
    using ldata unfolding meta_from_bytes_def fields
    by (simp add: unat_u32_of_usize [OF small] unat_u32_of_usize [OF c] unat_u32_of_usize [OF nc] tbl
        insert_sorted_entries [OF fin] META_HEADER_SIZE_def ENTRY_SIZE_def)
qed

interpretation meta_codec: codec meta_to_bytes meta_from_bytes meta_wf
  using meta_roundtrip_junk [of _ "[]"] by unfold_locales simp

lemma meta_from_bytes_not_Panic: "meta_from_bytes data \<noteq> Panic"
proof
  assume "meta_from_bytes data = Panic"
  then obtain n where len: "META_HEADER_SIZE + n * ENTRY_SIZE \<le> length data"
    and p: "res_mapM (read_entry data) [0..<n] = Panic"
    by (auto simp: meta_from_bytes_def META_HEADER_SIZE_def res_simps index_at_def Let_def not_less
        split: if_splits)
  have "read_entry data i \<noteq> Panic" if "i < n" for i
  proof -
    have "(i + 1) * ENTRY_SIZE \<le> n * ENTRY_SIZE" using that by (intro mult_le_mono1) simp
    then show ?thesis using len by (auto simp: read_entry_def Let_def res_simps ENTRY_SIZE_def)
  qed
  then show False using p res_mapM_not_Panic [of "[0..<n]" "read_entry data"] by simp
qed

lemma insert_entries_dom: "dom (Mapping.lookup (insert_entries es)) = fst ` set es"
  by (simp add: insert_entries_map_of dom_map_of_conv_image_fst)

lemma insert_entries_ran: "Mapping.lookup (insert_entries es) i = Some h \<Longrightarrow> (i, h) \<in> set es"
  by (metis insert_entries_map_of map_of_SomeD set_rev)

lemma res_mapM_set: "res_mapM f xs = Ok ys \<Longrightarrow> y \<in> set ys \<Longrightarrow> \<exists>x \<in> set xs. f x = Ok y"
  by (induction xs arbitrary: ys) (auto simp: res_simps)

lemma meta_from_bytes_bounds:
  assumes "meta_from_bytes data = Ok m"
  shows "m_chunk_size m < 2 ^ 32" "m_num_chunks m < 2 ^ 32" "length (m_full_hash m) = 32"
    and "finite (dom (chunk_hashes m))"
    and "chunk_hashes m i = Some h \<Longrightarrow> i < 2 ^ 32 \<and> length h = 32"
proof -
  obtain es cs nc fs fh n where es: "res_mapM (read_entry data) [0..<n] = Ok es"
    and fh: "read_bytes data 21 32 = Ok fh"
    and m: "m = \<lparr>m_chunk_size = unat (cs :: u32), m_num_chunks = unat (nc :: u32), m_file_size = fs,
      m_full_hash = fh, hash_table = insert_entries es\<rparr>"
    using assms by (auto simp: meta_from_bytes_def Let_def res_simps split: if_splits)
  show "m_chunk_size m < 2 ^ 32" "m_num_chunks m < 2 ^ 32"
    unfolding m by (simp_all only: metadata.simps unat_u32_less)
  show "length (m_full_hash m) = 32" using fh m by (auto dest: read_bytes_length)
  show "finite (dom (chunk_hashes m))" using m by (simp add: insert_entries_dom)
  show "i < 2 ^ 32 \<and> length h = 32" if "chunk_hashes m i = Some h"
  proof -
    from that m have "(i, h) \<in> set es" by (simp add: insert_entries_ran)
    then obtain j where "read_entry data j = Ok (i, h)" using res_mapM_set [OF es] by blast
    then obtain w :: u32 where "i = unat w" "length h = 32"
      by (auto simp: read_entry_def Let_def res_simps dest: read_bytes_length)
    then show ?thesis using unat_u32_less by simp
  qed
qed

section \<open>Persistence\<close>

lemma meta_save_outcome:
  assumes "plain_name f" "meta_save m d dir f = (d', r)"
  shows "r = Ok () \<longrightarrow> files d' (meta_file dir f) = Some (meta_to_bytes m)"
    and "r \<noteq> Ok () \<longrightarrow> files d' (meta_file dir f) = files d (meta_file dir f)"
    and "\<And>q. q \<noteq> meta_file dir f \<Longrightarrow> q \<noteq> tmp_file dir f \<Longrightarrow> files d' q = files d q"
    and "r \<noteq> Panic" and "same_faults d d'"
proof -
  let ?p = "meta_file dir f" and ?t = "tmp_file dir f" and ?bs = "meta_to_bytes m"
  have ne: "?t \<noteq> ?p" using assms(1) by (simp add: transfer_files)
  obtain d1 r1 where w: "fs_write d ?t ?bs = (d1, r1)" by (cases "fs_write d ?t ?bs")
  obtain d2 r2 where rn: "fs_rename d1 ?t ?p = (d2, r2)" by (cases "fs_rename d1 ?t ?p")
  note at = store.replace_atomic [OF ne w rn]
  have r1: "r1 \<noteq> Panic" using fs_write_not_Panic [of d ?t ?bs] w by simp
  have r2: "r2 \<noteq> Panic" using fs_rename_cases [of d1 ?t ?p] rn by auto
  have sv: "meta_save m d dir f =
      (case r1 of Ok _ \<Rightarrow> (case r2 of Ok _ \<Rightarrow> (d2, Ok ()) | Err e \<Rightarrow> (fst (fs_remove d2 ?t), Err e) | Panic \<Rightarrow> (d2, Panic))
        | Err e \<Rightarrow> (d1, Err e) | Panic \<Rightarrow> (d1, Panic))"
    using w rn by (cases r1) (simp_all add: meta_save_def Let_def)
  show "r = Ok () \<longrightarrow> files d' ?p = Some ?bs" "r \<noteq> Ok () \<longrightarrow> files d' ?p = files d ?p"
    "r \<noteq> Panic"
    using assms(2) sv at r1 r2 by (auto split: res.splits)
  show "files d' q = files d q" if "q \<noteq> ?p" "q \<noteq> ?t" for q
    using assms(2) sv at(4) [of q] at(5) [of q] r1 r2 that by (auto split: res.splits)
  have "same_faults d d1" "same_faults d1 d2" "same_faults d2 (fst (fs_remove d2 ?t))"
    using fs_ops_same_faults(3) [of d ?t ?bs] fs_ops_same_faults(4) [of d1 ?t ?p] w rn by simp_all
  then show "same_faults d d'"
    using assms(2) sv by (auto split: res.splits intro: same_faults_trans)
qed

lemma meta_save_healthy:
  assumes "plain_name f" "healthy d (tmp_file dir f)"
  shows "\<exists>d'. meta_save m d dir f = (d', Ok ())"
  using assms by (simp add: meta_save_def fs_write_healthy fs_rename_def healthy_def Let_def)

lemma meta_load_saved:
  assumes "meta_wf m" "files d (meta_file dir f) = Some (meta_to_bytes m)" "healthy d (meta_file dir f)"
  shows "meta_load d dir f = Ok (Some m)"
  using assms meta_codec.dec_enc [OF assms(1)]
  by (simp add: meta_load_def path_exists_def fs_read_def file_open_def healthy_def contents_def)

lemma meta_load_not_Panic: "meta_load d dir f \<noteq> Panic"
  by (auto simp: meta_load_def Let_def res_simps fs_read_def file_open_def meta_from_bytes_not_Panic split: if_splits)

lemma verify_part_healthy:
  "healthy d (part_file dir f i) \<Longrightarrow>
     verify_part B m d i dir f \<longleftrightarrow>
       (\<exists>bs. files d (part_file dir f i) = Some bs \<and> chunk_hashes m i = Some (b3_hash B bs))"
  by (auto simp: verify_part_def fs_read_def file_open_def healthy_def contents_def split: option.splits)

lemma verify_part_sound:
  "verify_part B m d i dir f \<Longrightarrow>
     \<exists>bs. files d (part_file dir f i) = Some bs \<and> chunk_hashes m i = Some (b3_hash B bs)"
  by (auto simp: verify_part_def fs_read_def file_open_def contents_def split: option.splits res.splits if_splits)

lemma remove_parts_other:
  "(\<And>i. i \<in> set is \<Longrightarrow> q \<noteq> part_file dir f i) \<Longrightarrow> files (remove_parts d dir f is) q = files d q"
  by (induction "is" arbitrary: d) (auto simp: fs_remove_frame)

lemma remove_parts_subset: "files (remove_parts d dir f is) q \<in> {files d q, None}"
proof (induction "is" arbitrary: d)
  case Nil
  then show ?case by simp
next
  case (Cons i js)
  show ?case
    using Cons.IH [of "fst (fs_remove d (part_file dir f i))"] fs_remove_cases [of d "part_file dir f i"]
    by (auto split: if_splits)
qed

lemma remove_parts_same_faults: "same_faults d (remove_parts d dir f is)"
  by (induction "is" arbitrary: d) (auto intro: same_faults_trans [OF fs_ops_same_faults(5)])

lemma remove_parts_gone:
  assumes "\<And>j. healthy d (part_file dir f j)" "i \<in> set is"
  shows "files (remove_parts d dir f is) (part_file dir f i) = None"
  using assms
proof (induction "is" arbitrary: d)
  case Nil
  then show ?case by simp
next
  case (Cons j js)
  let ?d = "fst (fs_remove d (part_file dir f j))"
  have h: "healthy ?d (part_file dir f k)" for k
    using Cons.prems(1) same_faults_healthy [OF fs_ops_same_faults(5)] by blast
  show ?case
  proof (cases "i \<in> set js")
    case True
    then show ?thesis using Cons.IH [of ?d] h by simp
  next
    case False
    then have "i = j" using Cons.prems(2) by simp
    then have "files ?d (part_file dir f i) = None"
      using Cons.prems(1) by (simp add: fs_remove_healthy)
    then show ?thesis using remove_parts_subset [of ?d dir f js "part_file dir f i"] by auto
  qed
qed

lemma meta_purge_subset: "files (meta_purge d dir f n) q \<in> {files d q, None}"
  using remove_parts_subset [of "fst (fs_remove d (meta_file dir f))" dir f "[0..<n]" q]
    fs_remove_cases [of d "meta_file dir f"]
  by (auto simp: meta_purge_def split: if_splits)

lemma meta_purge_other:
  "q \<noteq> meta_file dir f \<Longrightarrow> (\<And>i. i < n \<Longrightarrow> q \<noteq> part_file dir f i) \<Longrightarrow>
     files (meta_purge d dir f n) q = files d q"
  unfolding meta_purge_def by (subst remove_parts_other) (simp_all add: fs_remove_frame)

lemma meta_purge_same_faults: "same_faults d (meta_purge d dir f n)"
  unfolding meta_purge_def by (rule same_faults_trans [OF _ remove_parts_same_faults]) simp

lemma meta_purge_clears:
  assumes "plain_name f" "\<And>p. healthy d p"
  shows "files (meta_purge d dir f n) (meta_file dir f) = None"
    and "i < n \<Longrightarrow> files (meta_purge d dir f n) (part_file dir f i) = None"
proof -
  let ?d = "fst (fs_remove d (meta_file dir f))"
  have "files ?d (meta_file dir f) = None" using assms(2) by (simp add: fs_remove_healthy)
  then show "files (meta_purge d dir f n) (meta_file dir f) = None"
    using remove_parts_subset [of ?d dir f "[0..<n]" "meta_file dir f"] by (auto simp: meta_purge_def)
  have "healthy ?d p" for p
    using assms(2) same_faults_healthy [OF fs_ops_same_faults(5)] by blast
  then show "i < n \<Longrightarrow> files (meta_purge d dir f n) (part_file dir f i) = None"
    by (simp add: meta_purge_def remove_parts_gone)
qed

section \<open>Properties\<close>

text \<open>Data for the witnesses.\<close>

definition ex_meta :: metadata where
  "ex_meta = add_chunk (meta_new 2 2 3 (replicate 32 7)) 1 (replicate 32 9)"

lemma ex_meta_hashes: "chunk_hashes ex_meta = [1 \<mapsto> replicate 32 9]"
  by (simp add: ex_meta_def add_chunk_def meta_new_def)

lemma ex_meta_wf: "meta_wf ex_meta"
  by (simp add: meta_wf_def ex_meta_hashes) (simp add: ex_meta_def add_chunk_def meta_new_def)

text \<open>C32: Transfer metadata survives its binary format, whatever follows it in the file: a well-formed
  record with any set of chunk hashes is decoded to itself.\<close>

theorem metadata_roundtrip: "meta_wf m \<Longrightarrow> meta_from_bytes (meta_to_bytes m @ junk) = Ok m"
  by (rule meta_roundtrip_junk)

lemma metadata_roundtrip_witness: "meta_from_bytes (meta_to_bytes ex_meta @ [1, 2, 3]) = Ok ex_meta"
  by (rule metadata_roundtrip [OF ex_meta_wf])

text \<open>C38: Decoding any bytes as metadata never panics, and what is decoded is bounded: sizes and indices
  fit 32 bits, every hash has 32 bytes.\<close>

theorem metadata_decoding_total:
  "meta_from_bytes data \<noteq> Panic \<and>
   (\<forall>m. meta_from_bytes data = Ok m \<longrightarrow> m_chunk_size m < 2 ^ 32 \<and> m_num_chunks m < 2 ^ 32 \<and>
      length (m_full_hash m) = 32 \<and> finite (dom (chunk_hashes m)) \<and>
      (\<forall>i h. chunk_hashes m i = Some h \<longrightarrow> i < 2 ^ 32 \<and> length h = 32))"
  using meta_from_bytes_not_Panic meta_from_bytes_bounds by blast

lemma metadata_decoding_total_witness: "m_chunk_size ex_meta < 2 ^ 32 \<and> length (m_full_hash ex_meta) = 32"
proof -
  have "meta_from_bytes (meta_to_bytes ex_meta) = Ok ex_meta" by (rule meta_codec.dec_enc [OF ex_meta_wf])
  then show ?thesis using metadata_decoding_total [of "meta_to_bytes ex_meta"] by simp
qed

text \<open>C14: Saving metadata is atomic under every failure the disk model has (create, write without room,
  rename, remove): after a success the metadata file is the new version, after an error it is what it
  was before, no other file but the temporary one changes, and a later load of the saved version on a
  readable file gives back the record.\<close>

theorem metadata_save_atomic:
  assumes "plain_name f" "meta_save m d dir f = (d', r)"
  shows "(r = Ok () \<longrightarrow> files d' (meta_file dir f) = Some (meta_to_bytes m)
            \<and> (meta_wf m \<longrightarrow> healthy d (meta_file dir f) \<longrightarrow> meta_load d' dir f = Ok (Some m)))
    \<and> (r \<noteq> Ok () \<longrightarrow> files d' (meta_file dir f) = files d (meta_file dir f))
    \<and> (\<forall>q. q \<noteq> meta_file dir f \<longrightarrow> q \<noteq> tmp_file dir f \<longrightarrow> files d' q = files d q) \<and> r \<noteq> Panic"
proof (intro conjI impI allI)
  note out = meta_save_outcome [OF assms]
  show saved: "r = Ok () \<Longrightarrow> files d' (meta_file dir f) = Some (meta_to_bytes m)" using out(1) by simp
  show "meta_load d' dir f = Ok (Some m)" if "r = Ok ()" "meta_wf m" "healthy d (meta_file dir f)"
    using meta_load_saved [OF that(2) saved [OF that(1)]] that(3) same_faults_healthy [OF out(5)] by blast
qed (use meta_save_outcome [OF assms] in blast)+

lemma metadata_save_atomic_witness:
  "files (fst (meta_save ex_meta empty_disk ''p'' ''f'')) (meta_file ''p'' ''f'') = Some (meta_to_bytes ex_meta)"
proof -
  have n: "plain_name ''f''" by code_simp
  obtain d' where s: "meta_save ex_meta empty_disk ''p'' ''f'' = (d', Ok ())"
    using meta_save_healthy [OF n empty_disk_healthy(2)] by blast
  show ?thesis using metadata_save_atomic [OF n s] s by simp
qed

end
