(* ===== verification/File_Receiver.thy ===== *)
theory File_Receiver
  imports Metadata
begin

text \<open>
  The state of one incoming transfer (\<open>src/server/file_receiver.rs\<close>): which chunks are received,
  the metadata, recording a chunk, loading or purging the state a previous transfer left on disk,
  and assembling the final file from the \<open>.part\<close> files.
\<close>

section \<open>The receiver and its operations\<close>

record receiver =
  r_filename :: string
  r_file_size :: u64
  r_chunk_size :: usize
  r_num_chunks :: usize
  r_full_hash :: bytes
  r_output_dir :: string
  r_parts_dir :: string
  received_chunks :: "bool list"
  r_failed :: bool
  r_metadata :: metadata

definition receiver_new ::
  "string \<Rightarrow> u64 \<Rightarrow> usize \<Rightarrow> usize \<Rightarrow> bytes \<Rightarrow> string \<Rightarrow> string \<Rightarrow> receiver" where
  "receiver_new filename file_size chunk_size num_chunks full_hash output_dir parts_dir =
     \<lparr>r_filename = filename, r_file_size = file_size, r_chunk_size = chunk_size,
      r_num_chunks = num_chunks, r_full_hash = full_hash, r_output_dir = output_dir,
      r_parts_dir = parts_dir, received_chunks = replicate num_chunks False, r_failed = False,
      r_metadata = meta_new chunk_size num_chunks file_size full_hash\<rparr>"

definition receiver_part_path :: "receiver \<Rightarrow> usize \<Rightarrow> string" where
  "receiver_part_path rc index = part_path (r_parts_dir rc) (r_filename rc) index"

definition final_path :: "receiver \<Rightarrow> string" where
  "final_path rc = r_output_dir rc @ ''/'' @ r_filename rc"

definition is_complete :: "receiver \<Rightarrow> bool" where
  "is_complete rc \<longleftrightarrow> list_all (\<lambda>c. c) (received_chunks rc)"

definition record_chunk :: "receiver \<Rightarrow> disk \<Rightarrow> usize \<Rightarrow> bytes \<Rightarrow> (receiver \<times> disk) \<times> unit res" where
  "record_chunk rc d index hash =
     (case set_at (received_chunks rc) index True of
        Ok flags \<Rightarrow>
          let rc' = rc\<lparr>received_chunks := flags, r_metadata := add_chunk (r_metadata rc) index hash\<rparr>
          in (case meta_save (r_metadata rc') d (r_parts_dir rc') (r_filename rc') of
                (d', r) \<Rightarrow> ((rc', d'), r))
      | Err e \<Rightarrow> ((rc, d), Err e)
      | Panic \<Rightarrow> ((rc, d), Panic))"

text \<open>The loop over the stored indices: which verify, and the disk without the corrupt parts.\<close>

fun check_parts :: "'h blake3 \<Rightarrow> receiver \<Rightarrow> metadata \<Rightarrow> disk \<Rightarrow> usize list \<Rightarrow> disk \<times> usize list \<times> nat" where
  "check_parts B rc m d [] = (d, [], 0)"
| "check_parts B rc m d (idx # rest) =
     (if verify_part B m d idx (r_parts_dir rc) (r_filename rc) then
        (case check_parts B rc m d rest of (d', valid, corrupt) \<Rightarrow> (d', idx # valid, corrupt))
      else
        (case check_parts B rc m (fst (fs_remove d (path_of (receiver_part_path rc idx)))) rest of
           (d', valid, corrupt) \<Rightarrow> (d', valid, Suc corrupt)))"

definition clean_metadata :: "receiver \<Rightarrow> metadata \<Rightarrow> usize list \<Rightarrow> metadata" where
  "clean_metadata rc m valid =
     foldl (\<lambda>cm idx. add_chunk cm idx (the (chunk_hashes m idx)))
       (meta_new (r_chunk_size rc) (r_num_chunks rc) (r_file_size rc) (r_full_hash rc)) valid"

definition load_or_purge_metadata :: "'h blake3 \<Rightarrow> receiver \<Rightarrow> disk \<Rightarrow> disk \<times> metadata option res" where
  "load_or_purge_metadata B rc d =
     (let dir = r_parts_dir rc; f = r_filename rc; purged = meta_purge d dir f (r_num_chunks rc) in
      case meta_load d dir f of
        Ok None \<Rightarrow> (d, Ok None)
      | Err e \<Rightarrow> (purged, Ok None)
      | Panic \<Rightarrow> (d, Panic)
      | Ok (Some m) \<Rightarrow>
          if \<not> params_match m (r_chunk_size rc) (r_num_chunks rc) (r_file_size rc) (r_full_hash rc)
          then (purged, Ok None)
          else
            (case check_parts B rc m d (Mapping.ordered_keys (hash_table m)) of
               (d', valid, corrupt) \<Rightarrow>
                 if corrupt > 0 then
                   (if valid = [] then (meta_purge d' dir f (r_num_chunks rc), Ok None)
                    else
                      let cm = clean_metadata rc m valid
                      in (fst (meta_save cm d' dir f), Ok (Some cm)))
                 else (d', Ok (Some m))))"

definition purge_parts :: "receiver \<Rightarrow> disk \<Rightarrow> disk" where
  "purge_parts rc d =
     fst (fs_remove (remove_parts d (r_parts_dir rc) (r_filename rc) [0..<r_num_chunks rc])
       (meta_file (r_parts_dir rc) (r_filename rc)))"

text \<open>
  Copying one part into the output file. The part is read as it was when opened (\<open>d0\<close>): the output
  is another file (\<open>final_file_distinct\<close>), so the copy does not change it.
\<close>

function copy_loop ::
  "'h blake3 \<Rightarrow> disk \<Rightarrow> path \<Rightarrow> nat \<Rightarrow> path \<Rightarrow> disk \<Rightarrow> 'h \<Rightarrow> disk \<times> 'h res" where
  "copy_loop B d0 part pos out d hasher =
     (case file_read_at d0 part pos BUFFER_SIZE of
        Ok buf \<Rightarrow>
          if buf = [] then (d, Ok hasher)
          else st_bind (file_append d out buf) (\<lambda>d _.
                 copy_loop B d0 part (pos + length buf) out d (b3_update B hasher buf))
      | Err e \<Rightarrow> (d, Err e)
      | Panic \<Rightarrow> (d, Panic))"
  by pat_completeness auto
termination
  by (relation "measure (\<lambda>(B, d0, part, pos, out, d, h). length (contents d0 part) - pos)")
    (auto intro: read_advances)

declare copy_loop.simps [simp del]

definition join_part :: "receiver \<Rightarrow> usize \<Rightarrow> path" where
  "join_part rc i = path_of (path_join (r_parts_dir rc) (r_filename rc @ ''.part'' @ decimal i))"

text \<open>The loop over the parts; \<open>None\<close> is the early return for a missing part.\<close>

fun assemble_parts ::
  "'h blake3 \<Rightarrow> receiver \<Rightarrow> path \<Rightarrow> disk \<Rightarrow> 'h \<Rightarrow> usize list \<Rightarrow> disk \<times> 'h option res" where
  "assemble_parts B rc out d hasher [] = (d, Ok (Some hasher))"
| "assemble_parts B rc out d hasher (i # rest) =
     (let part = join_part rc i in
      if \<not> path_exists d part then (d, Ok None)
      else st_bind (d, file_open d part) (\<lambda>d _.
           st_bind (copy_loop B d part 0 out d hasher) (\<lambda>d hasher.
           st_bind (fs_remove d part) (\<lambda>d _.
           assemble_parts B rc out d hasher rest))))"

definition assemble :: "'h blake3 \<Rightarrow> receiver \<Rightarrow> disk \<Rightarrow> disk \<times> bool res" where
  "assemble B rc d =
     (let out = path_of (path_join (r_output_dir rc) (r_filename rc)) in
      st_bind (file_create d out) (\<lambda>d _.
      st_bind (assemble_parts B rc out d (b3_new B) [0..<r_num_chunks rc]) (\<lambda>d r.
        case r of
          None \<Rightarrow> (d, Ok False)
        | Some hasher \<Rightarrow>
            (fst (fs_remove d (meta_file (r_parts_dir rc) (r_filename rc))),
             Ok (b3_finalize B hasher = r_full_hash rc)))))"

section \<open>Well-formed receivers\<close>

definition dirs_ok :: "receiver \<Rightarrow> bool" where
  "dirs_ok rc \<longleftrightarrow> plain_name (r_filename rc) \<and> r_output_dir rc \<noteq> [] \<and> r_parts_dir rc \<noteq> []"

definition receiver_part :: "receiver \<Rightarrow> usize \<Rightarrow> path" where
  "receiver_part rc i = part_file (r_parts_dir rc) (r_filename rc) i"

definition receiver_meta :: "receiver \<Rightarrow> path" where
  "receiver_meta rc = meta_file (r_parts_dir rc) (r_filename rc)"

definition receiver_final :: "receiver \<Rightarrow> path" where
  "receiver_final rc = path_of (final_path rc)"

text \<open>The shape every operation keeps: one flag per chunk, the metadata of the same transfer,
  a hash for exactly the received chunks.\<close>

definition receiver_wf :: "receiver \<Rightarrow> bool" where
  "receiver_wf rc \<longleftrightarrow> length (received_chunks rc) = r_num_chunks rc
     \<and> params_match (r_metadata rc) (r_chunk_size rc) (r_num_chunks rc) (r_file_size rc) (r_full_hash rc)
     \<and> dom (chunk_hashes (r_metadata rc)) = {i. i < r_num_chunks rc \<and> received_chunks rc ! i}
     \<and> r_chunk_size rc < 2 ^ 32 \<and> r_num_chunks rc < 2 ^ 32 \<and> length (r_full_hash rc) = 32
     \<and> (\<forall>i h. chunk_hashes (r_metadata rc) i = Some h \<longrightarrow> length h = 32)"

text \<open>What resuming relies on: a received chunk's part file is on disk and has the stored hash.\<close>

definition parts_match :: "'h blake3 \<Rightarrow> receiver \<Rightarrow> disk \<Rightarrow> bool" where
  "parts_match B rc d \<longleftrightarrow>
     (\<forall>i h. chunk_hashes (r_metadata rc) i = Some h \<longrightarrow>
        (\<exists>bs. files d (receiver_part rc i) = Some bs \<and> b3_hash B bs = h))"

lemma receiver_paths:
  "path_of (receiver_part_path rc i) = receiver_part rc i"
  "part_file (r_parts_dir rc) (r_filename rc) i = receiver_part rc i"
  "meta_file (r_parts_dir rc) (r_filename rc) = receiver_meta rc"
  by (simp_all add: receiver_part_path_def receiver_part_def part_file_def receiver_meta_def)

lemma join_part_eq: "dirs_ok rc \<Longrightarrow> join_part rc i = receiver_part rc i"
  using path_join_same [OF plain_part_name [of "r_filename rc" i], of "r_parts_dir rc"]
  by (simp add: dirs_ok_def join_part_def receiver_part_def part_file_def part_path_def)

lemma join_final_eq:
  "dirs_ok rc \<Longrightarrow> path_of (path_join (r_output_dir rc) (r_filename rc)) = receiver_final rc"
  using path_join_same [of "r_filename rc" "r_output_dir rc"]
  by (simp add: dirs_ok_def receiver_final_def final_path_def)

lemma receiver_files_distinct [transfer_files]:
  assumes "dirs_ok rc"
  shows "receiver_part rc i = receiver_part rc j \<longleftrightarrow> i = j"
    "receiver_part rc i \<noteq> receiver_meta rc" "receiver_meta rc \<noteq> receiver_part rc i"
    "receiver_part rc i \<noteq> receiver_final rc" "receiver_final rc \<noteq> receiver_part rc i"
    "receiver_meta rc \<noteq> receiver_final rc" "receiver_final rc \<noteq> receiver_meta rc"
    "receiver_part rc i \<noteq> tmp_file (r_parts_dir rc) (r_filename rc)"
    "receiver_final rc \<noteq> tmp_file (r_parts_dir rc) (r_filename rc)"
  using assms transfer_files_distinct [of "r_filename rc"] final_file_distinct [of "r_filename rc"]
  by (auto simp: dirs_ok_def receiver_part_def receiver_meta_def receiver_final_def final_path_def)

lemma receiver_wf_meta_wf: "receiver_wf rc \<Longrightarrow> meta_wf (r_metadata rc)"
proof -
  assume wf: "receiver_wf rc"
  let ?D = "dom (chunk_hashes (r_metadata rc))"
  have sub: "?D \<subseteq> {..<r_num_chunks rc}" using wf by (auto simp: receiver_wf_def)
  then have "finite ?D" "card ?D \<le> r_num_chunks rc"
    using finite_subset card_mono [OF finite_lessThan sub] by auto
  moreover have "i < 2 ^ 32" if "chunk_hashes (r_metadata rc) i = Some h" for i h
  proof -
    have "i < r_num_chunks rc" using that sub by auto
    then show ?thesis using wf unfolding receiver_wf_def by (meson less_trans)
  qed
  moreover have "card ?D < 2 ^ 32"
    using \<open>card ?D \<le> r_num_chunks rc\<close> wf unfolding receiver_wf_def by (meson le_less_trans)
  ultimately show ?thesis
    using wf by (auto simp: receiver_wf_def meta_wf_def params_match_def)
qed

lemma receiver_new_wf:
  "chunk_size < 2 ^ 32 \<Longrightarrow> num_chunks < 2 ^ 32 \<Longrightarrow> length full_hash = 32 \<Longrightarrow>
     receiver_wf (receiver_new f file_size chunk_size num_chunks full_hash out parts)"
  by (auto simp: receiver_wf_def receiver_new_def meta_new_def params_match_def)

lemma is_complete_iff: "receiver_wf rc \<Longrightarrow> is_complete rc \<longleftrightarrow> (\<forall>i < r_num_chunks rc. received_chunks rc ! i)"
  by (simp add: is_complete_def list_all_length receiver_wf_def)

section \<open>Recording a chunk\<close>

lemma record_chunk_Panic: "snd (record_chunk rc d i h) = Panic \<longleftrightarrow> length (received_chunks rc) \<le> i"
  if "plain_name (r_filename rc)"
proof (cases "i < length (received_chunks rc)")
  case True
  then show ?thesis
    using meta_save_outcome(4) [OF that]
    by (auto simp: record_chunk_def set_at_def Let_def split: prod.splits)
next
  case False
  then show ?thesis by (simp add: record_chunk_def set_at_def)
qed

definition recorded :: "receiver \<Rightarrow> usize \<Rightarrow> bytes \<Rightarrow> receiver" where
  "recorded rc i h =
     rc\<lparr>received_chunks := (received_chunks rc)[i := True], r_metadata := add_chunk (r_metadata rc) i h\<rparr>"

lemma record_chunk_state:
  assumes "record_chunk rc d i h = ((rc', d'), r)" "i < length (received_chunks rc)"
  shows "rc' = recorded rc i h"
    and "meta_save (r_metadata rc') d (r_parts_dir rc) (r_filename rc) = (d', r)"
  using assms by (auto simp: record_chunk_def recorded_def set_at_def Let_def split: prod.splits)

lemma recorded_wf:
  assumes "receiver_wf rc" "i < r_num_chunks rc" "length h = 32"
  shows "receiver_wf (recorded rc i h)"
proof -
  have "{j. j < r_num_chunks rc \<and> (received_chunks rc)[i := True] ! j}
      = insert i {j. j < r_num_chunks rc \<and> received_chunks rc ! j}"
    using assms by (auto simp: nth_list_update receiver_wf_def)
  then show ?thesis
    using assms by (auto simp: receiver_wf_def recorded_def add_chunk_def params_match_def)
qed

section \<open>Loading the state of a previous transfer\<close>

lemma verify_part_cong:
  assumes "same_faults d e" "files e (part_file dir f i) = files d (part_file dir f i)"
  shows "verify_part B m e i dir f = verify_part B m d i dir f"
  using assms by (cases d; cases e)
    (auto simp: verify_part_def fs_read_def file_open_def contents_def same_faults_def split: option.splits)

lemma check_parts_result:
  assumes "dirs_ok rc" "distinct is" "check_parts B rc m d is = (d', valid, corrupt)"
  shows "valid = filter (\<lambda>i. verify_part B m d i (r_parts_dir rc) (r_filename rc)) is
    \<and> corrupt + length valid = length is
    \<and> (\<forall>q. q \<notin> receiver_part rc ` (set is - set valid) \<longrightarrow> files d' q = files d q) \<and> same_faults d d'"
  using assms(2,3)
proof (induction "is" arbitrary: d d' valid corrupt)
  case Nil
  then show ?case by simp
next
  case (Cons i js)
  show ?case
  proof (cases "verify_part B m d i (r_parts_dir rc) (r_filename rc)")
    case True
    then obtain v where "check_parts B rc m d js = (d', v, corrupt)" "valid = i # v"
      using Cons.prems(2) by (auto split: prod.splits)
    with Cons.IH [of d d' v corrupt] Cons.prems True show ?thesis by auto
  next
    case False
    let ?d = "fst (fs_remove d (receiver_part rc i))"
    obtain c where c: "check_parts B rc m ?d js = (d', valid, c)" "corrupt = Suc c"
      using Cons.prems(2) False by (auto simp: receiver_paths split: prod.splits)
    have "distinct js" using Cons.prems(1) by simp
    from Cons.IH [OF this c(1)]
    have IH: "valid = filter (\<lambda>j. verify_part B m ?d j (r_parts_dir rc) (r_filename rc)) js"
      "c + length valid = length js" "same_faults ?d d'"
      "\<And>q. q \<notin> receiver_part rc ` (set js - set valid) \<Longrightarrow> files d' q = files ?d q"
      by blast+
    have "verify_part B m ?d j (r_parts_dir rc) (r_filename rc)
        = verify_part B m d j (r_parts_dir rc) (r_filename rc)" if "j \<in> set js" for j
    proof -
      have "j \<noteq> i" using that Cons.prems(1) by auto
      then have "receiver_part rc j \<noteq> receiver_part rc i" using assms(1) by (simp add: transfer_files)
      then show ?thesis by (intro verify_part_cong) (simp_all add: fs_remove_frame receiver_paths)
    qed
    then have "valid = filter (\<lambda>j. verify_part B m d j (r_parts_dir rc) (r_filename rc)) js"
      using IH(1) by (auto intro: filter_cong)
    moreover have "files d' q = files d q" if "q \<notin> receiver_part rc ` (set (i # js) - set valid)" for q
    proof -
      have "i \<notin> set valid" using IH(1) Cons.prems(1) by auto
      then have "q \<noteq> receiver_part rc i" "q \<notin> receiver_part rc ` (set js - set valid)"
        using that by auto
      then show ?thesis using IH(4) by (simp add: fs_remove_frame)
    qed
    moreover have "same_faults d d'" using IH(3) same_faults_trans [OF fs_ops_same_faults(5)] by blast
    ultimately show ?thesis using IH(2) c(2) False by (simp del: split_paired_All)
  qed
qed

lemma foldl_add_chunk_hashes:
  "chunk_hashes (foldl (\<lambda>cm idx. add_chunk cm idx (g idx)) c vs)
     = chunk_hashes c ++ (\<lambda>i. if i \<in> set vs then Some (g i) else None)"
  by (induction vs arbitrary: c) (auto simp: add_chunk_def map_add_def fun_eq_iff)

lemma foldl_add_chunk_params:
  "params_match (foldl (\<lambda>cm idx. add_chunk cm idx (g idx)) c vs) a b e f = params_match c a b e f"
  by (induction vs arbitrary: c) (simp_all add: add_chunk_def params_match_def)

lemma clean_metadata_params:
  "params_match (clean_metadata rc m valid) (r_chunk_size rc) (r_num_chunks rc) (r_file_size rc) (r_full_hash rc)"
  by (simp add: clean_metadata_def foldl_add_chunk_params) (simp add: params_match_def meta_new_def)

lemma clean_metadata_hashes:
  "set valid \<subseteq> dom (chunk_hashes m) \<Longrightarrow>
     chunk_hashes (clean_metadata rc m valid) = (chunk_hashes m) |` set valid"
  by (auto simp: clean_metadata_def foldl_add_chunk_hashes meta_new_def restrict_map_def fun_eq_iff)

lemma load_or_purge_not_Panic: "snd (load_or_purge_metadata B rc d) \<noteq> Panic"
  by (auto simp: load_or_purge_metadata_def Let_def meta_load_not_Panic split: res.splits option.splits prod.splits)

text \<open>
  A load that returns metadata has read stored metadata of the same transfer, and returns its
  restriction to the parts that verified; the corrupt parts' files are removed, no other part is.
\<close>

lemma load_or_purge_Some:
  assumes ok: "dirs_ok rc" and load: "load_or_purge_metadata B rc d = (d', Ok (Some m))"
  obtains stored V where "meta_load d (r_parts_dir rc) (r_filename rc) = Ok (Some stored)"
    and "V = {i \<in> dom (chunk_hashes stored). verify_part B stored d i (r_parts_dir rc) (r_filename rc)}"
    and "chunk_hashes m = (chunk_hashes stored) |` V"
    and "params_match stored (r_chunk_size rc) (r_num_chunks rc) (r_file_size rc) (r_full_hash rc)"
    and "params_match m (r_chunk_size rc) (r_num_chunks rc) (r_file_size rc) (r_full_hash rc)"
    and "\<And>i. i \<in> V \<Longrightarrow> files d' (receiver_part rc i) = files d (receiver_part rc i)"
    and "same_faults d d'"
proof -
  let ?dir = "r_parts_dir rc" and ?f = "r_filename rc"
  obtain stored where st: "meta_load d ?dir ?f = Ok (Some stored)"
    and pm: "params_match stored (r_chunk_size rc) (r_num_chunks rc) (r_file_size rc) (r_full_hash rc)"
    using load by (auto simp: load_or_purge_metadata_def Let_def split: res.splits option.splits if_splits)
  let ?D = "dom (chunk_hashes stored)"
  let ?V = "{i \<in> ?D. verify_part B stored d i ?dir ?f}"
  have fin: "finite ?D" using st meta_from_bytes_bounds(4)
    by (auto simp: meta_load_def Let_def res_simps split: if_splits)
  obtain d1 valid corrupt where cp: "check_parts B rc stored d (Mapping.ordered_keys (hash_table stored)) = (d1, valid, corrupt)"
    by (cases "check_parts B rc stored d (Mapping.ordered_keys (hash_table stored))") auto
  have valid: "set valid = ?V" and count: "corrupt + length valid = card ?D"
    and d1: "\<And>q. q \<notin> receiver_part rc ` (?D - set valid) \<Longrightarrow> files d1 q = files d q" "same_faults d d1"
    and len: "length valid = card ?V"
    using check_parts_result [OF ok distinct_ordered_keys cp] fin
    by (auto simp: distinct_card [symmetric] ordered_keys_hash_table simp del: split_paired_All)
  let ?cm = "clean_metadata rc stored valid"
  have res: "(if corrupt > 0 then (fst (meta_save ?cm d1 ?dir ?f), ?cm) else (d1, stored)) = (d', m)"
    using load st pm cp by (auto simp: load_or_purge_metadata_def Let_def split: if_splits)
  have "corrupt = 0 \<Longrightarrow> ?V = ?D"
    using count len fin by (intro card_subset_eq) auto
  then have hashes: "chunk_hashes m = (chunk_hashes stored) |` ?V"
    using res clean_metadata_hashes [of valid stored rc] valid
    by (auto split: if_splits simp: restrict_map_def fun_eq_iff)
  obtain d2 r where sv: "meta_save ?cm d1 ?dir ?f = (d2, r)" by (cases "meta_save ?cm d1 ?dir ?f")
  have "plain_name ?f" using ok by (simp add: dirs_ok_def)
  note out = meta_save_outcome [OF this sv]
  have "files d' (receiver_part rc i) = files d (receiver_part rc i)" if "i \<in> ?V" for i
  proof -
    have "files d1 (receiver_part rc i) = files d (receiver_part rc i)"
      using that ok valid by (intro d1) (auto simp: transfer_files)
    moreover have "files d2 (receiver_part rc i) = files d1 (receiver_part rc i)"
      using out(3) ok by (simp add: transfer_files receiver_paths)
    ultimately show ?thesis using res sv by (auto split: if_splits)
  qed
  moreover have "same_faults d d'"
    using res sv d1(2) out(5) by (auto split: if_splits intro: same_faults_trans)
  moreover have "params_match m (r_chunk_size rc) (r_num_chunks rc) (r_file_size rc) (r_full_hash rc)"
    using res pm clean_metadata_params by (auto split: if_splits)
  ultimately show ?thesis using that st hashes pm by blast
qed

lemma load_or_purge_parts:
  assumes "dirs_ok rc" "load_or_purge_metadata B rc d = (d', Ok (Some m))" "chunk_hashes m i = Some h"
  shows "\<exists>bs. files d' (receiver_part rc i) = Some bs \<and> b3_hash B bs = h \<and> length h = 32"
proof -
  obtain stored V where st: "meta_load d (r_parts_dir rc) (r_filename rc) = Ok (Some stored)"
    and V: "V = {i \<in> dom (chunk_hashes stored). verify_part B stored d i (r_parts_dir rc) (r_filename rc)}"
    and hs: "chunk_hashes m = (chunk_hashes stored) |` V"
    and fr: "\<And>i. i \<in> V \<Longrightarrow> files d' (receiver_part rc i) = files d (receiver_part rc i)"
    by (rule load_or_purge_Some [OF assms(1,2)]) blast
  have i: "i \<in> V" "chunk_hashes stored i = Some h"
    using assms(3) hs by (auto simp: restrict_map_def split: if_splits)
  obtain data where "meta_from_bytes data = Ok stored"
    using st by (auto simp: meta_load_def Let_def res_simps split: if_splits)
  then have "length h = 32" using meta_from_bytes_bounds(5) i(2) by blast
  then show ?thesis
    using verify_part_sound [of B stored d i "r_parts_dir rc" "r_filename rc"] i V fr
    by (auto simp: receiver_paths)
qed

section \<open>Properties\<close>

text \<open>Data for the witnesses: a transfer of three bytes in two chunks.\<close>

definition ex_content :: bytes where "ex_content = [1, 2, 3]"

definition ex_receiver :: receiver where
  "ex_receiver = receiver_new ''f'' 3 2 2 (b3_hash toy_blake3 ex_content) ''out'' ''tmp''"

lemma ex_receiver_ok: "receiver_wf ex_receiver" "dirs_ok ex_receiver"
proof -
  show "receiver_wf ex_receiver" unfolding ex_receiver_def by (intro receiver_new_wf) simp_all
  have "plain_name ''f''" by code_simp
  then show "dirs_ok ex_receiver" by (simp add: ex_receiver_def receiver_new_def dirs_ok_def)
qed

definition ex_recorded :: "receiver \<times> disk" where
  "ex_recorded = fst (record_chunk ex_receiver
     (empty_disk\<lparr>files := [receiver_part ex_receiver 1 \<mapsto> [3]]\<rparr>) 1 (b3_hash toy_blake3 [3]))"

text \<open>Recording a chunk keeps the receiver well-formed, sets exactly that chunk's flag and hash, and
  when it succeeds the metadata on disk is the receiver's: a restarted server that loads it continues
  from this state.\<close>

theorem record_chunk_durable:
  assumes wf: "receiver_wf rc" "dirs_ok rc" and i: "i < r_num_chunks rc" and h: "length h = 32"
    and r: "record_chunk rc d i h = ((rc', d'), r)"
  shows "receiver_wf rc' \<and> (\<forall>j < r_num_chunks rc. received_chunks rc' ! j \<longleftrightarrow> received_chunks rc ! j \<or> j = i)
    \<and> chunk_hashes (r_metadata rc') = (chunk_hashes (r_metadata rc))(i \<mapsto> h)
    \<and> (r = Ok () \<longrightarrow> healthy d (receiver_meta rc) \<longrightarrow>
         meta_load d' (r_parts_dir rc) (r_filename rc) = Ok (Some (r_metadata rc')))"
proof -
  have il: "i < length (received_chunks rc)" and f: "plain_name (r_filename rc)"
    using wf i by (simp_all add: receiver_wf_def dirs_ok_def)
  note st = record_chunk_state [OF r il]
  have rc': "receiver_wf rc'" using recorded_wf [OF wf(1) i h] st(1) by simp
  have "meta_load d' (r_parts_dir rc) (r_filename rc) = Ok (Some (r_metadata rc'))"
    if "r = Ok ()" "healthy d (receiver_meta rc)"
  proof (rule meta_load_saved [OF receiver_wf_meta_wf [OF rc']])
    note out = meta_save_outcome [OF f st(2)]
    show "files d' (meta_file (r_parts_dir rc) (r_filename rc)) = Some (meta_to_bytes (r_metadata rc'))"
      using out(1) that(1) by simp
    show "healthy d' (meta_file (r_parts_dir rc) (r_filename rc))"
      using that(2) same_faults_healthy [OF out(5)] by (simp add: receiver_paths)
  qed
  moreover have "\<forall>j < r_num_chunks rc. received_chunks rc' ! j \<longleftrightarrow> received_chunks rc ! j \<or> j = i"
    using wf(1) i st(1) by (auto simp: recorded_def receiver_wf_def nth_list_update)
  ultimately show ?thesis using rc' st(1) by (simp add: recorded_def add_chunk_def)
qed

lemma record_chunk_durable_witness:
  "received_chunks (fst ex_recorded) = [False, True] \<and> received_chunks (fst ex_recorded) ! 1"
proof -
  let ?X = "record_chunk ex_receiver (empty_disk\<lparr>files := [receiver_part ex_receiver 1 \<mapsto> [3]]\<rparr>) 1
      (b3_hash toy_blake3 [3])"
  have e: "?X = ((fst ex_recorded, snd ex_recorded), snd ?X)" unfolding ex_recorded_def by (simp only: prod.collapse)
  have "r_num_chunks ex_receiver = 2" by (simp add: ex_receiver_def receiver_new_def)
  then have "received_chunks (fst ex_recorded) ! 1"
    using record_chunk_durable [OF ex_receiver_ok _ _ e] by simp
  moreover have "received_chunks (fst ex_recorded) = [False, True]" by code_simp
  ultimately show ?thesis by simp
qed

text \<open>What a resuming server accepts: loading returns metadata only of the same transfer (size,
  chunk size, chunk count, hash), only with chunks whose part files are on disk, unchanged by the load,
  and have the stored hash.\<close>

theorem resume_load_sound:
  assumes ok: "dirs_ok rc" and load: "load_or_purge_metadata B rc d = (d', Ok (Some m))"
  shows "params_match m (r_chunk_size rc) (r_num_chunks rc) (r_file_size rc) (r_full_hash rc)
    \<and> (\<forall>i h. chunk_hashes m i = Some h \<longrightarrow>
         (\<exists>bs. files d (receiver_part rc i) = Some bs \<and> files d' (receiver_part rc i) = Some bs
            \<and> b3_hash B bs = h \<and> length h = 32))"
proof -
  obtain stored V where
    V: "V = {i \<in> dom (chunk_hashes stored). verify_part B stored d i (r_parts_dir rc) (r_filename rc)}"
    and hs: "chunk_hashes m = (chunk_hashes stored) |` V"
    and pm: "params_match m (r_chunk_size rc) (r_num_chunks rc) (r_file_size rc) (r_full_hash rc)"
    and fr: "\<And>i. i \<in> V \<Longrightarrow> files d' (receiver_part rc i) = files d (receiver_part rc i)"
    by (rule load_or_purge_Some [OF ok load]) blast
  have "files d (receiver_part rc i) = files d' (receiver_part rc i)" if "chunk_hashes m i = Some h" for i h
    using that hs fr by (auto simp: restrict_map_def split: if_splits)
  then show ?thesis using pm load_or_purge_parts [OF ok load] by metis
qed

lemma resume_load_sound_witness:
  "\<exists>d m. load_or_purge_metadata toy_blake3 ex_receiver (snd ex_recorded) = (d, Ok (Some m))
     \<and> chunk_hashes m 1 = Some (b3_hash toy_blake3 [3])
     \<and> files (snd ex_recorded) (receiver_part ex_receiver 1) = Some [3]"
proof -
  let ?X = "load_or_purge_metadata toy_blake3 ex_receiver (snd ex_recorded)"
  have "snd ?X = Ok (Some (r_metadata (fst ex_recorded)))" by code_simp
  then obtain d' where l: "?X = (d', Ok (Some (r_metadata (fst ex_recorded))))" by (metis prod.collapse)
  have h: "chunk_hashes (r_metadata (fst ex_recorded)) 1 = Some (b3_hash toy_blake3 [3])" by code_simp
  have "\<exists>bs. files (snd ex_recorded) (receiver_part ex_receiver 1) = Some bs"
    using resume_load_sound [OF ex_receiver_ok(2) l] h by blast
  moreover have "files (snd ex_recorded) (receiver_part ex_receiver 1) = Some [3]" by code_simp
  ultimately show ?thesis using l h by auto
qed

end
