(* ===== verification/Assembly.thy ===== *)
theory Assembly
  imports File_Receiver
begin

text \<open>
  What \<open>FileReceiver::assemble\<close> does to the disk. Success means that the final file is on disk with
  the promised hash, whatever operations fail on the way; with every part present and a disk that
  works the final file is the concatenation of the parts.
\<close>

section \<open>Copying one part\<close>

lemma contents_append:
  "file_append d p bs = (d', Ok ()) \<Longrightarrow> files d' = (files d)(p \<mapsto> contents d p @ bs)"
  by (auto simp: file_append_def Let_def split: option.splits if_splits)

lemma file_append_frame: "q \<noteq> p \<Longrightarrow> files (fst (file_append d p bs)) q = files d q"
  by (auto simp: file_append_def Let_def split: option.splits)

lemma contents_upd [simp]: "contents (d\<lparr>files := (files d)(p \<mapsto> bs)\<rparr>) q = (if q = p then bs else contents d q)"
  by (simp add: contents_def)

lemma contents_cong: "files d p = files e p \<Longrightarrow> contents d p = contents e p"
  by (simp add: contents_def)

lemma copy_loop_Ok:
  assumes "copy_loop B d0 part pos out d h = (d', Ok h')" "files d out \<noteq> None"
  shows "\<exists>pieces. concat pieces = drop pos (contents d0 part) \<and> h' = foldl (b3_update B) h pieces
     \<and> files d' = (files d)(out \<mapsto> contents d out @ concat pieces) \<and> same_faults d d'"
  using assms
proof (induction B d0 part pos out d h arbitrary: h' rule: copy_loop.induct)
  case (1 B d0 part pos out d h)
  note unf = copy_loop.simps [of B d0 part pos out d h]
  obtain buf where rd: "file_read_at d0 part pos BUFFER_SIZE = Ok buf"
    using "1.prems"(1) by (auto simp: unf split: res.splits)
  note step = read_step [OF rd, unfolded BUFFER_SIZE_def, simplified]
  show ?case
  proof (cases "buf = []")
    case True
    then have "h' = h" "d' = d" using "1.prems"(1) rd by (simp_all add: unf)
    then show ?thesis using step(2) [OF True] "1.prems"(2) by (intro exI [of _ "[]"]) (auto simp: contents_def)
  next
    case False
    obtain d1 where ap: "file_append d out buf = (d1, Ok ())"
      and rest: "copy_loop B d0 part (pos + length buf) out d1 (b3_update B h buf) = (d', Ok h')"
      using "1.prems"(1) rd False by (auto simp: unf res_simps)
    have d1: "files d1 = (files d)(out \<mapsto> contents d out @ buf)" by (rule contents_append [OF ap])
    have "files d1 out \<noteq> None" using d1 by simp
    from "1.IH" [OF rd False rest this] obtain pieces where
      p: "concat pieces = drop (pos + length buf) (contents d0 part)"
        "h' = foldl (b3_update B) (b3_update B h buf) pieces"
        "files d' = (files d1)(out \<mapsto> contents d1 out @ concat pieces)" "same_faults d1 d'"
      by blast
    have "same_faults d d1" using fs_ops_same_faults(2) [of d out buf] ap by simp
    then have "same_faults d d'" using p(4) by (rule same_faults_trans)
    moreover have "contents d1 out = contents d out @ buf" using d1 by (simp add: contents_def)
    ultimately show ?thesis using p d1 step(1) by (intro exI [of _ "buf # pieces"]) (simp add: fun_eq_iff)
  qed
qed

lemma copy_loop_healthy:
  assumes "\<And>n. \<not> read_err d0 part n" "write_room d out = None"
  shows "\<exists>d' h'. copy_loop B d0 part pos out d h = (d', Ok h')"
  using assms
proof (induction B d0 part pos out d h rule: copy_loop.induct)
  case (1 B d0 part pos out d h)
  note unf = copy_loop.simps [of B d0 part pos out d h]
  obtain buf where rd: "file_read_at d0 part pos BUFFER_SIZE = Ok buf"
    using "1.prems"(1) by (simp add: file_read_at_def)
  show ?case
  proof (cases "buf = []")
    case True
    then show ?thesis using rd by (simp add: unf)
  next
    case False
    have "file_append d out buf = (d\<lparr>files := (files d)(out \<mapsto> contents d out @ buf)\<rparr>, Ok ())"
      using "1.prems"(2) by (simp add: file_append_def)
    then show ?thesis
      using "1.IH" [OF rd False, of "d\<lparr>files := (files d)(out \<mapsto> contents d out @ buf)\<rparr>"] "1.prems" rd False
      by (simp add: unf)
  qed
qed

section \<open>Assembling all parts\<close>

lemma assemble_parts_Ok:
  assumes "dirs_ok rc" "distinct is" "files d out \<noteq> None" "\<And>i. receiver_part rc i \<noteq> out"
    and "assemble_parts B rc out d h is = (d', Ok (Some h'))"
  shows "\<exists>pieces. h' = foldl (b3_update B) h pieces
     \<and> concat pieces = concat (map (\<lambda>i. contents d (receiver_part rc i)) is)
     \<and> files d' out = Some (contents d out @ concat pieces)
     \<and> (\<forall>q. q \<noteq> out \<longrightarrow> files d' q = (if q \<in> receiver_part rc ` set is then None else files d q))
     \<and> same_faults d d'"
  using assms(2,3,5)
proof (induction "is" arbitrary: d h)
  case Nil
  then show ?case by (intro exI [of _ "[]"]) (auto simp: contents_def)
next
  case (Cons i js)
  let ?p = "receiver_part rc i"
  from Cons.prems(3) obtain d1 h1 d2 where
    cp: "copy_loop B d ?p 0 out d h = (d1, Ok h1)" and rm: "fs_remove d1 ?p = (d2, Ok ())"
    and rest: "assemble_parts B rc out d2 h1 js = (d', Ok (Some h'))"
    by (auto simp: join_part_eq [OF assms(1)] Let_def res_simps split: if_splits)
  from copy_loop_Ok [OF cp Cons.prems(2)] obtain ps where
    ps: "concat ps = contents d ?p" "h1 = foldl (b3_update B) h ps"
      "files d1 = (files d)(out \<mapsto> contents d out @ concat ps)" "same_faults d d1"
    by auto
  have "files d2 = (files d1)(?p := None)" using rm by (auto simp: fs_remove_def split: if_splits)
  then have d2: "files d2 = (files d)(out \<mapsto> contents d out @ contents d ?p, ?p := None)"
    using ps by simp
  have sf: "same_faults d d2"
    using same_faults_trans [OF ps(4) fs_ops_same_faults(5)] rm by (metis fst_conv)
  have "files d2 out = Some (contents d out @ contents d ?p)" using d2 assms(4) [of i] by simp
  with Cons.IH [of d2 h1] Cons.prems(1) rest obtain qs where
    qs: "h' = foldl (b3_update B) h1 qs"
      "concat qs = concat (map (\<lambda>i. contents d2 (receiver_part rc i)) js)"
      "files d' out = Some (contents d2 out @ concat qs)"
      "\<And>q. q \<noteq> out \<Longrightarrow> files d' q = (if q \<in> receiver_part rc ` set js then None else files d2 q)"
      "same_faults d2 d'"
    by (auto simp del: split_paired_All)
  have "contents d2 (receiver_part rc j) = contents d (receiver_part rc j)" if "j \<in> set js" for j
  proof -
    have "receiver_part rc j \<noteq> ?p" using that Cons.prems(1) assms(1) by (auto simp: transfer_files)
    then show ?thesis using d2 assms(4) [of j] by (intro contents_cong) simp
  qed
  then have "concat qs = concat (map (\<lambda>i. contents d (receiver_part rc i)) js)"
    using qs(2) by (metis (no_types, lifting) map_cong)
  moreover have "contents d2 out = contents d out @ contents d ?p"
    using \<open>files d2 out = _\<close> by (simp add: contents_def)
  ultimately show ?case
    using ps qs d2 same_faults_trans [OF sf qs(5)]
    by (intro exI [of _ "ps @ qs"]) (simp del: split_paired_All)
qed

lemma assemble_True:
  assumes "dirs_ok rc" "blake3_ok B" "assemble B rc d = (d', Ok True)"
  shows "\<exists>bs. files d' (receiver_final rc) = Some bs \<and> b3_hash B bs = r_full_hash rc
     \<and> bs = concat (map (\<lambda>i. contents d (receiver_part rc i)) [0..<r_num_chunks rc])"
proof -
  let ?out = "receiver_final rc"
  from assms(3) obtain d1 d2 h where
    cr: "file_create d ?out = (d1, Ok ())"
    and ap: "assemble_parts B rc ?out d1 (b3_new B) [0..<r_num_chunks rc] = (d2, Ok (Some h))"
    and d': "d' = fst (fs_remove d2 (receiver_meta rc))" and hash: "b3_finalize B h = r_full_hash rc"
    by (auto simp: assemble_def join_final_eq [OF assms(1)] receiver_paths Let_def res_simps split: option.splits)
  have d1: "files d1 = (files d)(?out \<mapsto> [])" using cr by (auto simp: file_create_def split: if_splits)
  have "\<And>i. receiver_part rc i \<noteq> ?out" using assms(1) by (simp add: transfer_files)
  from assemble_parts_Ok [OF assms(1) distinct_upt _ this ap] d1 obtain ps where
    ps: "h = foldl (b3_update B) (b3_new B) ps"
      "concat ps = concat (map (\<lambda>i. contents d1 (receiver_part rc i)) [0..<r_num_chunks rc])"
      "files d2 ?out = Some (contents d1 ?out @ concat ps)"
    by auto
  have "contents d1 (receiver_part rc i) = contents d (receiver_part rc i)" for i
    using d1 assms(1) by (intro contents_cong) (simp add: transfer_files)
  moreover have "contents d1 ?out = []" using d1 by (simp add: contents_def)
  moreover have "files d' ?out = files d2 ?out"
    using d' assms(1) by (simp add: fs_remove_frame transfer_files)
  moreover have "b3_hash B (concat ps) = r_full_hash rc"
    using hash ps(1) assms(2) by (simp add: blake3_ok_def)
  ultimately show ?thesis using ps by simp
qed

lemma assemble_parts_healthy:
  assumes "dirs_ok rc" "distinct is" "\<And>i. receiver_part rc i \<noteq> out" "write_room d out = None"
    and "\<And>i. i \<in> set is \<Longrightarrow> files d (receiver_part rc i) \<noteq> None"
    and "\<And>i. i \<in> set is \<Longrightarrow> healthy d (receiver_part rc i)" and "files d out \<noteq> None"
  shows "\<exists>d' h'. assemble_parts B rc out d h is = (d', Ok (Some h'))"
  using assms(2,4-7)
proof (induction "is" arbitrary: d h)
  case Nil
  then show ?case by simp
next
  case (Cons i js)
  let ?p = "receiver_part rc i"
  have hp: "healthy d ?p" and ex: "files d ?p \<noteq> None" using Cons.prems(3,4) by simp_all
  obtain d1 h1 where cp: "copy_loop B d ?p 0 out d h = (d1, Ok h1)"
    using copy_loop_healthy [of d ?p d out B 0 h] hp Cons.prems(2) by (auto simp: healthy_def)
  from copy_loop_Ok [OF cp Cons.prems(5)] obtain bs where
    d1: "files d1 = (files d)(out \<mapsto> bs)" "same_faults d d1" by blast
  let ?d2 = "d1\<lparr>files := (files d1)(?p := None)\<rparr>"
  have rm: "fs_remove d1 ?p = (?d2, Ok ())"
    using d1 hp ex assms(3) [of i] same_faults_healthy [OF d1(2), of ?p]
    by (auto simp: fs_remove_def healthy_def)
  have sf: "same_faults d ?d2" using d1(2) same_faults_update by (rule same_faults_trans)
  have ne: "receiver_part rc j \<noteq> ?p" if "j \<in> set js" for j
    using that Cons.prems(1) assms(1) by (auto simp: transfer_files)
  have "\<exists>d' h'. assemble_parts B rc out ?d2 h1 js = (d', Ok (Some h'))"
  proof (rule Cons.IH)
    show "distinct js" using Cons.prems(1) by simp
    show "write_room ?d2 out = None" using Cons.prems(2) sf by (cases d; cases d1) (auto simp: same_faults_def)
    show "files ?d2 (receiver_part rc j) \<noteq> None" if "j \<in> set js" for j
      using that ne [OF that] d1 assms(3) [of j] Cons.prems(3) [of j] by simp
    show "healthy ?d2 (receiver_part rc j)" if "j \<in> set js" for j
      using that Cons.prems(4) [of j] same_faults_healthy [OF sf] by simp
    show "files ?d2 out \<noteq> None" using d1 assms(3) [of i] by simp
  qed
  moreover have "path_exists d ?p" "file_open d ?p = Ok ()"
    using hp ex by (auto simp: path_exists_def file_open_def healthy_def)
  ultimately show ?case by (simp add: join_part_eq [OF assms(1)] cp rm)
qed

text \<open>With every part on disk and a disk that works, assembly writes the concatenation, compares
  its hash, and leaves neither parts nor metadata.\<close>

lemma assemble_complete:
  assumes ok: "dirs_ok rc" and B: "blake3_ok B" and hl: "\<And>p. healthy d p"
    and ps: "\<And>i. i < r_num_chunks rc \<Longrightarrow> files d (receiver_part rc i) = Some (parts i)"
  shows "\<exists>d'. assemble B rc d
           = (d', Ok (b3_hash B (concat (map parts [0..<r_num_chunks rc])) = r_full_hash rc))
     \<and> files d' (receiver_final rc) = Some (concat (map parts [0..<r_num_chunks rc]))
     \<and> files d' (receiver_meta rc) = None
     \<and> (\<forall>i < r_num_chunks rc. files d' (receiver_part rc i) = None)"
proof -
  let ?out = "receiver_final rc" and ?is = "[0..<r_num_chunks rc]"
  let ?d1 = "d\<lparr>files := (files d)(?out \<mapsto> [])\<rparr>"
  have cr: "file_create d ?out = (?d1, Ok ())" using hl by (simp add: file_create_def healthy_def)
  have ne: "\<And>i. receiver_part rc i \<noteq> ?out" using ok by (simp add: transfer_files)
  have h1: "healthy ?d1 p" for p using hl same_faults_healthy [OF same_faults_update] by blast
  have "\<exists>d2 h. assemble_parts B rc ?out ?d1 (b3_new B) ?is = (d2, Ok (Some h))"
    using ok ne h1 ps by (intro assemble_parts_healthy) (auto simp: healthy_def)
  then obtain d2 h where ap: "assemble_parts B rc ?out ?d1 (b3_new B) ?is = (d2, Ok (Some h))" by blast
  have "files ?d1 ?out \<noteq> None" by simp
  from assemble_parts_Ok [OF ok distinct_upt this ne ap] obtain qs where
    qs: "h = foldl (b3_update B) (b3_new B) qs"
      "concat qs = concat (map (\<lambda>i. contents ?d1 (receiver_part rc i)) ?is)"
      "files d2 ?out = Some (contents ?d1 ?out @ concat qs)"
      "\<And>q. q \<noteq> ?out \<Longrightarrow> files d2 q = (if q \<in> receiver_part rc ` set ?is then None else files ?d1 q)"
      "same_faults ?d1 d2"
    by blast
  have cont: "contents ?d1 (receiver_part rc i) = parts i" if "i \<in> set ?is" for i
    using that ps ne by (simp add: contents_def)
  have cc: "concat qs = concat (map parts ?is)"
    unfolding qs(2) by (simp only: map_cong [OF refl cont])
  let ?d3 = "fst (fs_remove d2 (receiver_meta rc))"
  have "assemble B rc d = (?d3, Ok (b3_finalize B h = r_full_hash rc))"
    using cr ap by (simp add: assemble_def join_final_eq [OF ok] receiver_paths)
  moreover have "b3_finalize B h = b3_hash B (concat (map parts ?is))"
    using qs(1) B cc by (simp add: blake3_ok_def)
  moreover have "files ?d3 ?out = Some (concat (map parts ?is))"
    using qs(3) cc ok by (simp add: fs_remove_frame transfer_files)
  moreover have "files ?d3 (receiver_part rc i) = None" if "i < r_num_chunks rc" for i
    using qs(4) [OF ne [of i]] that ok by (simp add: fs_remove_frame transfer_files)
  moreover have "files ?d3 (receiver_meta rc) = None"
    using hl same_faults_healthy [OF same_faults_trans [OF same_faults_update qs(5)]]
    by (simp add: fs_remove_healthy)
  ultimately show ?thesis by (intro exI [of _ ?d3]) auto
qed

section \<open>Properties\<close>

text \<open>Data for the witnesses: all parts of \<open>ex_receiver\<close>'s transfer on disk.\<close>

definition ex_parts :: disk where
  "ex_parts = empty_disk\<lparr>files := [receiver_part ex_receiver 0 \<mapsto> [1, 2], receiver_part ex_receiver 1 \<mapsto> [3]]\<rparr>"

lemma ex_receiver_numbers [simp]:
  "r_num_chunks ex_receiver = 2" "r_full_hash ex_receiver = b3_hash toy_blake3 ex_content"
  by (simp_all add: ex_receiver_def receiver_new_def ex_content_def)

text \<open>C12: Assembly that reports success has written the final file: it is the concatenation of the parts
  in chunk order and its hash is the one the client promised, whatever operations failed on the way.\<close>

theorem assemble_success_means_file:
  assumes "dirs_ok rc" "blake3_ok B" "assemble B rc d = (d', Ok True)"
  shows "files d' (receiver_final rc) = Some (concat (map (\<lambda>i. contents d (receiver_part rc i)) [0..<r_num_chunks rc]))
    \<and> b3_hash B (contents d' (receiver_final rc)) = r_full_hash rc"
  using assemble_True [OF assms] by (auto simp: contents_def)

lemma assemble_success_means_file_witness:
  "files (fst (assemble toy_blake3 ex_receiver ex_parts)) (receiver_final ex_receiver) = Some [1, 2, 3]"
proof -
  let ?X = "assemble toy_blake3 ex_receiver ex_parts"
  have "snd ?X = Ok True" by code_simp
  then have "?X = (fst ?X, Ok True)" by (metis prod.collapse)
  from assemble_success_means_file [OF ex_receiver_ok(2) toy_blake3_ok this]
  show ?thesis by code_simp
qed

text \<open>C34: With every part present and a disk that works assembly always returns, its verdict is exactly
  whether the concatenation has the promised hash, the final file is the concatenation either way, and
  neither parts nor metadata are left: after a wrong verdict nothing remains to resume from.\<close>

theorem assemble_verdict:
  assumes ok: "dirs_ok rc" and B: "blake3_ok B" and hl: "\<And>p. healthy d p"
    and ps: "\<And>i. i < r_num_chunks rc \<Longrightarrow> files d (receiver_part rc i) = Some (parts i)"
  shows "\<exists>d'. assemble B rc d
           = (d', Ok (b3_hash B (concat (map parts [0..<r_num_chunks rc])) = r_full_hash rc))
     \<and> files d' (receiver_final rc) = Some (concat (map parts [0..<r_num_chunks rc]))
     \<and> files d' (receiver_meta rc) = None
     \<and> (\<forall>i < r_num_chunks rc. files d' (receiver_part rc i) = None)"
  using assms by (rule assemble_complete)

lemma assemble_verdict_witness:
  "\<exists>d'. assemble toy_blake3 (ex_receiver\<lparr>r_full_hash := replicate 32 0\<rparr>) ex_parts = (d', Ok False)
     \<and> files d' (receiver_part (ex_receiver\<lparr>r_full_hash := replicate 32 0\<rparr>) 0) = None"
proof -
  let ?rc = "ex_receiver\<lparr>r_full_hash := replicate 32 0\<rparr>"
  let ?parts = "\<lambda>i::nat. if i = 0 then [1, 2] else [3] :: bytes"
  have ok: "dirs_ok ?rc" using ex_receiver_ok(2) by (simp add: dirs_ok_def)
  have hl: "healthy ex_parts p" for p by (simp add: ex_parts_def)
  have n: "r_num_chunks ?rc = 2" by simp
  have e: "receiver_part ?rc = receiver_part ex_receiver" by (simp add: receiver_part_def fun_eq_iff)
  have ps: "files ex_parts (receiver_part ?rc i) = Some (?parts i)" if "i < r_num_chunks ?rc" for i
    using that ex_receiver_ok(2) unfolding e by (auto simp: ex_parts_def transfer_files less_Suc_eq numeral_2_eq_2)
  have ne: "1 # 2 # 3 # replicate 29 0 \<noteq> (replicate 32 0 :: bytes)" by code_simp
  from assemble_verdict [OF ok toy_blake3_ok hl, of ?parts] ps show ?thesis
    unfolding n using ne by (auto simp: upt_rec numeral_2_eq_2)
qed

end
