(* ===== verification/Frame.thy ===== *)
theory Frame
  imports Wire_Codec
begin

text \<open>
  The frame transport of \<open>src/protocol.rs\<close> (module \<open>frame\<close>) over a model of an asynchronous byte
  stream, and the constants of the modules \<open>handshake\<close> and \<open>chunk\<close>.

  A \<open>stream\<close> holds the bytes the peer has sent and the program has not read (\<open>rx\<close>, then end of
  file), the bytes written so far (\<open>tx\<close>), the number of bytes the peer still takes before the
  connection breaks (\<open>tx_limit\<close>, \<open>None\<close> for no break), and how long the next receives and sends
  take (\<open>rx_delays\<close>, \<open>tx_delays\<close>, in nanoseconds; an exhausted list means without delay; a receive
  that is cut off has taken the given number of bytes from the stream, a send that is cut off has
  written the given number of bytes of its frame). All of these are the
  environment's choice, so a theorem over every stream covers every network. Durations are
  nanoseconds. Flushing a socket writes nothing.
\<close>

section \<open>Constants\<close>

definition FRAME_HEADER_SIZE :: usize where [const_defs]: "FRAME_HEADER_SIZE = 4"

definition MAX_PAYLOAD :: usize where [const_defs]: "MAX_PAYLOAD = 16 * 1024 * 1024"

definition from_secs :: "nat \<Rightarrow> nat" where "from_secs n = n * 1000000000"

definition DURATION_MAX :: nat where "DURATION_MAX = from_secs (2 ^ 64 - 1) + 999999999"

definition saturating_add_dur :: "nat \<Rightarrow> nat \<Rightarrow> nat" where
  "saturating_add_dur a b = min (a + b) DURATION_MAX"

definition saturating_mul_dur :: "nat \<Rightarrow> nat \<Rightarrow> nat" where
  "saturating_mul_dur a n = min (a * n) DURATION_MAX"

definition DEFAULT_TIMEOUT :: nat where [const_defs]: "DEFAULT_TIMEOUT = from_secs 30"

definition MIN_THROUGHPUT :: nat where [const_defs]: "MIN_THROUGHPUT = 150 * 1024"

definition HANDSHAKE_MAGIC :: bytes where [const_defs]: "HANDSHAKE_MAGIC = [0x42, 0x45, 0x53, 0x4E]"

definition PREFIX_SIZE :: usize where [const_defs]: "PREFIX_SIZE = 6"

definition SUFFIX_SIZE :: usize where [const_defs]: "SUFFIX_SIZE = 48"

definition RESP_OK :: u8 where [const_defs]: "RESP_OK = 0"

definition RESP_ERR :: u8 where [const_defs]: "RESP_ERR = 1"

definition RESP_EXISTS :: u8 where [const_defs]: "RESP_EXISTS = 2"

definition RESP_COMPLETE :: u8 where [const_defs]: "RESP_COMPLETE = 3"

definition CHUNK_HEADER_SIZE :: usize where [const_defs]: "CHUNK_HEADER_SIZE = 16"

definition CHUNK_HASH_SIZE :: usize where [const_defs]: "CHUNK_HASH_SIZE = 32"

definition ACK_OK :: u8 where [const_defs]: "ACK_OK = 0"

definition ACK_HASH_MISMATCH :: u8 where [const_defs]: "ACK_HASH_MISMATCH = 1"

definition QUERY_MAGIC :: u8 where [const_defs]: "QUERY_MAGIC = 1"

section \<open>Streams\<close>

record stream =
  rx :: bytes
  rx_delays :: "(nat \<times> nat) list"
  tx :: bytes
  tx_limit :: "nat option"
  tx_delays :: "(nat \<times> nat) list"

text \<open>The size of a stream is what there is left to read; loops that read frames end because it shrinks.\<close>

instantiation stream_ext :: (type) size
begin

definition size_stream_ext :: "'a stream_scheme \<Rightarrow> nat" where
  [simp]: "size_stream_ext s = length (rx s)"

instance ..

end

definition stream_of :: "bytes \<Rightarrow> stream" where
  "stream_of bs = \<lparr>rx = bs, rx_delays = [], tx = [], tx_limit = None, tx_delays = []\<rparr>"

definition write_all :: "stream \<Rightarrow> bytes \<Rightarrow> stream \<times> unit res" where
  "write_all s bs =
     (case tx_limit s of
        None \<Rightarrow> (s\<lparr>tx := tx s @ bs\<rparr>, Ok ())
      | Some n \<Rightarrow>
          if length bs \<le> n then (s\<lparr>tx := tx s @ bs, tx_limit := Some (n - length bs)\<rparr>, Ok ())
          else (s\<lparr>tx := tx s @ take n bs, tx_limit := Some 0\<rparr>, Err BrokenPipe))"

definition read_exact :: "stream \<Rightarrow> nat \<Rightarrow> stream \<times> bytes res" where
  "read_exact s n =
     (if n \<le> length (rx s) then (s\<lparr>rx := drop n (rx s)\<rparr>, Ok (take n (rx s)))
      else (s\<lparr>rx := []\<rparr>, Err UnexpectedEof))"

section \<open>The frame functions\<close>

definition timeout_for_bytes :: "usize \<Rightarrow> nat" where
  "timeout_for_bytes n_bytes =
     (let speed_time = from_secs (n_bytes div MIN_THROUGHPUT)
      in saturating_add_dur (max speed_time DEFAULT_TIMEOUT) (from_secs 5))"

definition send :: "stream \<Rightarrow> bytes \<Rightarrow> stream \<times> unit res" where
  "send s data =
     (let header = to_be_bytes (word_of_nat (length data) :: u32)
      in st_bind (write_all s header) (\<lambda>s _. write_all s data))"

fun write_parts :: "stream \<Rightarrow> bytes list \<Rightarrow> stream \<times> unit res" where
  "write_parts s [] = (s, Ok ())"
| "write_parts s (part # parts) = st_bind (write_all s part) (\<lambda>s _. write_parts s parts)"

definition send_parts :: "stream \<Rightarrow> bytes list \<Rightarrow> stream \<times> unit res" where
  "send_parts s parts =
     (let total_len = sum_list (map length parts);
          header = to_be_bytes (word_of_nat total_len :: u32)
      in st_bind (write_all s header) (\<lambda>s _. write_parts s parts))"

definition recv :: "stream \<Rightarrow> stream \<times> bytes res" where
  "recv s =
     st_bind (read_exact s FRAME_HEADER_SIZE) (\<lambda>s header.
       let payload_len = unat (from_be_bytes header :: u32)
       in if payload_len > MAX_PAYLOAD then (s, Err (FrameTooLarge payload_len))
          else if payload_len = 0 then (s, Ok [])
          else read_exact s payload_len)"

definition frame_bytes :: "bytes \<Rightarrow> bytes" where
  "frame_bytes data = to_be_bytes (word_of_nat (length data) :: u32) @ data"

text \<open>A send under a time limit: the network decides how long it takes, and how much of the frame a
  send that is cut off has written.\<close>

definition send_within :: "stream \<Rightarrow> nat \<Rightarrow> bytes \<Rightarrow> (stream \<Rightarrow> stream \<times> unit res) \<Rightarrow> stream \<times> unit res" where
  "send_within s timeout frame op =
     (case tx_delays s of
        [] \<Rightarrow> op s
      | (d, k) # ds \<Rightarrow>
          if d \<le> timeout then op (s\<lparr>tx_delays := ds\<rparr>)
          else st_bind (write_all (s\<lparr>tx_delays := ds\<rparr>) (take k frame)) (\<lambda>s _. (s, Err SendTimedOut)))"

definition send_timeout :: "stream \<Rightarrow> bytes \<Rightarrow> stream \<times> unit res" where
  "send_timeout s data =
     send_within s DEFAULT_TIMEOUT (frame_bytes data) (\<lambda>s. send s data)"

definition recv_with_timeout :: "stream \<Rightarrow> nat \<Rightarrow> stream \<times> bytes res" where
  "recv_with_timeout s timeout =
     (case rx_delays s of
        [] \<Rightarrow> recv s
      | (d, k) # ds \<Rightarrow>
          if d \<le> timeout then recv (s\<lparr>rx_delays := ds\<rparr>)
          else (s\<lparr>rx_delays := ds, rx := drop k (rx s)\<rparr>, Err RecvTimedOut))"

definition recv_timeout :: "stream \<Rightarrow> stream \<times> bytes res" where
  "recv_timeout s = recv_with_timeout s DEFAULT_TIMEOUT"

section \<open>Sending\<close>

lemma write_all_Nil [simp]: "write_all s [] = (s, Ok ())"
  by (cases s) (auto simp: write_all_def split: option.splits)

lemma write_all_append:
  "write_all s (a @ b) = st_bind (write_all s a) (\<lambda>s _. write_all s b)"
  by (auto simp: write_all_def split: option.splits)

lemma write_parts_concat: "write_parts s parts = write_all s (concat parts)"
  by (induction parts arbitrary: s) (simp_all add: write_all_append)

lemma send_frame: "send s data = write_all s (frame_bytes data)"
  by (simp add: send_def frame_bytes_def write_all_append Let_def)

lemma write_all_unlimited [simp]:
  "tx_limit s = None \<Longrightarrow> write_all s bs = (s\<lparr>tx := tx s @ bs\<rparr>, Ok ())"
  by (simp add: write_all_def)

lemma write_all_tx_prefix: "\<exists>w. tx (fst (write_all s bs)) = tx s @ w"
  by (auto simp: write_all_def split: option.splits)

lemma write_all_rx [simp]:
  "rx (fst (write_all s bs)) = rx s" "rx_delays (fst (write_all s bs)) = rx_delays s"
  by (auto simp: write_all_def split: option.splits)

lemma send_within_rx:
  assumes "\<And>s. rx (fst (op s)) = rx s"
  shows "rx (fst (send_within s T frame op)) = rx s"
  using assms by (auto simp: send_within_def write_all_def split: list.splits option.splits)

lemma send_timeout_rx [simp]: "rx (fst (send_timeout s d)) = rx s"
  by (simp add: send_timeout_def send_frame send_within_rx)

lemma send_within_plain: "tx_delays s = [] \<Longrightarrow> send_within s T frame op = op s"
  by (simp add: send_within_def)

section \<open>Receiving\<close>

lemma length_frame_bytes [simp]: "length (frame_bytes d) = 4 + length d"
  by (simp add: frame_bytes_def)

lemma recv_frame_bytes:
  assumes "length d \<le> MAX_PAYLOAD" "rx s = frame_bytes d @ rest"
  shows "recv s = (s\<lparr>rx := rest\<rparr>, Ok d)"
proof -
  have "length d < 2 ^ 32" using assms(1) by (simp add: MAX_PAYLOAD_def)
  then have "unat (word_of_nat (length d) :: u32) = length d" by (rule unat_u32_of_usize)
  then show ?thesis
    using assms by (simp add: recv_def read_exact_def FRAME_HEADER_SIZE_def frame_bytes_def)
qed

lemma recv_Ok_bound: "recv s = (t, Ok d) \<Longrightarrow> length d \<le> MAX_PAYLOAD"
  by (auto simp: recv_def read_exact_def FRAME_HEADER_SIZE_def Let_def split: if_splits)

lemma recv_Ok_shape:
  assumes "recv s = (t, Ok d)"
  shows "rx s = frame_bytes d @ rx t"
proof -
  let ?h = "take 4 (rx s)"
  let ?n = "unat (from_be_bytes ?h :: u32)"
  from assms have four: "4 \<le> length (rx s)"
    by (auto simp: recv_def read_exact_def FRAME_HEADER_SIZE_def split: if_splits)
  have rest: "d = take ?n (drop 4 (rx s))" "rx t = drop ?n (drop 4 (rx s))" "length d = ?n"
    using assms four
    by (auto simp: recv_def read_exact_def FRAME_HEADER_SIZE_def Let_def split: if_splits)
  have "to_be_bytes (word_of_nat ?n :: u32) = ?h"
    using four by (simp add: to_from_be_bytes)
  then have "frame_bytes d @ rx t = ?h @ take ?n (drop 4 (rx s)) @ drop ?n (drop 4 (rx s))"
    using rest by (simp add: frame_bytes_def)
  then show ?thesis by (simp only: append_take_drop_id)
qed

lemma recv_consumes: "recv s = (t, Ok d) \<Longrightarrow> size t + 4 \<le> size s"
  using recv_Ok_shape by fastforce

lemma recv_not_Panic: "snd (recv s) \<noteq> Panic"
  by (auto simp: recv_def read_exact_def Let_def)

lemma recv_with_timeout_cases:
  "recv_with_timeout s T = (t, Ok d) \<Longrightarrow> \<exists>s'. rx s' = rx s \<and> recv s' = (t, Ok d)"
  by (auto simp: recv_with_timeout_def split: list.splits if_splits)
    (metis select_convs(1) surjective update_convs(2))

lemma recv_with_timeout_consumes:
  "recv_with_timeout s T = (t, Ok d) \<Longrightarrow> size t < size s"
  using recv_with_timeout_cases recv_consumes by fastforce

text \<open>Frames fulfil the contract of a message inside a stream.\<close>

definition parse_frame :: "bytes \<Rightarrow> (bytes \<times> bytes) res" where
  "parse_frame bs = (case recv (stream_of bs) of (s, r) \<Rightarrow> res_map (\<lambda>d. (d, rx s)) r)"

interpretation frames: stream_codec frame_bytes parse_frame "\<lambda>d. length d \<le> MAX_PAYLOAD"
proof unfold_locales
  fix d rest :: bytes assume "length d \<le> MAX_PAYLOAD"
  then show "parse_frame (frame_bytes d @ rest) = Ok (d, rest)"
    by (simp add: parse_frame_def stream_of_def recv_frame_bytes)
qed

section \<open>Properties\<close>

lemma write_all_Ok_tx: "write_all s bs = (s', Ok ()) \<Longrightarrow> tx s' = tx s @ bs"
  by (auto simp: write_all_def split: option.splits if_splits)

text \<open>What one side sends in a frame of at most 16 MiB, the other side receives, whole and alone:
  the bytes after the frame stay in the stream.\<close>

theorem frame_transport:
  assumes "length d \<le> MAX_PAYLOAD" "send s d = (s', Ok ())"
    and "rx peer = drop (length (tx s)) (tx s') @ rest"
  shows "recv peer = (peer\<lparr>rx := rest\<rparr>, Ok d)"
proof -
  have "tx s' = tx s @ frame_bytes d" using assms(2) by (simp add: send_frame write_all_Ok_tx)
  then show ?thesis using assms(1,3) by (intro recv_frame_bytes) simp_all
qed

lemma frame_transport_witness:
  "recv (stream_of [0, 0, 0, 2, 7, 8, 9]) = ((stream_of [0, 0, 0, 2, 7, 8, 9])\<lparr>rx := [9]\<rparr>, Ok [7, 8])"
proof (rule frame_transport)
  show "length [7, 8] \<le> MAX_PAYLOAD" by (simp add: MAX_PAYLOAD_def)
  show "send (stream_of []) [7, 8] = ((stream_of [])\<lparr>tx := [0, 0, 0, 2, 7, 8]\<rparr>, Ok ())" by code_simp
  show "rx (stream_of [0, 0, 0, 2, 7, 8, 9]) =
      drop (length (tx (stream_of []))) (tx ((stream_of [])\<lparr>tx := [0, 0, 0, 2, 7, 8]\<rparr>)) @ [9]"
    by (simp add: stream_of_def)
qed

text \<open>C19: Receiving from any stream whatsoever: a payload is never longer than 16 MiB, it is exactly the
  frame at the head of the stream, every success consumes at least the four header bytes, and
  receiving never panics.\<close>

theorem recv_sound:
  "snd (recv s) \<noteq> Panic \<and>
   (\<forall>t d. recv s = (t, Ok d) \<longrightarrow>
      length d \<le> MAX_PAYLOAD \<and> rx s = frame_bytes d @ rx t \<and> length (rx t) + 4 \<le> length (rx s))"
  using recv_not_Panic recv_Ok_bound recv_Ok_shape recv_consumes [unfolded size_stream_ext_def] by blast

lemma recv_sound_witness: "rx (stream_of [0, 0, 0, 1, 5, 6]) = frame_bytes [5] @ [6]"
proof -
  have "recv (stream_of [0, 0, 0, 1, 5, 6]) = ((stream_of [0, 0, 0, 1, 5, 6])\<lparr>rx := [6]\<rparr>, Ok [5])" by code_simp
  then show ?thesis using recv_sound [of "stream_of [0, 0, 0, 1, 5, 6]"] by simp
qed

text \<open>\<open>send_parts\<close>, which avoids the copy, is \<open>send\<close> of the concatenated parts: the same bytes on the
  wire and the same result, also when the connection breaks in the middle.\<close>

theorem send_parts_is_send: "send_parts s parts = send s (concat parts)"
  by (simp add: send_parts_def send_def write_parts_concat length_concat Let_def)

text \<open>The receive timeout: at least 35 seconds, monotone in the number of bytes, and long enough for
  any payload that arrives at the minimum throughput.\<close>

theorem timeout_enough:
  "from_secs 35 \<le> timeout_for_bytes n \<and> (n \<le> m \<longrightarrow> timeout_for_bytes n \<le> timeout_for_bytes m)
   \<and> (n < 2 ^ 64 \<longrightarrow> n * 1000000000 < timeout_for_bytes n * MIN_THROUGHPUT)"
proof (intro conjI impI)
  show "from_secs 35 \<le> timeout_for_bytes n"
    by (simp add: timeout_for_bytes_def saturating_add_dur_def from_secs_def DEFAULT_TIMEOUT_def DURATION_MAX_def Let_def)
  show "timeout_for_bytes n \<le> timeout_for_bytes m" if "n \<le> m"
  proof -
    have "n div MIN_THROUGHPUT \<le> m div MIN_THROUGHPUT" using that by (rule div_le_mono)
    then show ?thesis
      by (auto simp: timeout_for_bytes_def saturating_add_dur_def from_secs_def DEFAULT_TIMEOUT_def Let_def)
  qed
  assume n: "n < 2 ^ 64"
  let ?q = "n div MIN_THROUGHPUT"
  have q: "n < (?q + 1) * MIN_THROUGHPUT"
    using dividend_less_div_times [of MIN_THROUGHPUT n] by (simp add: MIN_THROUGHPUT_def)
  have "?q * 153600 \<le> n" using div_times_less_eq_dividend [of n MIN_THROUGHPUT] by (simp add: MIN_THROUGHPUT_def)
  moreover have "n < 18446744073709551616" using n by simp
  ultimately have "?q + 1 \<le> 18446744073709551615" by linarith
  then have "from_secs (?q + 1) \<le> DURATION_MAX" unfolding from_secs_def DURATION_MAX_def by simp
  moreover have "from_secs (?q + 1) \<le> max (from_secs ?q) DEFAULT_TIMEOUT + from_secs 5"
    unfolding from_secs_def by simp
  ultimately have "from_secs (?q + 1) \<le> timeout_for_bytes n"
    unfolding timeout_for_bytes_def saturating_add_dur_def Let_def by (simp only: min.bounded_iff)
  then have "from_secs (?q + 1) * MIN_THROUGHPUT \<le> timeout_for_bytes n * MIN_THROUGHPUT" by (rule mult_le_mono1)
  moreover have "n * 1000000000 < from_secs (?q + 1) * MIN_THROUGHPUT"
    using q by (simp add: from_secs_def algebra_simps)
  ultimately show "n * 1000000000 < timeout_for_bytes n * MIN_THROUGHPUT" by linarith
qed

lemma timeout_enough_witness: "timeout_for_bytes 1 \<le> timeout_for_bytes 307200
    \<and> 307200 * 1000000000 < timeout_for_bytes 307200 * MIN_THROUGHPUT"
  using timeout_enough [of 1 307200] timeout_enough [of 307200 307200] by simp

end
