(* ===== verification/Data_Handler.thy ===== *)
theory Data_Handler
  imports Assembly Frame
begin

text \<open>
  The data connection (\<open>src/server/handler/data.rs\<close>): one framed message after the other from a
  peer that need not be honest. The state of a connection is the receiver of its transfer, the
  disk and the stream. The loop ends because every iteration that goes on has consumed a frame.
  Other connections of the same transfer run between the iterations; \<open>Interleaving\<close> models that.
\<close>

section \<open>Answering a query, sending an acknowledgement\<close>

definition received_indices :: "receiver \<Rightarrow> usize list" where
  "received_indices rc = filter (\<lambda>i. received_chunks rc ! i) [0..<length (received_chunks rc)]"

definition query_response :: "usize list \<Rightarrow> bytes" where
  "query_response received =
     to_be_bytes (word_of_nat (length received) :: u32)
     @ concat (map (\<lambda>idx. to_be_bytes (word_of_nat idx :: u32)) received)"

definition handle_query :: "receiver \<Rightarrow> stream \<Rightarrow> stream \<times> unit res" where
  "handle_query rc s = send_timeout s (query_response (received_indices rc))"

definition send_ack :: "stream \<Rightarrow> u8 \<Rightarrow> stream \<times> unit res" where
  "send_ack s ack = send_timeout s [ack]"

section \<open>A chunk message\<close>

text \<open>Index and size; the offset field is read and not used. A message of fewer than 16 bytes
  is an out of bounds access.\<close>

definition chunk_header :: "bytes \<Rightarrow> (usize \<times> usize) res" where
  "chunk_header data =
     res_bind (read_u32 data 0) (\<lambda>index.
     res_bind (read_u64 data 4) (\<lambda>offset.
     res_bind (read_u32 data 12) (\<lambda>size.
     Ok (unat index, unat size))))"

definition expected_chunk_size :: "receiver \<Rightarrow> usize \<Rightarrow> usize" where
  "expected_chunk_size rc index =
     (let last_idx = r_num_chunks rc - 1 in
      if index = last_idx then
        (let remainder = usize_sub (unat (r_file_size rc)) (usize_mul last_idx (r_chunk_size rc))
         in if remainder = 0 then r_chunk_size rc else remainder)
      else r_chunk_size rc)"

definition verify_and_write_chunk ::
  "'h blake3 \<Rightarrow> receiver \<Rightarrow> disk \<Rightarrow> usize \<Rightarrow> bytes \<Rightarrow> bytes \<Rightarrow> (receiver \<times> disk) \<times> u8 res" where
  "verify_and_write_chunk B rc d index data hash_rcvd =
     (if calc_hash B data = hash_rcvd then
        (case fs_write d (path_of (receiver_part_path rc index)) data of
           (d1, Err e) \<Rightarrow> ((rc\<lparr>r_failed := True\<rparr>, d1), Ok ACK_HASH_MISMATCH)
         | (d1, Panic) \<Rightarrow> ((rc, d1), Panic)
         | (d1, Ok _) \<Rightarrow>
             (case record_chunk rc d1 index hash_rcvd of
                ((rc2, d2), Ok _) \<Rightarrow> ((rc2, d2), Ok ACK_OK)
              | ((rc2, d2), Err e) \<Rightarrow> ((rc2\<lparr>r_failed := True\<rparr>, d2), Ok ACK_HASH_MISMATCH)
              | ((rc2, d2), Panic) \<Rightarrow> ((rc2, d2), Panic)))
      else ((rc, d), Ok ACK_HASH_MISMATCH))"

text \<open>The checks before the hash: \<open>None\<close> is the early return that sends no acknowledgement.\<close>

definition check_chunk :: "receiver \<Rightarrow> bytes \<Rightarrow> (usize \<times> bytes \<times> bytes) option res" where
  "check_chunk rc data =
     res_bind (chunk_header data) (\<lambda>(index, size).
       let expected_len = CHUNK_HEADER_SIZE + size + CHUNK_HASH_SIZE in
       if length data < expected_len then Ok None
       else if index \<ge> r_num_chunks rc then Ok None
       else if size \<noteq> expected_chunk_size rc index then Ok None
       else
         res_bind (read_bytes data CHUNK_HEADER_SIZE size) (\<lambda>chunk_data.
         res_bind (read_bytes data (CHUNK_HEADER_SIZE + size) CHUNK_HASH_SIZE) (\<lambda>chunk_hash.
         Ok (Some (index, chunk_data, chunk_hash)))))"

definition process_chunk ::
  "'h blake3 \<Rightarrow> receiver \<Rightarrow> disk \<Rightarrow> stream \<Rightarrow> bytes \<Rightarrow> (receiver \<times> disk \<times> stream) \<times> unit res" where
  "process_chunk B rc d s data =
     (case check_chunk rc data of
        Panic \<Rightarrow> ((rc, d, s), Panic)
      | Err e \<Rightarrow> ((rc, d, s), Err e)
      | Ok None \<Rightarrow> ((rc, d, s), Ok ())
      | Ok (Some (index, chunk_data, chunk_hash)) \<Rightarrow>
          (case verify_and_write_chunk B rc d index chunk_data chunk_hash of
             ((rc', d'), Ok ack) \<Rightarrow> (case send_ack s ack of (s', r) \<Rightarrow> ((rc', d', s'), r))
           | ((rc', d'), Err e) \<Rightarrow> ((rc', d', s), Err e)
           | ((rc', d'), Panic) \<Rightarrow> ((rc', d', s), Panic)))"

section \<open>The connection loop\<close>

datatype flow = Continue | Break

definition data_iteration ::
  "'h blake3 \<Rightarrow> receiver \<Rightarrow> disk \<Rightarrow> stream \<Rightarrow> (receiver \<times> disk \<times> stream) \<times> flow res" where
  "data_iteration B rc d s =
     (if r_failed rc then ((rc, d, s), Ok Break) else
      case recv_with_timeout s (timeout_for_bytes MAX_PAYLOAD) of
        (s1, Err e) \<Rightarrow> ((rc, d, s1), Ok Break)
      | (s1, Panic) \<Rightarrow> ((rc, d, s1), Panic)
      | (s1, Ok data) \<Rightarrow>
          if data = [] then ((rc, d, s1), Ok Break)
          else if length data = 1 \<and> data ! 0 = QUERY_MAGIC then
            (case handle_query rc s1 of
               (s2, Ok _) \<Rightarrow> ((rc, d, s2), Ok Continue)
             | (s2, Err e) \<Rightarrow> ((rc, d, s2), Err e)
             | (s2, Panic) \<Rightarrow> ((rc, d, s2), Panic))
          else
            (case process_chunk B rc d s1 data of
               (st, Panic) \<Rightarrow> (st, Panic)
             | (st, _) \<Rightarrow> (st, Ok Continue)))"

lemma process_chunk_rx: "process_chunk B rc d s data = ((rc', d', s'), r) \<Longrightarrow> rx s' = rx s"
  using send_timeout_rx
  by (auto simp: process_chunk_def send_ack_def split: res.splits option.splits prod.splits)
    (metis fst_conv send_timeout_rx)+

lemma handle_query_rx: "handle_query rc s = (s', r) \<Longrightarrow> rx s' = rx s"
  by (metis fst_conv handle_query_def send_timeout_rx)

lemma data_iteration_consumes:
  "data_iteration B rc d s = ((rc', d', s'), Ok Continue) \<Longrightarrow> size s' < size s"
  by (auto simp: data_iteration_def split: if_splits prod.splits res.splits
      dest!: process_chunk_rx handle_query_rx recv_with_timeout_consumes)

function data_loop ::
  "'h blake3 \<Rightarrow> receiver \<Rightarrow> disk \<Rightarrow> stream \<Rightarrow> (receiver \<times> disk \<times> stream) \<times> unit res" where
  "data_loop B rc d s =
     (case data_iteration B rc d s of
        ((rc', d', s'), Ok Continue) \<Rightarrow> data_loop B rc' d' s'
      | (st, Ok Break) \<Rightarrow> (st, Ok ())
      | (st, Err e) \<Rightarrow> (st, Err e)
      | (st, Panic) \<Rightarrow> (st, Panic))"
  by pat_completeness auto
termination
  by (relation "measure (\<lambda>(B, rc, d, s). size s)") (auto dest!: data_iteration_consumes [OF sym])

declare data_loop.simps [simp del]

section \<open>What passes the checks\<close>

lemma chunk_header_Panic: "chunk_header data = Panic \<longleftrightarrow> length data < 16"
  by (auto simp: chunk_header_def res_simps)

lemma chunk_header_not_Err: "chunk_header data \<noteq> Err e"
  by (auto simp: chunk_header_def read_u32_def read_u64_def read_bytes_def)

lemma check_chunk_Panic: "check_chunk rc data = Panic \<longleftrightarrow> length data < 16"
  using chunk_header_Panic [of data]
  by (auto simp: check_chunk_def Let_def res_simps CHUNK_HEADER_SIZE_def CHUNK_HASH_SIZE_def split: if_splits)

lemma check_chunk_Some:
  assumes "check_chunk rc data = Ok (Some (i, cd, h))"
  shows "i < r_num_chunks rc" "length cd = expected_chunk_size rc i" "length h = 32"
    and "i = unat (from_be_bytes (take 4 data) :: u32)"
    and "length data \<ge> 48 + length cd" and "cd = take (length cd) (drop 16 data)"
    and "h = take 32 (drop (16 + length cd) data)"
  using assms
  by (auto simp: check_chunk_def chunk_header_def Let_def res_simps CHUNK_HEADER_SIZE_def
      CHUNK_HASH_SIZE_def read_u32_def read_bytes_def split: if_splits)

definition chunk_message :: "usize \<Rightarrow> u64 \<Rightarrow> bytes \<Rightarrow> bytes \<Rightarrow> bytes" where
  "chunk_message index offset data hash =
     to_be_bytes (word_of_nat index :: u32) @ to_be_bytes offset
     @ to_be_bytes (word_of_nat (length data) :: u32) @ data @ hash"

lemma length_chunk_message: "length (chunk_message i off cd h) = 16 + length cd + length h"
  by (simp add: chunk_message_def)

lemma chunk_header_message:
  assumes "i < 2 ^ 32" "length cd < 2 ^ 32"
  shows "chunk_header (chunk_message i off cd h @ junk) = Ok (i, length cd)"
proof -
  let ?d = "chunk_message i off cd h @ junk"
  have "read_u32 ?d 0 = Ok (word_of_nat i)" "read_u64 ?d 4 = Ok off"
    "read_u32 ?d 12 = Ok (word_of_nat (length cd))"
    using length_chunk_message [of i off cd h] by (simp_all add: res_simps chunk_message_def)
  then show ?thesis using assms by (simp add: chunk_header_def unat_u32_of_usize)
qed

lemma check_chunk_message:
  assumes "i < r_num_chunks rc" "r_num_chunks rc \<le> 2 ^ 32" "length cd = expected_chunk_size rc i"
    and "length cd < 2 ^ 32" "length h = 32"
  shows "check_chunk rc (chunk_message i off cd h @ junk) = Ok (Some (i, cd, h))"
proof -
  let ?d = "chunk_message i off cd h @ junk"
  have "chunk_header ?d = Ok (i, length cd)" using assms by (intro chunk_header_message) simp_all
  moreover have "read_bytes ?d 16 (length cd) = Ok cd" "read_bytes ?d (16 + length cd) 32 = Ok h"
    using assms(5) by (simp_all add: read_bytes_def chunk_message_def)
  moreover have "\<not> length ?d < 16 + length cd + 32" using assms(5) by (simp add: length_chunk_message)
  ultimately show ?thesis
    using assms by (simp add: check_chunk_def CHUNK_HEADER_SIZE_def CHUNK_HASH_SIZE_def)
qed

section \<open>The invariant of a transfer\<close>

definition same_transfer :: "receiver \<Rightarrow> receiver \<Rightarrow> bool" where
  "same_transfer rc rc' \<longleftrightarrow> r_filename rc' = r_filename rc \<and> r_file_size rc' = r_file_size rc
     \<and> r_chunk_size rc' = r_chunk_size rc \<and> r_num_chunks rc' = r_num_chunks rc
     \<and> r_full_hash rc' = r_full_hash rc \<and> r_output_dir rc' = r_output_dir rc
     \<and> r_parts_dir rc' = r_parts_dir rc"

definition data_inv :: "'h blake3 \<Rightarrow> receiver \<Rightarrow> disk \<Rightarrow> bool" where
  "data_inv B rc d \<longleftrightarrow> receiver_wf rc \<and> dirs_ok rc \<and> (r_failed rc \<or> parts_match B rc d)"

text \<open>What one operation of a connection may change: the transfer's data stays, received chunks stay
  received, a failure stays, only part and metadata files are written.\<close>

definition data_step_ok :: "receiver \<Rightarrow> disk \<Rightarrow> receiver \<Rightarrow> disk \<Rightarrow> bool" where
  "data_step_ok rc d rc' d' \<longleftrightarrow> same_transfer rc rc' \<and> same_faults d d'
     \<and> (\<forall>i < r_num_chunks rc. received_chunks rc ! i \<longrightarrow> received_chunks rc' ! i)
     \<and> (r_failed rc \<longrightarrow> r_failed rc')
     \<and> (\<forall>q. q \<notin> range (receiver_part rc) \<longrightarrow> q \<noteq> receiver_meta rc
          \<longrightarrow> q \<noteq> tmp_file (r_parts_dir rc) (r_filename rc) \<longrightarrow> files d' q = files d q)"

lemma same_transfer_refl [simp]: "same_transfer rc rc" "same_transfer rc (rc\<lparr>r_failed := b\<rparr>)"
    "same_transfer rc (recorded rc i h)"
  by (simp_all add: same_transfer_def recorded_def)

lemma same_transfer_paths:
  assumes "same_transfer rc rc'"
  shows "receiver_part rc' = receiver_part rc" "receiver_meta rc' = receiver_meta rc"
    "receiver_final rc' = receiver_final rc" "dirs_ok rc' = dirs_ok rc"
    "expected_chunk_size rc' = expected_chunk_size rc"
  using assms
  by (auto simp: same_transfer_def receiver_part_def receiver_meta_def receiver_final_def final_path_def
      dirs_ok_def expected_chunk_size_def Let_def fun_eq_iff)

lemma data_step_ok_refl [simp]: "data_step_ok rc d rc d"
  by (simp add: data_step_ok_def)

lemma data_step_ok_trans:
  assumes "data_step_ok rc d rc1 d1" "data_step_ok rc1 d1 rc2 d2"
  shows "data_step_ok rc d rc2 d2"
proof -
  have s: "same_transfer rc rc1" using assms(1) by (simp add: data_step_ok_def)
  then have "r_num_chunks rc1 = r_num_chunks rc" "r_parts_dir rc1 = r_parts_dir rc" "r_filename rc1 = r_filename rc"
    "same_transfer rc rc2"
    using assms by (auto simp: data_step_ok_def same_transfer_def)
  then show ?thesis
    using assms same_transfer_paths [OF s] same_faults_trans
    by (auto simp: data_step_ok_def simp del: split_paired_All)
qed

lemma data_step_final:
  assumes "data_step_ok rc d rc' d'" "dirs_ok rc"
  shows "files d' (receiver_final rc) = files d (receiver_final rc)"
proof -
  have "receiver_final rc \<notin> range (receiver_part rc)" "receiver_final rc \<noteq> receiver_meta rc"
    "receiver_final rc \<noteq> tmp_file (r_parts_dir rc) (r_filename rc)" using assms(2) by (auto simp: transfer_files)
  then show ?thesis using assms(1) unfolding data_step_ok_def by blast
qed

lemma parts_match_failed [simp]: "parts_match B (rc\<lparr>r_failed := b\<rparr>) d = parts_match B rc d"
  "receiver_wf (rc\<lparr>r_failed := b\<rparr>) = receiver_wf rc" "dirs_ok (rc\<lparr>r_failed := b\<rparr>) = dirs_ok rc"
  by (simp_all add: parts_match_def receiver_part_def receiver_wf_def dirs_ok_def)

lemma fs_write_part_step:
  "fs_write d (receiver_part rc i) bs = (d1, r) \<Longrightarrow> data_step_ok rc d rc d1"
  using fs_ops_same_faults(3) [of d "receiver_part rc i" bs] fs_write_frame [of _ "receiver_part rc i" d bs]
  by (force simp: data_step_ok_def)

lemma keep_flag: "xs ! j \<Longrightarrow> xs[i := True] ! j"
  by (cases "i < length xs") (auto simp: nth_list_update not_less list_update_beyond)

lemma record_chunk_step:
  assumes "dirs_ok rc" "i < length (received_chunks rc)" "record_chunk rc d i h = ((rc', d'), r)"
  shows "data_step_ok rc d rc' d'" "rc' = recorded rc i h" "r \<noteq> Panic"
    "r = Ok () \<longrightarrow> files d' (receiver_meta rc) = Some (meta_to_bytes (r_metadata rc'))"
    "\<And>j. files d' (receiver_part rc j) = files d (receiver_part rc j)"
proof -
  have f: "plain_name (r_filename rc)" using assms(1) by (simp add: dirs_ok_def)
  note st = record_chunk_state [OF assms(3,2)]
  note out = meta_save_outcome [OF f st(2)]
  show rc': "rc' = recorded rc i h" by (rule st(1))
  show "r \<noteq> Panic" using out(4) .
  show "r = Ok () \<longrightarrow> files d' (receiver_meta rc) = Some (meta_to_bytes (r_metadata rc'))"
    using out(1) by (simp add: receiver_paths)
  show "files d' (receiver_part rc j) = files d (receiver_part rc j)" for j
    using out(3) assms(1) by (simp add: transfer_files receiver_paths)
  have "received_chunks rc ! j \<Longrightarrow> received_chunks rc' ! j" for j
    unfolding rc' recorded_def by (simp add: keep_flag)
  then show "data_step_ok rc d rc' d'"
    using rc' out(3,5) by (simp add: data_step_ok_def receiver_paths recorded_def same_transfer_def)
qed

section \<open>Every operation keeps the invariant\<close>

lemma parts_match_recorded:
  assumes "dirs_ok rc" "parts_match B rc d"
    and part: "files d' (receiver_part rc i) = Some bs" "b3_hash B bs = h"
    and other: "\<And>j. j \<noteq> i \<Longrightarrow> files d' (receiver_part rc j) = files d (receiver_part rc j)"
  shows "parts_match B (recorded rc i h) d'"
  using assms
  by (auto simp: parts_match_def recorded_def add_chunk_def receiver_part_def split: if_splits)

text \<open>The ways a verified, hashed chunk is dealt with.\<close>

lemma verify_and_write_cases:
  assumes "verify_and_write_chunk B rc d i bs h = ((rc', d'), r)"
  obtains (mismatch) "calc_hash B bs \<noteq> h" "rc' = rc" "d' = d" "r = Ok ACK_HASH_MISMATCH"
    | (write_failed) e where "fs_write d (receiver_part rc i) bs = (d', Err e)" "rc' = rc\<lparr>r_failed := True\<rparr>" "r = Ok ACK_HASH_MISMATCH"
    | (stored) d1 rc2 r2 where "calc_hash B bs = h" "fs_write d (receiver_part rc i) bs = (d1, Ok ())"
        "record_chunk rc d1 i h = ((rc2, d'), r2)"
        "r2 = Ok () \<and> rc' = rc2 \<and> r = Ok ACK_OK
         \<or> r2 \<noteq> Panic \<and> rc' = rc2\<lparr>r_failed := True\<rparr> \<and> r = Ok ACK_HASH_MISMATCH \<or> r2 = Panic"
proof (cases "calc_hash B bs = h")
  case False
  then have "rc' = rc" "d' = d" "r = Ok ACK_HASH_MISMATCH" using assms by (simp_all add: verify_and_write_chunk_def)
  then show thesis by (rule mismatch [OF False])
next
  case True
  obtain d1 r1 where w: "fs_write d (receiver_part rc i) bs = (d1, r1)" by (cases "fs_write d (receiver_part rc i) bs")
  then show thesis
  proof (cases r1)
    case Panic
    then show ?thesis using fs_write_not_Panic [of d "receiver_part rc i" bs] w by simp
  next
    case (Err e)
    then show ?thesis using write_failed [of e] assms True w by (simp add: verify_and_write_chunk_def receiver_paths)
  next
    case (Ok u)
    obtain rc2 d2 r2 where rec: "record_chunk rc d1 i h = ((rc2, d2), r2)" by (metis surj_pair)
    show ?thesis using stored [OF True, of d1 rc2 r2] assms True w Ok rec
      by (cases r2) (simp_all add: verify_and_write_chunk_def receiver_paths)
  qed
qed

lemma verify_and_write_inv:
  assumes inv: "data_inv B rc d" and i: "i < r_num_chunks rc" "length h = 32"
    and v: "verify_and_write_chunk B rc d i bs h = ((rc', d'), r)"
  shows "data_inv B rc' d' \<and> data_step_ok rc d rc' d' \<and> (\<exists>ack. r = Ok ack)
    \<and> (r = Ok ACK_OK \<longrightarrow> rc' = recorded rc i h \<and> b3_hash B bs = h
         \<and> files d' (receiver_part rc i) = Some bs
         \<and> files d' (receiver_meta rc) = Some (meta_to_bytes (r_metadata rc')))"
proof -
  have wf: "receiver_wf rc" and ok: "dirs_ok rc" using inv by (auto simp: data_inv_def)
  have acks: "ACK_HASH_MISMATCH \<noteq> ACK_OK" by (simp add: ACK_OK_def ACK_HASH_MISMATCH_def)
  from v show ?thesis
  proof (cases rule: verify_and_write_cases)
    case mismatch
    then show ?thesis using inv acks by simp
  next
    case (write_failed e)
    then show ?thesis using wf ok acks fs_write_part_step [OF write_failed(1)] by (simp add: data_inv_def data_step_ok_def)
  next
    case (stored d1 rc2 r2)
    have il: "i < length (received_chunks rc)" using wf i by (simp add: receiver_wf_def)
    note st = record_chunk_step [OF ok il stored(3)]
    have part: "files d' (receiver_part rc i) = Some bs"
      and other: "\<And>j. j \<noteq> i \<Longrightarrow> files d' (receiver_part rc j) = files d (receiver_part rc j)"
      using st(5) ok fs_write_Ok [of d "receiver_part rc i" bs] stored(2) by (simp_all add: transfer_files)
    have hb: "b3_hash B bs = h" using stored(1) by (simp add: calc_hash_def)
    have "r_failed rc \<or> parts_match B rc2 d'"
      using inv parts_match_recorded [OF ok _ part hb other] st(2) by (auto simp: data_inv_def)
    then have inv2: "data_inv B rc2 d'"
      using recorded_wf [OF wf i] st(2) ok by (simp add: data_inv_def recorded_def dirs_ok_def)
    note step2 = data_step_ok_trans [OF fs_write_part_step [OF stored(2)] st(1)]
    from stored(4) st(3) show ?thesis
      using inv2 step2 part hb st(2,4) acks
      by (elim disjE conjE) (simp_all add: data_inv_def data_step_ok_def same_transfer_def)
  qed
qed

lemma process_chunk_inv:
  assumes "data_inv B rc d" "process_chunk B rc d s data = ((rc', d', s'), r)"
  shows "data_inv B rc' d' \<and> data_step_ok rc d rc' d'"
proof (cases "\<exists>i bs h. check_chunk rc data = Ok (Some (i, bs, h))")
  case True
  then obtain i bs h where c: "check_chunk rc data = Ok (Some (i, bs, h))" by blast
  obtain rc1 d1 r1 where v: "verify_and_write_chunk B rc d i bs h = ((rc1, d1), r1)" by (metis surj_pair)
  have "rc' = rc1" "d' = d1"
    using assms(2) c v by (auto simp: process_chunk_def split: res.splits prod.splits)
  then show ?thesis using verify_and_write_inv [OF assms(1) check_chunk_Some(1,3) [OF c] v] by simp
next
  case False
  then show ?thesis using assms by (auto simp: process_chunk_def split: res.splits option.splits)
qed

lemma data_iteration_inv:
  assumes "data_inv B rc d" "data_iteration B rc d s = ((rc', d', s'), r)"
  shows "data_inv B rc' d' \<and> data_step_ok rc d rc' d'"
  using assms process_chunk_inv [OF assms(1)]
  by (auto simp: data_iteration_def split: if_splits prod.splits res.splits)

lemma data_loop_inv:
  "data_inv B rc d \<Longrightarrow> data_loop B rc d s = ((rc', d', s'), r) \<Longrightarrow>
     data_inv B rc' d' \<and> data_step_ok rc d rc' d'"
proof (induction B rc d s arbitrary: rc' d' s' r rule: data_loop.induct)
  case (1 B rc d s)
  obtain rc1 d1 s1 r1 where it: "data_iteration B rc d s = ((rc1, d1, s1), r1)" by (metis surj_pair)
  have inv: "data_inv B rc1 d1" "data_step_ok rc d rc1 d1"
    using data_iteration_inv [OF "1.prems"(1) it] by simp_all
  show ?case
  proof (cases "r1 = Ok Continue")
    case True
    then have "data_loop B rc1 d1 s1 = ((rc', d', s'), r)"
      using "1.prems"(2) it by (simp add: data_loop.simps [of B rc d s])
    with "1.IH" [OF it [symmetric] refl refl True refl inv(1)] show ?thesis
      using data_step_ok_trans [OF inv(2)] by blast
  next
    case False
    then show ?thesis
      using "1.prems"(2) it inv by (auto simp: data_loop.simps [of B rc d s] split: res.splits flow.splits)
  qed
qed

section \<open>Acknowledged chunks, accepted chunks, rejected chunks\<close>

text \<open>On a disk that works a valid chunk message is stored, recorded and acknowledged.\<close>

lemma verify_and_write_healthy:
  assumes inv: "data_inv B rc d" and hl: "\<And>p. healthy d p" and i: "i < r_num_chunks rc"
  shows "\<exists>d'. verify_and_write_chunk B rc d i bs (b3_hash B bs)
       = ((recorded rc i (b3_hash B bs), d'), Ok ACK_OK)"
proof -
  let ?h = "b3_hash B bs" and ?p = "receiver_part rc i"
  have wf: "receiver_wf rc" and f: "plain_name (r_filename rc)"
    using inv by (auto simp: data_inv_def dirs_ok_def)
  have il: "i < length (received_chunks rc)" using wf i by (simp add: receiver_wf_def)
  let ?d1 = "d\<lparr>files := (files d)(?p \<mapsto> bs)\<rparr>"
  have w: "fs_write d ?p bs = (?d1, Ok ())" using hl by (simp add: fs_write_healthy)
  have "healthy ?d1 p" for p using hl same_faults_healthy [OF same_faults_update] by blast
  from meta_save_healthy [OF f this] obtain d2 where
    "meta_save (r_metadata (recorded rc i ?h)) ?d1 (r_parts_dir rc) (r_filename rc) = (d2, Ok ())" by blast
  then have "record_chunk rc ?d1 i ?h = ((recorded rc i ?h, d2), Ok ())"
    using il by (simp add: record_chunk_def set_at_def recorded_def Let_def)
  then show ?thesis
    using w by (simp add: verify_and_write_chunk_def calc_hash_def receiver_paths)
qed

lemma process_chunk_accepts:
  assumes inv: "data_inv B rc d" and hl: "\<And>p. healthy d p" and i: "i < r_num_chunks rc"
    and sz: "length bs = expected_chunk_size rc i" "length bs < 2 ^ 32" and B: "blake3_ok B"
    and tx: "tx_limit s = None" "tx_delays s = []"
  shows "\<exists>d'. process_chunk B rc d s (chunk_message i off bs (b3_hash B bs) @ junk)
     = ((recorded rc i (b3_hash B bs), d', s\<lparr>tx := tx s @ frame_bytes [ACK_OK]\<rparr>), Ok ())"
proof -
  have n: "r_num_chunks rc \<le> 2 ^ 32" using inv by (simp only: data_inv_def receiver_wf_def) linarith
  have "length (b3_hash B bs) = 32" using B by (simp add: blake3_ok_def)
  from check_chunk_message [OF i n sz this, of off junk] verify_and_write_healthy [OF inv hl i, of bs]
  show ?thesis
    using tx by (auto simp: process_chunk_def send_ack_def send_timeout_def send_within_plain send_frame)
qed

lemma process_chunk_short: "length data < 16 \<Longrightarrow> process_chunk B rc d s data = ((rc, d, s), Panic)"
  using check_chunk_Panic [of rc data] by (simp add: process_chunk_def)

lemma send_timeout_not_Panic: "snd (send_timeout s d) \<noteq> Panic"
  by (auto simp: send_timeout_def send_within_def send_frame write_all_def split: list.splits option.splits)

lemma process_chunk_Panic:
  assumes "data_inv B rc d"
  shows "snd (process_chunk B rc d s data) = Panic \<longleftrightarrow> length data < 16"
proof (cases "length data < 16")
  case True
  then show ?thesis by (simp add: process_chunk_short)
next
  case False
  then have c: "check_chunk rc data \<noteq> Panic" by (simp add: check_chunk_Panic)
  show ?thesis
  proof (cases "\<exists>i bs h. check_chunk rc data = Ok (Some (i, bs, h))")
    case True
    then obtain i bs h where cc: "check_chunk rc data = Ok (Some (i, bs, h))" by blast
    obtain rc1 d1 r1 where v: "verify_and_write_chunk B rc d i bs h = ((rc1, d1), r1)" by (metis surj_pair)
    obtain ack where "r1 = Ok ack"
      using verify_and_write_inv [OF assms check_chunk_Some(1,3) [OF cc] v] by blast
    then show ?thesis
      using False cc v send_timeout_not_Panic [of s "[ack]"]
      by (auto simp: process_chunk_def send_ack_def split: prod.splits)
  next
    case none: False
    then show ?thesis using False c by (auto simp: process_chunk_def split: res.splits option.splits)
  qed
qed

section \<open>Properties\<close>

lemma ex_data_inv: "data_inv toy_blake3 ex_receiver empty_disk"
  using ex_receiver_ok by (simp add: data_inv_def parts_match_def ex_receiver_def receiver_new_def meta_new_def)

text \<open>C6: A whole data connection with an arbitrary, possibly hostile peer keeps the transfer sound: the
  receiver stays well-formed, every chunk recorded as received has its part file on disk with the
  recorded hash (unless the transfer is marked failed), received chunks and failures are never
  forgotten, and no file outside the transfer's own parts and metadata changes.\<close>

theorem data_connection_safe:
  assumes "data_inv B rc d" "data_loop B rc d s = ((rc', d', s'), r)"
  shows "receiver_wf rc' \<and> (r_failed rc' \<or> parts_match B rc' d') \<and> same_transfer rc rc'
    \<and> (\<forall>i < r_num_chunks rc. received_chunks rc ! i \<longrightarrow> received_chunks rc' ! i)
    \<and> (r_failed rc \<longrightarrow> r_failed rc')
    \<and> (\<forall>q. q \<notin> range (receiver_part rc) \<longrightarrow> q \<noteq> receiver_meta rc
         \<longrightarrow> q \<noteq> tmp_file (r_parts_dir rc) (r_filename rc) \<longrightarrow> files d' q = files d q)"
  using data_loop_inv [OF assms] unfolding data_inv_def data_step_ok_def by blast

definition ex_hostile :: stream where
  "ex_hostile = stream_of (frame_bytes (replicate 60 255) @ frame_bytes (chunk_message 1 2 [3] (b3_hash toy_blake3 [3])))"

lemma data_connection_safe_witness:
  "\<exists>rc' d'. fst (data_loop toy_blake3 ex_receiver empty_disk ex_hostile) = (rc', d', snd (snd (fst (data_loop toy_blake3 ex_receiver empty_disk ex_hostile))))
     \<and> received_chunks rc' = [False, True] \<and> parts_match toy_blake3 rc' d'"
proof -
  let ?X = "data_loop toy_blake3 ex_receiver empty_disk ex_hostile"
  obtain rc' d' s' r where x: "?X = ((rc', d', s'), r)" by (metis surj_pair)
  have "received_chunks (fst (fst ?X)) = [False, True]" "\<not> r_failed (fst (fst ?X))" by code_simp+
  then show ?thesis using data_connection_safe [OF ex_data_inv x] x by simp
qed



text \<open>A chunk of the promised size and hash is always accepted on a disk that works: it is recorded
  and acknowledged with \<open>ACK_OK\<close>.\<close>

theorem valid_chunk_acknowledged:
  assumes "data_inv B rc d" "\<And>p. healthy d p" "i < r_num_chunks rc"
    and "length bs = expected_chunk_size rc i" "length bs < 2 ^ 32" "blake3_ok B"
    and "tx_limit s = None" "tx_delays s = []"
  shows "\<exists>d'. process_chunk B rc d s (chunk_message i off bs (b3_hash B bs) @ junk)
     = ((recorded rc i (b3_hash B bs), d', s\<lparr>tx := tx s @ frame_bytes [ACK_OK]\<rparr>), Ok ())"
  using assms by (rule process_chunk_accepts)

lemma valid_chunk_acknowledged_witness:
  "\<exists>d'. process_chunk toy_blake3 ex_receiver empty_disk (stream_of []) (chunk_message 0 0 [1, 2] (b3_hash toy_blake3 [1, 2]) @ [])
     = ((recorded ex_receiver 0 (b3_hash toy_blake3 [1, 2]), d', (stream_of [])\<lparr>tx := tx (stream_of []) @ frame_bytes [ACK_OK]\<rparr>), Ok ())"
proof (rule valid_chunk_acknowledged [OF ex_data_inv empty_disk_healthy(2) _ _ _ toy_blake3_ok])
  show "0 < r_num_chunks ex_receiver" "length [1, 2 :: u8] = expected_chunk_size ex_receiver 0" by code_simp+
qed (simp_all add: stream_of_def)

text \<open>C39: A message of fewer than 16 bytes is the only one that panics the connection's task, and it always
  does: the header is read before the length is checked. A frame of 1 to 15 bytes that is not a query
  ends the data connection with a panic and changes nothing.\<close>

theorem short_message_panics:
  assumes "data_inv B rc d"
  shows "(snd (process_chunk B rc d s data) = Panic \<longleftrightarrow> length data < 16)
    \<and> (\<not> r_failed rc \<longrightarrow> rx_delays s = [] \<longrightarrow> rx s = frame_bytes data @ rest \<longrightarrow> data \<noteq> [] \<longrightarrow> length data < 16
         \<longrightarrow> data \<noteq> [QUERY_MAGIC] \<longrightarrow> data_loop B rc d s = ((rc, d, s\<lparr>rx := rest\<rparr>), Panic))"
proof (intro conjI impI)
  show "snd (process_chunk B rc d s data) = Panic \<longleftrightarrow> length data < 16" by (rule process_chunk_Panic [OF assms])
  assume a: "\<not> r_failed rc" "rx_delays s = []" "rx s = frame_bytes data @ rest" "data \<noteq> []" "length data < 16"
    "data \<noteq> [QUERY_MAGIC]"
  have "recv s = (s\<lparr>rx := rest\<rparr>, Ok data)" using a by (intro recv_frame_bytes) (simp_all add: MAX_PAYLOAD_def)
  moreover have "\<not> (length data = 1 \<and> data ! 0 = QUERY_MAGIC)" using a(6) by (auto simp: length_Suc_conv)
  ultimately have "data_iteration B rc d s = ((rc, d, s\<lparr>rx := rest\<rparr>), Panic)"
    using a process_chunk_short [OF a(5), of B rc d "s\<lparr>rx := rest\<rparr>"] by (auto simp: data_iteration_def recv_with_timeout_def)
  then show "data_loop B rc d s = ((rc, d, s\<lparr>rx := rest\<rparr>), Panic)" by (simp add: data_loop.simps [of B rc d s])
qed

lemma short_message_panics_witness:
  "data_loop toy_blake3 ex_receiver empty_disk (stream_of (frame_bytes [0, 0])) =
     ((ex_receiver, empty_disk, (stream_of (frame_bytes [0, 0]))\<lparr>rx := []\<rparr>), Panic)"
  using short_message_panics [OF ex_data_inv, of "stream_of (frame_bytes [0, 0])" "[0, 0]" "[]"]
  by (simp add: stream_of_def ex_receiver_def receiver_new_def)

end
