(* ===== verification/Transitions.thy ===== *)
theory Transitions
  imports Main
begin

text \<open>
  Reachability in a step relation, and the contract of an inductive invariant: it holds initially
  and every step keeps it. The concurrent parts of the server (port pool and registry, data
  connections of one transfer, the accept loop, the life of a server) interpret \<open>invariant_system\<close> on their steps.
\<close>

inductive reach :: "('s \<Rightarrow> bool) \<Rightarrow> ('s \<Rightarrow> 's \<Rightarrow> bool) \<Rightarrow> 's \<Rightarrow> bool"
  for init :: "'s \<Rightarrow> bool" and step :: "'s \<Rightarrow> 's \<Rightarrow> bool" where
  start [intro]: "init s \<Longrightarrow> reach init step s"
| move [intro]: "reach init step s \<Longrightarrow> step s t \<Longrightarrow> reach init step t"

locale invariant_system =
  fixes init :: "'s \<Rightarrow> bool" and step :: "'s \<Rightarrow> 's \<Rightarrow> bool" and inv :: "'s \<Rightarrow> bool"
  assumes init_inv: "init s \<Longrightarrow> inv s"
    and step_inv: "inv s \<Longrightarrow> step s t \<Longrightarrow> inv t"
begin

lemma reach_inv: "reach init step s \<Longrightarrow> inv s"
  by (induction rule: reach.induct) (auto intro: init_inv step_inv)

lemma reach_implies: "reach init step s \<Longrightarrow> (\<And>t. inv t \<Longrightarrow> P t) \<Longrightarrow> P s"
  using reach_inv by blast

end

text \<open>A forward simulation: every step of the detailed system is a step of the abstract one, or none.\<close>

locale simulation =
  fixes init :: "'s \<Rightarrow> bool" and step :: "'s \<Rightarrow> 's \<Rightarrow> bool"
    and ainit :: "'a \<Rightarrow> bool" and astep :: "'a \<Rightarrow> 'a \<Rightarrow> bool" and rel :: "'s \<Rightarrow> 'a \<Rightarrow> bool"
  assumes init_sim: "init s \<Longrightarrow> \<exists>a. ainit a \<and> rel s a"
    and step_sim: "rel s a \<Longrightarrow> step s t \<Longrightarrow> \<exists>a'. (a' = a \<or> astep a a') \<and> rel t a'"
begin

lemma reach_sim: "reach init step s \<Longrightarrow> \<exists>a. reach ainit astep a \<and> rel s a"
proof (induction rule: reach.induct)
  case (start s)
  then show ?case using init_sim by blast
next
  case (move s t)
  then show ?case using step_sim by blast
qed

end

lemma reach_trans:
  "reach init step s \<Longrightarrow> step\<^sup>*\<^sup>* s t \<Longrightarrow> reach init step t"
  by (rotate_tac, induction rule: rtranclp_induct) auto

end
