(* ===== verification/Interleaving.thy ===== *)
theory Interleaving
  imports Data_Handler Transitions
begin

text \<open>
  Several data connections of one transfer at work at the same time.

  The tasks run on several threads and share the receiver behind a mutex. \<open>verify_and_write_chunk\<close>
  takes the lock to read the part path, writes the file without it, and takes it again to record the
  chunk, so other connections run in between. Here a connection that handles a chunk message goes
  through these phases as separate steps, and the steps of all connections interleave. The checks
  before the hash read only fields of the receiver that never change, so they are one step.

  The abstract counterpart is a store that maps a chunk index to the stored bytes.
\<close>

section \<open>The steps\<close>

datatype phase = Idle | Checked usize bytes bytes | Written usize bytes bytes

record conns =
  c_rc :: receiver
  c_disk :: disk
  c_tasks :: "phase list"

definition conns_start :: "receiver \<Rightarrow> disk \<Rightarrow> nat \<Rightarrow> conns" where
  "conns_start rc d n = \<lparr>c_rc = rc, c_disk = d, c_tasks = replicate n Idle\<rparr>"

inductive conn_step :: "'h blake3 \<Rightarrow> conns \<Rightarrow> conns \<Rightarrow> bool" for B :: "'h blake3" where
  checks: "conn_step B s (s\<lparr>c_tasks := (c_tasks s)[k := Checked i bs h]\<rparr>)"
    if "k < length (c_tasks s)" and "c_tasks s ! k = Idle"
    and "check_chunk (c_rc s) data = Ok (Some (i, bs, h))" and "calc_hash B bs = h"
| writes: "conn_step B s (s\<lparr>c_disk := d', c_tasks := (c_tasks s)[k := Written i bs h]\<rparr>)"
    if "k < length (c_tasks s)" and "c_tasks s ! k = Checked i bs h"
    and "fs_write (c_disk s) (path_of (receiver_part_path (c_rc s) i)) bs = (d', Ok ())"
| write_fails: "conn_step B s (s\<lparr>c_rc := (c_rc s)\<lparr>r_failed := True\<rparr>, c_disk := d', c_tasks := (c_tasks s)[k := Idle]\<rparr>)"
    if "k < length (c_tasks s)" and "c_tasks s ! k = Checked i bs h"
    and "fs_write (c_disk s) (path_of (receiver_part_path (c_rc s) i)) bs = (d', Err e)"
| records: "conn_step B s (s\<lparr>c_rc := rc', c_disk := d', c_tasks := (c_tasks s)[k := Idle]\<rparr>)"
    if "k < length (c_tasks s)" and "c_tasks s ! k = Written i bs h"
    and "record_chunk (c_rc s) (c_disk s) i h = ((rc', d'), Ok ())"
| record_fails: "conn_step B s (s\<lparr>c_rc := rc'\<lparr>r_failed := True\<rparr>, c_disk := d', c_tasks := (c_tasks s)[k := Idle]\<rparr>)"
    if "k < length (c_tasks s)" and "c_tasks s ! k = Written i bs h"
    and "record_chunk (c_rc s) (c_disk s) i h = ((rc', d'), Err e)"

fun in_flight :: "phase \<Rightarrow> usize option" where
  "in_flight Idle = None"
| "in_flight (Checked i bs h) = Some i"
| "in_flight (Written i bs h) = Some i"

text \<open>No two connections handle the same chunk.\<close>

definition apart_chunks :: "phase list \<Rightarrow> bool" where
  "apart_chunks ts \<longleftrightarrow>
     (\<forall>k < length ts. \<forall>l < length ts. k \<noteq> l \<longrightarrow> in_flight (ts ! k) = None \<or> in_flight (ts ! k) \<noteq> in_flight (ts ! l))"

definition apart_step :: "'h blake3 \<Rightarrow> conns \<Rightarrow> conns \<Rightarrow> bool" where
  "apart_step B s t \<longleftrightarrow> conn_step B s t \<and> apart_chunks (c_tasks t)"

section \<open>The abstract store\<close>

definition stored :: "receiver \<Rightarrow> disk \<Rightarrow> usize \<rightharpoonup> bytes" where
  "stored rc d i = (if chunk_hashes (r_metadata rc) i = None then None else files d (receiver_part rc i))"

text \<open>One chunk of the size the transfer expects is put into the store.\<close>

definition store_step :: "receiver \<Rightarrow> (usize \<rightharpoonup> bytes) \<Rightarrow> (usize \<rightharpoonup> bytes) \<Rightarrow> bool" where
  "store_step rc m m' \<longleftrightarrow>
     (\<exists>i bs. i < r_num_chunks rc \<and> length bs = expected_chunk_size rc i \<and> m' = m(i \<mapsto> bs))"

section \<open>The simulation\<close>

fun task_ok :: "'h blake3 \<Rightarrow> receiver \<Rightarrow> phase \<Rightarrow> bool" where
  "task_ok B rc Idle = True"
| "task_ok B rc (Checked i bs h) \<longleftrightarrow>
     i < r_num_chunks rc \<and> length bs = expected_chunk_size rc i \<and> b3_hash B bs = h \<and> length h = 32"
| "task_ok B rc (Written i bs h) \<longleftrightarrow>
     i < r_num_chunks rc \<and> length bs = expected_chunk_size rc i \<and> b3_hash B bs = h \<and> length h = 32"

definition writing :: "phase list \<Rightarrow> usize set" where
  "writing ts = {i. \<exists>bs h. Written i bs h \<in> set ts}"

text \<open>The store holds the content of every recorded chunk; a part file that is written and not yet
  recorded may be ahead of the store.\<close>

definition agrees :: "'h blake3 \<Rightarrow> receiver \<Rightarrow> disk \<Rightarrow> phase list \<Rightarrow> (usize \<rightharpoonup> bytes) \<Rightarrow> bool" where
  "agrees B rc d ts m \<longleftrightarrow> dom m = dom (chunk_hashes (r_metadata rc))
     \<and> (\<forall>i bs. m i = Some bs \<longrightarrow> chunk_hashes (r_metadata rc) i = Some (b3_hash B bs)
          \<and> (i \<notin> writing ts \<longrightarrow> files d (receiver_part rc i) = Some bs))
     \<and> (\<forall>i bs h. Written i bs h \<in> set ts \<longrightarrow> files d (receiver_part rc i) = Some bs)"

definition conns_ok :: "'h blake3 \<Rightarrow> receiver \<Rightarrow> conns \<Rightarrow> bool" where
  "conns_ok B rc0 s \<longleftrightarrow> receiver_wf (c_rc s) \<and> dirs_ok (c_rc s) \<and> same_transfer rc0 (c_rc s)
     \<and> apart_chunks (c_tasks s) \<and> list_all (task_ok B rc0) (c_tasks s)"

definition conns_rel :: "'h blake3 \<Rightarrow> receiver \<Rightarrow> conns \<Rightarrow> (usize \<rightharpoonup> bytes) \<Rightarrow> bool" where
  "conns_rel B rc0 s m \<longleftrightarrow> conns_ok B rc0 s
     \<and> (r_failed (c_rc s) \<or> agrees B (c_rc s) (c_disk s) (c_tasks s) m)"

lemma nth_list_update_if: "xs[k := y] ! l = (if l = k \<and> k < length xs then y else xs ! l)"
  by (cases "k < length xs") (simp_all add: nth_list_update list_update_beyond)

lemma set_list_update: "x \<in> set (xs[k := y]) \<Longrightarrow> x = y \<or> x \<in> set xs"
  using set_update_subset_insert [of xs k y] by blast

lemma list_all_update: "list_all P xs \<Longrightarrow> P y \<Longrightarrow> list_all P (xs[k := y])"
  by (auto simp: list_all_iff dest: set_list_update)

lemma task_ok_same: "same_transfer rc0 rc \<Longrightarrow> task_ok B rc = task_ok B rc0"
proof (intro ext)
  fix p
  assume "same_transfer rc0 rc"
  then show "task_ok B rc p = task_ok B rc0 p"
    using same_transfer_paths(5) [of rc0 rc] by (cases p) (simp_all add: same_transfer_def)
qed

lemma apart_idle: "apart_chunks ts \<Longrightarrow> apart_chunks (ts[k := Idle])"
  unfolding apart_chunks_def by (auto simp: nth_list_update_if split: if_splits)

lemma apart_same_index:
  assumes "apart_chunks ts" "k < length ts" "in_flight p = in_flight (ts ! k)"
  shows "apart_chunks (ts[k := p])"
  using assms unfolding apart_chunks_def by (auto simp: nth_list_update_if split: if_splits)

text \<open>Under \<open>apart_chunks\<close> a task is the only one at its chunk.\<close>

lemma apart_unique:
  assumes "apart_chunks ts" "k < length ts" "in_flight (ts ! k) = Some i" "q \<in> set ts" "in_flight q = Some i"
  shows "q = ts ! k"
proof -
  obtain l where l: "l < length ts" "ts ! l = q" using assms(4) by (metis in_set_conv_nth)
  then have "l = k" using assms unfolding apart_chunks_def by (metis option.distinct(1))
  then show ?thesis using l by simp
qed

lemma set_update_other: "k < length xs \<Longrightarrow> q \<noteq> xs ! k \<Longrightarrow> q \<noteq> y \<Longrightarrow> q \<in> set (xs[k := y]) \<longleftrightarrow> q \<in> set xs"
  by (auto simp: in_set_conv_nth nth_list_update_if)

lemma writing_other:
  assumes "k < length ts" "in_flight (ts ! k) = None \<or> in_flight (ts ! k) = Some i"
    and "in_flight p = None \<or> in_flight p = Some i" "j \<noteq> i"
  shows "j \<in> writing (ts[k := p]) \<longleftrightarrow> j \<in> writing ts"
proof -
  have "Written j bs h \<in> set (ts[k := p]) \<longleftrightarrow> Written j bs h \<in> set ts" for bs h
  proof (rule set_update_other [OF assms(1)])
    show "Written j bs h \<noteq> ts ! k" "Written j bs h \<noteq> p"
      using assms(2-4) by (metis in_flight.simps(3) option.distinct(1) option.inject)+
  qed
  then show ?thesis by (simp add: writing_def)
qed

lemma agrees_checks:
  assumes "agrees B rc d ts m" "k < length ts" "ts ! k = Idle"
  shows "agrees B rc d (ts[k := Checked i bs h]) m"
proof -
  have "Written j cs g \<in> set (ts[k := Checked i bs h]) \<longleftrightarrow> Written j cs g \<in> set ts" for j cs g
    using assms(2,3) by (intro set_update_other) auto
  then show ?thesis using assms(1) by (simp add: agrees_def writing_def)
qed

lemma agrees_writes:
  assumes a: "agrees B rc d ts m" and ap: "apart_chunks ts" and k: "k < length ts" "ts ! k = Checked i bs h"
    and ok: "dirs_ok rc" and w: "fs_write d (receiver_part rc i) bs = (d', Ok ())"
  shows "agrees B rc d' (ts[k := Written i bs h]) m"
proof -
  let ?ts = "ts[k := Written i bs h]"
  have part: "files d' (receiver_part rc j) = (if j = i then Some bs else files d (receiver_part rc j))" for j
    using fs_write_Ok [of d "receiver_part rc i" bs] w ok by (simp add: transfer_files)
  have wr: "j \<in> writing ?ts \<longleftrightarrow> j = i \<or> j \<in> writing ts" for j
  proof (cases "j = i")
    case True
    have "Written i bs h \<in> set ?ts" using k(1) by (rule set_update_memI)
    then show ?thesis using True by (auto simp: writing_def)
  next
    case False
    then show ?thesis using writing_other [OF k(1), of i "Written i bs h" j] k(2) by simp
  qed
  have other: "j \<noteq> i" if "Written j cs g \<in> set ts" for j cs g
    using apart_unique [OF ap k(1), of i "Written j cs g"] that k(2) by auto
  have "files d' (receiver_part rc j) = Some cs" if "Written j cs g \<in> set ?ts" for j cs g
    using set_list_update [OF that] a part [of j] other [of j cs g] unfolding agrees_def by fastforce
  moreover have "files d' (receiver_part rc j) = Some cs" if "m j = Some cs" "j \<notin> writing ?ts" for j cs
    using that a part [of j] wr [of j] by (simp add: agrees_def)
  ultimately show ?thesis using a unfolding agrees_def by blast
qed

lemma agrees_records:
  assumes a: "agrees B rc d ts m" and ap: "apart_chunks ts" and k: "k < length ts" "ts ! k = Written i bs h"
    and h: "b3_hash B bs = h"
    and parts: "\<And>j. files d' (receiver_part rc j) = files d (receiver_part rc j)"
  shows "agrees B (recorded rc i h) d' (ts[k := Idle]) (m(i \<mapsto> bs))"
proof -
  let ?ts = "ts[k := Idle]"
  have rp: "receiver_part (recorded rc i h) = receiver_part rc" using same_transfer_paths(1) same_transfer_refl(3) by metis
  have ch: "chunk_hashes (r_metadata (recorded rc i h)) = (chunk_hashes (r_metadata rc))(i \<mapsto> h)"
    by (simp add: recorded_def add_chunk_def)
  have "Written i bs h \<in> set ts" using k by (metis nth_mem)
  then have bs: "files d (receiver_part rc i) = Some bs" using a unfolding agrees_def by blast
  have wr: "j \<in> writing ?ts \<longleftrightarrow> j \<in> writing ts" if "j \<noteq> i" for j
    using writing_other [OF k(1), of i Idle j] k(2) that by simp
  have "files d' (receiver_part rc j) = Some cs" if "Written j cs g \<in> set ?ts" for j cs g
    using set_list_update [OF that] a parts [of j] unfolding agrees_def by fastforce
  then show ?thesis using a bs h wr parts unfolding agrees_def rp ch by auto
qed

text \<open>What recording a written chunk leaves, whether or not the metadata is saved.\<close>

lemma written_recorded:
  assumes r: "conns_rel B rc0 s m" and k: "k < length (c_tasks s)" "c_tasks s ! k = Written i bs h"
    and rec: "record_chunk (c_rc s) (c_disk s) i h = ((rc', d'), u)"
  shows "rc' = recorded (c_rc s) i h" "receiver_wf rc'" "dirs_ok rc'" "same_transfer rc0 rc'"
    and "list_all (task_ok B rc0) ((c_tasks s)[k := Idle])"
    and "i < r_num_chunks rc0" "length bs = expected_chunk_size rc0 i" "b3_hash B bs = h"
    and "\<And>j. files d' (receiver_part (c_rc s) j) = files (c_disk s) (receiver_part (c_rc s) j)"
proof -
  let ?rc = "c_rc s"
  have wf: "receiver_wf ?rc" and ok: "dirs_ok ?rc" and same: "same_transfer rc0 ?rc"
    and all: "list_all (task_ok B rc0) (c_tasks s)" using r by (simp_all add: conns_rel_def conns_ok_def)
  have n: "r_num_chunks ?rc = r_num_chunks rc0" using same by (simp add: same_transfer_def)
  have "task_ok B rc0 (c_tasks s ! k)" using all k(1) by (simp add: list_all_length)
  then have ti: "i < r_num_chunks rc0" "length bs = expected_chunk_size rc0 i" "b3_hash B bs = h" "length h = 32"
    using k(2) by simp_all
  then have il: "i < length (received_chunks ?rc)" using wf n by (simp add: receiver_wf_def)
  note rs = record_chunk_step [OF ok il rec]
  show rc': "rc' = recorded ?rc i h" by (rule rs(2))
  show "receiver_wf rc'" "dirs_ok rc'" "same_transfer rc0 rc'"
    using recorded_wf [OF wf] ti(1,4) n ok same rc' by (simp_all add: recorded_def dirs_ok_def same_transfer_def)
  show "list_all (task_ok B rc0) ((c_tasks s)[k := Idle])" using list_all_update [OF all] by simp
  show "i < r_num_chunks rc0" "length bs = expected_chunk_size rc0 i" "b3_hash B bs = h" by (rule ti)+
  show "files d' (receiver_part (c_rc s) j) = files (c_disk s) (receiver_part (c_rc s) j)" for j by (rule rs(5))
qed

text \<open>A step of one task that leaves the receiver as it is, or fails it.\<close>

lemma conns_rel_moves:
  assumes r: "conns_rel B rc0 s m" and t: "c_tasks t = (c_tasks s)[k := q]" "apart_chunks (c_tasks t)" and q: "task_ok B rc0 q"
    and rc: "c_rc t = c_rc s \<and> (r_failed (c_rc s) \<or> agrees B (c_rc s) (c_disk t) (c_tasks t) m) \<or> c_rc t = c_rc s\<lparr>r_failed := True\<rparr>"
  shows "conns_rel B rc0 t m"
proof -
  have "list_all (task_ok B rc0) (c_tasks t)" using list_all_update [of "task_ok B rc0" "c_tasks s" q k] r q t(1)
    by (simp add: conns_rel_def conns_ok_def)
  moreover have "receiver_wf (c_rc s)" "dirs_ok (c_rc s)" "same_transfer rc0 (c_rc s)"
    using r by (simp_all add: conns_rel_def conns_ok_def)
  ultimately show ?thesis using t(2) rc
    by (elim disjE conjE) (simp_all add: conns_rel_def conns_ok_def same_transfer_def)
qed

lemma conns_rel_records:
  assumes r: "conns_rel B rc0 s m" and k: "k < length (c_tasks s)" "c_tasks s ! k = Written i bs h"
    and rec: "record_chunk (c_rc s) (c_disk s) i h = ((rc', d'), u)" and ap: "apart_chunks ((c_tasks s)[k := Idle])"
  shows "conns_rel B rc0 (s\<lparr>c_rc := rc', c_disk := d', c_tasks := (c_tasks s)[k := Idle]\<rparr>) (m(i \<mapsto> bs))"
    and "conns_rel B rc0 (s\<lparr>c_rc := rc'\<lparr>r_failed := True\<rparr>, c_disk := d', c_tasks := (c_tasks s)[k := Idle]\<rparr>) m"
    and "store_step rc0 m (m(i \<mapsto> bs))"
proof -
  note wr = written_recorded [OF r k rec]
  have "r_failed rc' \<or> agrees B rc' d' ((c_tasks s)[k := Idle]) (m(i \<mapsto> bs))"
  proof (cases "r_failed (c_rc s)")
    case False
    then have "agrees B (c_rc s) (c_disk s) (c_tasks s) m" "apart_chunks (c_tasks s)"
      using r by (simp_all add: conns_rel_def conns_ok_def)
    from agrees_records [OF this k wr(8), of d'] wr(9) show ?thesis by (simp add: wr(1))
  qed (use wr(1) in \<open>simp add: recorded_def\<close>)
  then show "conns_rel B rc0 (s\<lparr>c_rc := rc', c_disk := d', c_tasks := (c_tasks s)[k := Idle]\<rparr>) (m(i \<mapsto> bs))"
    and "conns_rel B rc0 (s\<lparr>c_rc := rc'\<lparr>r_failed := True\<rparr>, c_disk := d', c_tasks := (c_tasks s)[k := Idle]\<rparr>) m"
    using wr(2-5) ap by (simp_all add: conns_rel_def conns_ok_def same_transfer_def)
  show "store_step rc0 m (m(i \<mapsto> bs))" using wr(6,7) by (auto simp: store_step_def)
qed

lemma conns_rel_step:
  assumes r: "conns_rel B rc0 s m" and st: "apart_step B s t"
  shows "\<exists>m'. (m' = m \<or> store_step rc0 m m') \<and> conns_rel B rc0 t m'"
proof -
  let ?rc = "c_rc s" and ?d = "c_disk s" and ?ts = "c_tasks s"
  have ok: "dirs_ok ?rc" and same: "same_transfer rc0 ?rc" and ap: "apart_chunks ?ts"
    and tk: "\<And>k. k < length ?ts \<Longrightarrow> task_ok B rc0 (?ts ! k)" and ag: "r_failed ?rc \<or> agrees B ?rc ?d ?ts m"
    using r by (simp_all add: conns_rel_def conns_ok_def list_all_length)
  have ap': "apart_chunks (c_tasks t)" and "conn_step B s t" using st by (simp_all add: apart_step_def)
  from \<open>conn_step B s t\<close> show ?thesis
  proof cases
    case (checks k data i bs h)
    note c = check_chunk_Some [OF checks(4)]
    have "task_ok B rc0 (Checked i bs h)" using c(1-3) checks(5) by (simp add: calc_hash_def flip: task_ok_same [OF same])
    moreover have "r_failed ?rc \<or> agrees B ?rc ?d (c_tasks t) m"
      using ag agrees_checks [of B ?rc ?d ?ts m, OF _ checks(2,3)] checks(1) by auto
    ultimately have "conns_rel B rc0 t m" using conns_rel_moves [OF r _ ap', of k "Checked i bs h"] checks(1) by simp
    then show ?thesis by blast
  next
    case (writes k i bs h d')
    have w: "fs_write ?d (receiver_part ?rc i) bs = (d', Ok ())" using writes(4) by (simp add: receiver_paths)
    have "task_ok B rc0 (Written i bs h)" using tk [OF writes(2)] writes(3) by simp
    moreover have "r_failed ?rc \<or> agrees B ?rc d' (c_tasks t) m"
      using ag agrees_writes [of B ?rc ?d ?ts m, OF _ ap writes(2,3) ok w] writes(1) by auto
    ultimately have "conns_rel B rc0 t m" using conns_rel_moves [OF r _ ap', of k "Written i bs h"] writes(1) by simp
    then show ?thesis by blast
  next
    case (write_fails k i bs h d' e)
    then have "conns_rel B rc0 t m" using conns_rel_moves [OF r _ ap', of k Idle] by simp
    then show ?thesis by blast
  next
    case (records k i bs h rc' d')
    then show ?thesis using conns_rel_records(1,3) [OF r records(2-4)] ap' by auto
  next
    case (record_fails k i bs h rc' d' e)
    then show ?thesis using conns_rel_records(2) [OF r record_fails(2-4)] ap' by auto
  qed
qed

definition conns_init :: "'h blake3 \<Rightarrow> receiver \<Rightarrow> disk \<Rightarrow> conns \<Rightarrow> bool" where
  "conns_init B rc0 d0 s \<longleftrightarrow> data_inv B rc0 d0 \<and> \<not> r_failed rc0 \<and> (\<exists>n. s = conns_start rc0 d0 n)"

lemma conns_rel_init:
  assumes "conns_init B rc0 d0 s"
  shows "conns_rel B rc0 s (stored rc0 d0)"
proof -
  obtain n where s: "s = conns_start rc0 d0 n" and inv: "data_inv B rc0 d0" "\<not> r_failed rc0"
    using assms by (auto simp: conns_init_def)
  have "parts_match B rc0 d0" using inv by (simp add: data_inv_def)
  then have "agrees B rc0 d0 (replicate n Idle) (stored rc0 d0)"
    by (fastforce simp: agrees_def stored_def parts_match_def writing_def split: if_splits)
  moreover have "apart_chunks (replicate n Idle)" by (simp add: apart_chunks_def)
  ultimately show ?thesis
    using inv s by (simp add: conns_rel_def conns_ok_def conns_start_def data_inv_def list_all_iff)
qed

interpretation conns: simulation "conns_init B rc0 d0" "apart_step B" "\<lambda>m. m = stored rc0 d0" "store_step rc0" "conns_rel B rc0"
  for B :: "'h blake3" and rc0 d0
proof unfold_locales
  show "conns_init B rc0 d0 s \<Longrightarrow> \<exists>m. m = stored rc0 d0 \<and> conns_rel B rc0 s m" for s
    using conns_rel_init by blast
  show "conns_rel B rc0 s m \<Longrightarrow> apart_step B s t \<Longrightarrow> \<exists>m'. (m' = m \<or> store_step rc0 m m') \<and> conns_rel B rc0 t m'" for s t m
    by (rule conns_rel_step)
qed

section \<open>The uninterrupted run\<close>

text \<open>\<open>verify_and_write_chunk\<close> is the run of one connection's steps with no other step in between.\<close>

definition conn_steps :: "'h blake3 \<Rightarrow> conns \<Rightarrow> conns \<Rightarrow> bool" where
  "conn_steps B = (conn_step B)\<^sup>*\<^sup>*"

lemma conn_steps_trans [trans]: "conn_steps B s t \<Longrightarrow> conn_steps B t u \<Longrightarrow> conn_steps B s u"
  unfolding conn_steps_def by (rule rtranclp_trans)

lemma conn_step_steps [intro]: "conn_step B s t \<Longrightarrow> conn_steps B s t"
  unfolding conn_steps_def by (rule r_into_rtranclp)

lemma written_step:
  assumes "k < length (c_tasks s)" "c_tasks s ! k = Written i bs h"
    and "record_chunk (c_rc s) (c_disk s) i h = ((rc', d'), r)" "r \<noteq> Panic"
  shows "conn_step B s (s\<lparr>c_rc := (if r = Ok () then rc' else rc'\<lparr>r_failed := True\<rparr>), c_disk := d', c_tasks := (c_tasks s)[k := Idle]\<rparr>)"
proof (cases r)
  case (Ok u)
  then show ?thesis using conn_step.records [OF assms(1,2), of rc' d' B] assms(3) by simp
next
  case (Err e)
  then show ?thesis using conn_step.record_fails [OF assms(1,2), of rc' d' e B] assms(3) by simp
qed (use assms(4) in simp)

lemma uninterrupted_run:
  assumes inv: "data_inv B (c_rc s) (c_disk s)" and k: "k < length (c_tasks s)" "c_tasks s ! k = Idle"
    and c: "check_chunk (c_rc s) data = Ok (Some (i, bs, h))" and h: "calc_hash B bs = h"
    and v: "verify_and_write_chunk B (c_rc s) (c_disk s) i bs h = ((rc', d'), r)"
  shows "conn_steps B s (s\<lparr>c_rc := rc', c_disk := d'\<rparr>)"
proof -
  let ?ts = "c_tasks s" and ?p = "path_of (receiver_part_path (c_rc s) i)"
  let ?s1 = "s\<lparr>c_tasks := ?ts[k := Checked i bs h]\<rparr>"
  have s1: "conn_step B s ?s1" using conn_step.checks [OF k c h] .
  have keep: "?ts[k := Idle] = ?ts" using k(2) by (metis list_update_id)
  obtain d1 r1 where w: "fs_write (c_disk s) ?p bs = (d1, r1)" by (cases "fs_write (c_disk s) ?p bs")
  show ?thesis
  proof (cases r1)
    case (Ok u)
    let ?s2 = "s\<lparr>c_disk := d1, c_tasks := ?ts[k := Written i bs h]\<rparr>"
    have s2: "conn_step B ?s1 ?s2" using conn_step.writes [of k ?s1 i bs h d1 B] k w Ok by simp
    obtain rc2 d2 r2 where rec: "record_chunk (c_rc s) d1 i h = ((rc2, d2), r2)" by (metis surj_pair)
    have "dirs_ok (c_rc s)" "i < length (received_chunks (c_rc s))"
      using inv check_chunk_Some(1) [OF c] by (auto simp: data_inv_def receiver_wf_def)
    then have np: "r2 \<noteq> Panic" using record_chunk_step(3) rec by blast
    have "rc' = (if r2 = Ok () then rc2 else rc2\<lparr>r_failed := True\<rparr>) \<and> d' = d2"
      using v h w Ok rec np by (cases r2) (simp_all add: verify_and_write_chunk_def)
    then have "conn_step B ?s2 (s\<lparr>c_rc := rc', c_disk := d', c_tasks := ?ts\<rparr>)"
      using written_step [of k ?s2 i bs h rc2 d2 r2 B] k rec np keep by simp
    moreover have "s\<lparr>c_rc := rc', c_disk := d', c_tasks := ?ts\<rparr> = s\<lparr>c_rc := rc', c_disk := d'\<rparr>" by (cases s) simp
    ultimately show ?thesis using s1 s2 conn_steps_trans conn_step_steps by metis
  next
    case (Err e)
    then have "rc' = (c_rc s)\<lparr>r_failed := True\<rparr>" "d' = d1"
      using v h w by (simp_all add: verify_and_write_chunk_def)
    then have "conn_step B ?s1 (s\<lparr>c_rc := rc', c_disk := d', c_tasks := ?ts\<rparr>)"
      using conn_step.write_fails [of k ?s1 i bs h d1 e B] k w Err keep by simp
    moreover have "s\<lparr>c_rc := rc', c_disk := d', c_tasks := ?ts\<rparr> = s\<lparr>c_rc := rc', c_disk := d'\<rparr>" by (cases s) simp
    ultimately show ?thesis using s1 conn_steps_trans conn_step_steps by metis
  next
    case Panic
    then show ?thesis using w fs_write_not_Panic [of "c_disk s" ?p bs] by simp
  qed
qed

section \<open>Two connections on a disk that works\<close>

lemma record_chunk_healthy:
  assumes "receiver_wf rc" "dirs_ok rc" "i < r_num_chunks rc" "\<And>p. healthy d p"
  shows "\<exists>d'. record_chunk rc d i h = ((recorded rc i h, d'), Ok ()) \<and> (\<forall>p. healthy d' p)
    \<and> (\<forall>j. files d' (receiver_part rc j) = files d (receiver_part rc j))"
proof -
  have il: "i < length (received_chunks rc)" using assms(1,3) by (simp add: receiver_wf_def)
  have f: "plain_name (r_filename rc)" using assms(2) by (simp add: dirs_ok_def)
  from meta_save_healthy [OF f assms(4)] obtain d' where
    "meta_save (r_metadata (recorded rc i h)) d (r_parts_dir rc) (r_filename rc) = (d', Ok ())" by blast
  then have rec: "record_chunk rc d i h = ((recorded rc i h, d'), Ok ())"
    using il by (simp add: record_chunk_def set_at_def recorded_def Let_def)
  note rs = record_chunk_step [OF assms(2) il rec]
  have "healthy d' p" for p using same_faults_healthy rs(1) assms(4) unfolding data_step_ok_def by blast
  then show ?thesis using rec rs(5) by blast
qed

text \<open>Both check, the first writes, the second writes and records, the first records.\<close>

lemma overtaking_steps:
  assumes inv: "data_inv B rc d" and hl: "\<And>p. healthy d p"
    and c1: "check_chunk rc m1 = Ok (Some (i1, b1, h1))" "calc_hash B b1 = h1"
    and c2: "check_chunk rc m2 = Ok (Some (i2, b2, h2))" "calc_hash B b2 = h2"
  defines "d1 \<equiv> d\<lparr>files := (files d)(receiver_part rc i1 \<mapsto> b1)\<rparr>"
  defines "d2 \<equiv> d1\<lparr>files := (files d1)(receiver_part rc i2 \<mapsto> b2)\<rparr>"
  defines "rc3 \<equiv> recorded rc i2 h2"
  shows "\<exists>d3 d4.
      conn_step B \<lparr>c_rc = rc, c_disk = d, c_tasks = [Idle, Idle]\<rparr> \<lparr>c_rc = rc, c_disk = d, c_tasks = [Checked i1 b1 h1, Idle]\<rparr>
    \<and> conn_step B \<lparr>c_rc = rc, c_disk = d, c_tasks = [Checked i1 b1 h1, Idle]\<rparr>
        \<lparr>c_rc = rc, c_disk = d, c_tasks = [Checked i1 b1 h1, Checked i2 b2 h2]\<rparr>
    \<and> conn_step B \<lparr>c_rc = rc, c_disk = d, c_tasks = [Checked i1 b1 h1, Checked i2 b2 h2]\<rparr>
        \<lparr>c_rc = rc, c_disk = d1, c_tasks = [Written i1 b1 h1, Checked i2 b2 h2]\<rparr>
    \<and> conn_step B \<lparr>c_rc = rc, c_disk = d1, c_tasks = [Written i1 b1 h1, Checked i2 b2 h2]\<rparr>
        \<lparr>c_rc = rc, c_disk = d2, c_tasks = [Written i1 b1 h1, Written i2 b2 h2]\<rparr>
    \<and> conn_step B \<lparr>c_rc = rc, c_disk = d2, c_tasks = [Written i1 b1 h1, Written i2 b2 h2]\<rparr>
        \<lparr>c_rc = rc3, c_disk = d3, c_tasks = [Written i1 b1 h1, Idle]\<rparr>
    \<and> conn_step B \<lparr>c_rc = rc3, c_disk = d3, c_tasks = [Written i1 b1 h1, Idle]\<rparr>
        \<lparr>c_rc = recorded rc3 i1 h1, c_disk = d4, c_tasks = [Idle, Idle]\<rparr>
    \<and> (\<forall>j. files d4 (receiver_part rc j) = files d2 (receiver_part rc j))"
proof -
  note k1 = check_chunk_Some [OF c1(1)] and k2 = check_chunk_Some [OF c2(1)]
  have wf: "receiver_wf rc" and ok: "dirs_ok rc" using inv by (simp_all add: data_inv_def)
  have sf: "same_faults d d1" "same_faults d1 d2" 
    unfolding d1_def d2_def by (rule same_faults_update)+
  have hl1: "healthy d1 p" for p using same_faults_healthy [OF sf(1)] hl by blast
  have hl2: "healthy d2 p" for p using same_faults_healthy [OF sf(2)] hl1 by blast
  have w1: "fs_write d (path_of (receiver_part_path rc i1)) b1 = (d1, Ok ())"
    and w2: "fs_write d1 (path_of (receiver_part_path rc i2)) b2 = (d2, Ok ())"
    using hl hl1 by (simp_all add: fs_write_healthy receiver_paths d1_def d2_def)
  from record_chunk_healthy [OF wf ok k2(1) hl2, of h2] obtain d3 where
    r2: "record_chunk rc d2 i2 h2 = ((rc3, d3), Ok ())" and hl3: "\<And>p. healthy d3 p"
    and p3: "\<And>j. files d3 (receiver_part rc j) = files d2 (receiver_part rc j)"
    unfolding rc3_def by blast
  have st: "same_transfer rc rc3" by (simp add: rc3_def)
  have wf3: "receiver_wf rc3" "dirs_ok rc3" "i1 < r_num_chunks rc3" "receiver_part rc3 = receiver_part rc"
  proof -
    show "receiver_wf rc3" unfolding rc3_def by (rule recorded_wf [OF wf k2(1,3)])
    show "dirs_ok rc3" "receiver_part rc3 = receiver_part rc" using same_transfer_paths(1,4) [OF st] ok by blast+
    show "i1 < r_num_chunks rc3" using k1(1) by (simp add: rc3_def recorded_def)
  qed
  from record_chunk_healthy [OF wf3(1-3) hl3, of h1] obtain d4 where
    r1: "record_chunk rc3 d3 i1 h1 = ((recorded rc3 i1 h1, d4), Ok ())"
    and p4: "\<And>j. files d4 (receiver_part rc j) = files d3 (receiver_part rc j)"
    unfolding wf3(4) by blast
  show ?thesis
    using conn_step.checks [of 0 "\<lparr>c_rc = rc, c_disk = d, c_tasks = [Idle, Idle]\<rparr>" m1 i1 b1 h1 B]
      conn_step.checks [of 1 "\<lparr>c_rc = rc, c_disk = d, c_tasks = [Checked i1 b1 h1, Idle]\<rparr>" m2 i2 b2 h2 B]
      conn_step.writes [of 0 "\<lparr>c_rc = rc, c_disk = d, c_tasks = [Checked i1 b1 h1, Checked i2 b2 h2]\<rparr>" i1 b1 h1 d1 B]
      conn_step.writes [of 1 "\<lparr>c_rc = rc, c_disk = d1, c_tasks = [Written i1 b1 h1, Checked i2 b2 h2]\<rparr>" i2 b2 h2 d2 B]
      conn_step.records [of 1 "\<lparr>c_rc = rc, c_disk = d2, c_tasks = [Written i1 b1 h1, Written i2 b2 h2]\<rparr>" i2 b2 h2 rc3 d3 B]
      conn_step.records [of 0 "\<lparr>c_rc = rc3, c_disk = d3, c_tasks = [Written i1 b1 h1, Idle]\<rparr>" i1 b1 h1 "recorded rc3 i1 h1" d4 B]
      c1 c2 w1 w2 r1 r2 p3 p4
    by (intro exI [of _ d3] exI [of _ d4]) simp
qed

lemma overtaking_run:
  assumes inv: "data_inv B rc d" and hl: "\<And>p. healthy d p"
    and c1: "check_chunk rc m1 = Ok (Some (i1, b1, h1))" "calc_hash B b1 = h1"
    and c2: "check_chunk rc m2 = Ok (Some (i2, b2, h2))" "calc_hash B b2 = h2"
    and Q: "\<And>p q. p \<in> {Idle, Checked i1 b1 h1, Written i1 b1 h1} \<Longrightarrow> q \<in> {Idle, Checked i2 b2 h2, Written i2 b2 h2} \<Longrightarrow> Q [p, q]"
  obtains d4 where
    "(\<lambda>s t. conn_step B s t \<and> Q (c_tasks t))\<^sup>*\<^sup>* \<lparr>c_rc = rc, c_disk = d, c_tasks = [Idle, Idle]\<rparr>
       \<lparr>c_rc = recorded (recorded rc i2 h2) i1 h1, c_disk = d4, c_tasks = [Idle, Idle]\<rparr>"
    and "files d4 (receiver_part rc i2) = Some b2"
proof -
  let ?R = "\<lambda>s t. conn_step B s t \<and> Q (c_tasks t)"
  have step: "conn_step B s \<lparr>c_rc = r, c_disk = e, c_tasks = ts\<rparr> \<Longrightarrow> Q ts \<Longrightarrow> ?R\<^sup>*\<^sup>* \<lparr>c_rc = r, c_disk = e, c_tasks = ts\<rparr> u \<Longrightarrow> ?R\<^sup>*\<^sup>* s u"
    for s r e ts u by (rule converse_rtranclp_into_rtranclp) simp_all
  have q: "Q [Idle, Idle]" "Q [Checked i1 b1 h1, Idle]" "Q [Written i1 b1 h1, Idle]"
    "Q [Checked i1 b1 h1, Checked i2 b2 h2]" "Q [Written i1 b1 h1, Checked i2 b2 h2]" "Q [Written i1 b1 h1, Written i2 b2 h2]"
    using Q by simp_all
  from overtaking_steps [OF inv hl c1 c2] show ?thesis
    by (elim exE conjE, intro that) ((erule step, rule q)+, rule rtranclp.rtrancl_refl, simp)
qed

section \<open>Properties\<close>

definition quiet :: "conns \<Rightarrow> bool" where
  "quiet s \<longleftrightarrow> list_all (\<lambda>p. p = Idle) (c_tasks s)"

text \<open>C9: Data connections that work at the same time on different chunks implement an atomic store: over
  every interleaving of their steps and every disk failure, when no connection is in the middle of a
  chunk and the transfer has not failed, there is a store reached from the initial one by putting whole
  chunks of the expected size, and receiver and disk realise it: the recorded chunks are the store's, each
  part file has the store's content, each recorded hash is its hash.\<close>

theorem connections_refine_store:
  assumes "reach (conns_init B rc0 d0) (apart_step B) s" "quiet s" "\<not> r_failed (c_rc s)"
  shows "\<exists>m. reach (\<lambda>m. m = stored rc0 d0) (store_step rc0) m
    \<and> dom m = {i. i < r_num_chunks rc0 \<and> received_chunks (c_rc s) ! i}
    \<and> (\<forall>i bs. m i = Some bs \<longrightarrow> files (c_disk s) (receiver_part rc0 i) = Some bs
         \<and> chunk_hashes (r_metadata (c_rc s)) i = Some (b3_hash B bs))"
proof -
  obtain m where m: "reach (\<lambda>m. m = stored rc0 d0) (store_step rc0) m" "conns_rel B rc0 s m"
    using conns.reach_sim [OF assms(1)] by blast
  have same: "same_transfer rc0 (c_rc s)" and wf: "receiver_wf (c_rc s)"
    and ag: "agrees B (c_rc s) (c_disk s) (c_tasks s) m"
    using m(2) assms(3) by (simp_all add: conns_rel_def conns_ok_def)
  have "writing (c_tasks s) = {}" using assms(2) by (auto simp: writing_def quiet_def list_all_iff)
  then have parts: "files (c_disk s) (receiver_part rc0 i) = Some bs
      \<and> chunk_hashes (r_metadata (c_rc s)) i = Some (b3_hash B bs)" if "m i = Some bs" for i bs
    using that ag same_transfer_paths(1) [OF same] by (simp add: agrees_def)
  have "r_num_chunks (c_rc s) = r_num_chunks rc0" using same by (simp add: same_transfer_def)
  then have dom: "dom m = {i. i < r_num_chunks rc0 \<and> received_chunks (c_rc s) ! i}"
    using ag wf unfolding agrees_def receiver_wf_def by simp
  show ?thesis by (rule exI [of _ m]) (use m(1) dom parts in simp)
qed

text \<open>Data for the witnesses: the two chunks of \<open>ex_receiver\<close>'s file.\<close>

lemma ex_checked:
  "check_chunk ex_receiver (chunk_message 0 0 [1, 2] (b3_hash toy_blake3 [1, 2])) = Ok (Some (0, [1, 2], b3_hash toy_blake3 [1, 2]))"
  "check_chunk ex_receiver (chunk_message 1 2 [3] (b3_hash toy_blake3 [3])) = Ok (Some (1, [3], b3_hash toy_blake3 [3]))"
  "check_chunk ex_receiver (chunk_message 1 2 [4] (b3_hash toy_blake3 [4])) = Ok (Some (1, [4], b3_hash toy_blake3 [4]))"
  by code_simp+

lemma connections_refine_store_witness:
  "\<exists>s m. reach (conns_init toy_blake3 ex_receiver empty_disk) (apart_step toy_blake3) s
     \<and> received_chunks (c_rc s) = [True, True]
     \<and> reach (\<lambda>m. m = stored ex_receiver empty_disk) (store_step ex_receiver) m \<and> dom m = {0, 1}"
proof -
  let ?h0 = "b3_hash toy_blake3 [1, 2]" and ?h1 = "b3_hash toy_blake3 [3]"
  let ?start = "\<lparr>c_rc = ex_receiver, c_disk = empty_disk, c_tasks = [Idle, Idle]\<rparr>"
  have ap: "apart_chunks [p, q]" if "in_flight p = None \<or> in_flight p \<noteq> in_flight q" for p q
    using that by (auto simp: apart_chunks_def less_Suc_eq nth_Cons')
  obtain d4 where run: "(apart_step toy_blake3)\<^sup>*\<^sup>* ?start
      \<lparr>c_rc = recorded (recorded ex_receiver 1 ?h1) 0 ?h0, c_disk = d4, c_tasks = [Idle, Idle]\<rparr>"
    unfolding apart_step_def [abs_def]
    by (rule overtaking_run [OF ex_data_inv empty_disk_healthy(2) ex_checked(1) _ ex_checked(2), of apart_chunks])
      (auto simp: calc_hash_def simp del: toy_hash intro!: ap)
  let ?s = "\<lparr>c_rc = recorded (recorded ex_receiver 1 ?h1) 0 ?h0, c_disk = d4, c_tasks = [Idle, Idle]\<rparr>"
  have nf0: "\<not> r_failed ex_receiver" by (simp add: ex_receiver_def receiver_new_def)
  have init: "conns_init toy_blake3 ex_receiver empty_disk ?start"
    using ex_data_inv nf0 by (auto simp: conns_init_def conns_start_def numeral_2_eq_2 intro!: exI [of _ "2::nat"])
  have r: "reach (conns_init toy_blake3 ex_receiver empty_disk) (apart_step toy_blake3) ?s"
    by (rule reach_trans [OF reach.start run]) (rule init)
  have nf: "\<not> r_failed (c_rc ?s)" "received_chunks (c_rc ?s) = [True, True]"
    by (simp_all add: recorded_def ex_receiver_def receiver_new_def numeral_2_eq_2)
  have "quiet ?s" by (simp add: quiet_def)
  from connections_refine_store [OF r this nf(1)] obtain m where
    "reach (\<lambda>m. m = stored ex_receiver empty_disk) (store_step ex_receiver) m"
    "dom m = {i. i < r_num_chunks ex_receiver \<and> received_chunks (c_rc ?s) ! i}" by blast
  moreover have "{i. i < r_num_chunks ex_receiver \<and> received_chunks (c_rc ?s) ! i} = {0, 1}"
    unfolding nf(2) by (auto simp: less_Suc_eq numeral_2_eq_2)
  ultimately show ?thesis using r nf(2) by metis
qed

text \<open>C30: Connections that work at the same time on the same chunk can leave it broken: two messages with
  the same index, each with a hash that is right for its own data, can overtake each other between
  writing and recording (the lock is not held in between). Both are acknowledged, the transfer has not
  failed, no connection is busy, and the recorded hash is not that of the part file on disk.\<close>

theorem same_chunk_race:
  assumes inv: "data_inv B rc d" and hl: "\<And>p. healthy d p" and nf: "\<not> r_failed rc"
    and c1: "check_chunk rc m1 = Ok (Some (i, b1, h1))" "calc_hash B b1 = h1"
    and c2: "check_chunk rc m2 = Ok (Some (i, b2, h2))" "calc_hash B b2 = h2" and ne: "h1 \<noteq> h2"
  shows "\<exists>s. reach (\<lambda>s. s = conns_start rc d 2) (conn_step B) s \<and> quiet s \<and> \<not> r_failed (c_rc s)
    \<and> received_chunks (c_rc s) ! i \<and> \<not> parts_match B (c_rc s) (c_disk s)"
proof -
  obtain d4 where
    r: "(conn_step B)\<^sup>*\<^sup>* \<lparr>c_rc = rc, c_disk = d, c_tasks = [Idle, Idle]\<rparr>
         \<lparr>c_rc = recorded (recorded rc i h2) i h1, c_disk = d4, c_tasks = [Idle, Idle]\<rparr>"
    and p: "files d4 (receiver_part rc i) = Some b2"
    using overtaking_run [OF inv hl c1 c2, of "\<lambda>ts. True"] by simp blast
  let ?rc = "recorded (recorded rc i h2) i h1"
  let ?s = "\<lparr>c_rc = ?rc, c_disk = d4, c_tasks = [Idle, Idle]\<rparr>"
  have "i < length (received_chunks rc)"
    using inv check_chunk_Some(1) [OF c1(1)] by (simp add: data_inv_def receiver_wf_def)
  then have rcv: "received_chunks ?rc ! i" by (simp add: recorded_def)
  have ch: "chunk_hashes (r_metadata ?rc) i = Some h1" by (simp add: recorded_def add_chunk_def)
  have "receiver_part ?rc i = receiver_part rc i" by (simp add: receiver_part_def recorded_def)
  then have "\<not> parts_match B ?rc d4"
    using ch p c2(2) ne unfolding parts_match_def calc_hash_def by (metis option.inject)
  moreover have "reach (\<lambda>s. s = conns_start rc d 2) (conn_step B) ?s"
    by (rule reach_trans [OF reach.start r]) (simp add: conns_start_def numeral_2_eq_2)
  moreover have "quiet ?s" "\<not> r_failed ?rc" using nf by (simp_all add: quiet_def recorded_def)
  ultimately show ?thesis using rcv by (intro exI [of _ ?s]) simp
qed

lemma same_chunk_race_witness:
  "\<exists>s. reach (\<lambda>s. s = conns_start ex_receiver empty_disk 2) (conn_step toy_blake3) s
     \<and> received_chunks (c_rc s) ! 1 \<and> \<not> parts_match toy_blake3 (c_rc s) (c_disk s)"
proof -
  have "\<not> r_failed ex_receiver" by (simp add: ex_receiver_def receiver_new_def)
  moreover have "b3_hash toy_blake3 [3] \<noteq> b3_hash toy_blake3 [4]" by code_simp
  ultimately show ?thesis
    using same_chunk_race [OF ex_data_inv empty_disk_healthy(2) _ ex_checked(2) _ ex_checked(3)]
    by (auto simp: calc_hash_def simp del: toy_hash)
qed

end
