(* ===== verification/Server_State.thy ===== *)
theory Server_State
  imports File_Receiver Transitions
begin

text \<open>
  The shared state of the server (\<open>src/server/mod.rs\<close>): the global pool of data ports, the
  registry that routes a data connection to its transfer, and the listening sockets, with the
  operations that allocate and release them (\<open>allocate_sockets\<close>, \<open>sockets_to_ports\<close> and
  \<open>cleanup\<close> of \<open>src/server/handler/control.rs\<close>).

  tokio's \<open>Semaphore\<close> is not part of the program: its operations are the parameter \<open>semaphore\<close>
  and \<open>sem_ok\<close> is their documented behaviour. An \<open>Arc<Mutex<FileReceiver>>\<close> is an index into
  \<open>receivers\<close>, so that all its holders see one receiver. \<open>bound\<close> holds the ports on which the
  process listens; \<open>os_free\<close> says which ports the rest of the system leaves free.
\<close>

section \<open>The state\<close>

record 'p semaphore =
  sem_new :: "nat \<Rightarrow> 'p"
  sem_available :: "'p \<Rightarrow> nat"
  sem_try_acquire_many :: "'p \<Rightarrow> nat \<Rightarrow> 'p option"
  sem_add_permits :: "'p \<Rightarrow> nat \<Rightarrow> 'p"

definition SEM_MAX_PERMITS :: nat where "SEM_MAX_PERMITS = 2 ^ 61 - 1"

definition sem_ok :: "'p semaphore \<Rightarrow> bool" where
  "sem_ok S \<longleftrightarrow>
     (\<forall>n. n \<le> SEM_MAX_PERMITS \<longrightarrow> sem_available S (sem_new S n) = n) \<and>
     (\<forall>p k. sem_try_acquire_many S p k = None \<longleftrightarrow> sem_available S p < k) \<and>
     (\<forall>p k q. sem_try_acquire_many S p k = Some q \<longrightarrow> sem_available S q = sem_available S p - k) \<and>
     (\<forall>p n. sem_available S p + n \<le> SEM_MAX_PERMITS \<longrightarrow>
        sem_available S (sem_add_permits S p n) = sem_available S p + n)"

text \<open>An instance, for the witnesses: a counter.\<close>

definition counter :: "nat semaphore" where
  "counter = \<lparr>sem_new = (\<lambda>n. n), sem_available = (\<lambda>p. p),
     sem_try_acquire_many = (\<lambda>p k. if k \<le> p then Some (p - k) else None),
     sem_add_permits = (\<lambda>p n. p + n)\<rparr>"

lemma counter_ok: "sem_ok counter"
  by (auto simp: sem_ok_def counter_def)

lemma sem_okD:
  assumes "sem_ok S"
  shows "n \<le> SEM_MAX_PERMITS \<Longrightarrow> sem_available S (sem_new S n) = n"
    and "sem_try_acquire_many S p k = None \<longleftrightarrow> sem_available S p < k"
    and "sem_try_acquire_many S p k = Some q \<Longrightarrow> k \<le> sem_available S p"
    and "sem_try_acquire_many S p k = Some q \<Longrightarrow> sem_available S q = sem_available S p - k"
    and "sem_available S p + n \<le> SEM_MAX_PERMITS \<Longrightarrow>
      sem_available S (sem_add_permits S p n) = sem_available S p + n"
proof -
  show "sem_try_acquire_many S p k = Some q \<Longrightarrow> k \<le> sem_available S p"
    using assms unfolding sem_ok_def by (metis linorder_not_less option.distinct(1))
qed (use assms in \<open>simp_all add: sem_ok_def\<close>)

datatype listener = Listener u16

type_synonym socket = "u16 \<times> listener"

record 'p server =
  pool :: 'p
  registry :: "u16 \<rightharpoonup> nat"
  receivers :: "receiver list"
  bound :: "u16 set"
  sdisk :: disk

definition DATA_PORT_START :: u16 where [const_defs]: "DATA_PORT_START = 45000"

definition DATA_PORT_END :: u16 where [const_defs]: "DATA_PORT_END = 46000"

definition TOTAL_DATA_PORTS :: usize where
  [const_defs]: "TOTAL_DATA_PORTS = unat (DATA_PORT_END - DATA_PORT_START + 1)"

definition server_new :: "'p semaphore \<Rightarrow> disk \<Rightarrow> 'p server" where
  "server_new S d = \<lparr>pool = sem_new S TOTAL_DATA_PORTS, registry = Map.empty, receivers = [],
     bound = {}, sdisk = d\<rparr>"

lemma TOTAL_DATA_PORTS_value: "TOTAL_DATA_PORTS = 1001"
  by (simp add: const_defs)

section \<open>The port pool\<close>

definition try_reserve_ports :: "'p semaphore \<Rightarrow> 'p server \<Rightarrow> usize \<Rightarrow> 'p server \<times> bool" where
  "try_reserve_ports S srv count =
     (case sem_try_acquire_many S (pool srv) (unat (word_of_nat count :: u32)) of
        Some p \<Rightarrow> (srv\<lparr>pool := p\<rparr>, True)
      | None \<Rightarrow> (srv, False))"

definition release_ports :: "'p semaphore \<Rightarrow> 'p server \<Rightarrow> usize \<Rightarrow> 'p server" where
  "release_ports S srv count = srv\<lparr>pool := sem_add_permits S (pool srv) count\<rparr>"

definition available :: "'p semaphore \<Rightarrow> 'p server \<Rightarrow> nat" where
  "available S srv = sem_available S (pool srv)"

text \<open>The contract of a pool: a reservation takes exactly what it asks for or nothing, a release
  gives back exactly what it is told. \<open>fits\<close> bounds the counts the pool can represent.\<close>

locale port_pool =
  fixes valid :: "'s \<Rightarrow> bool" and free :: "'s \<Rightarrow> nat" and fits :: "nat \<Rightarrow> bool"
    and reserve :: "'s \<Rightarrow> nat \<Rightarrow> 's \<times> bool" and release :: "'s \<Rightarrow> nat \<Rightarrow> 's"
  assumes reserve_valid: "valid s \<Longrightarrow> valid (fst (reserve s n))"
    and reserve_yes: "valid s \<Longrightarrow> fits n \<Longrightarrow> snd (reserve s n) \<Longrightarrow>
      n \<le> free s \<and> free (fst (reserve s n)) + n = free s"
    and reserve_no: "valid s \<Longrightarrow> fits n \<Longrightarrow> \<not> snd (reserve s n) \<Longrightarrow> free s < n \<and> fst (reserve s n) = s"
    and release_free: "valid s \<Longrightarrow> fits (free s + n) \<Longrightarrow> free (release s n) = free s + n"
begin

lemma reserve_iff: "valid s \<Longrightarrow> fits n \<Longrightarrow> snd (reserve s n) \<longleftrightarrow> n \<le> free s"
  using reserve_yes reserve_no by fastforce

lemma reserve_release:
  "valid s \<Longrightarrow> fits n \<Longrightarrow> fits (free s) \<Longrightarrow> snd (reserve s n) \<Longrightarrow>
     free (release (fst (reserve s n)) n) = free s"
  using reserve_yes [of s n] release_free [of "fst (reserve s n)" n] reserve_valid [of s n] by simp

end

interpretation ports: port_pool "\<lambda>(S, srv). sem_ok S" "\<lambda>(S, srv). available S srv" "\<lambda>n. n < 2 ^ 32"
  "\<lambda>(S, srv) n. (case try_reserve_ports S srv n of (srv', b) \<Rightarrow> ((S, srv'), b))"
  "\<lambda>(S, srv) n. (S, release_ports S srv n)"
  by unfold_locales
    (auto simp: try_reserve_ports_def release_ports_def available_def sem_okD unat_u32_of_usize
      SEM_MAX_PERMITS_def dest: sem_okD(3) split: option.splits prod.splits)

lemma try_reserve_cases:
  assumes "sem_ok S" "n < 2 ^ 32" "try_reserve_ports S srv n = (srv', b)"
  shows "b \<longleftrightarrow> n \<le> available S srv" "b \<Longrightarrow> available S srv' + n = available S srv"
    "\<not> b \<Longrightarrow> srv' = srv" "srv'\<lparr>pool := pool srv\<rparr> = srv"
  using assms ports.reserve_iff [of "(S, srv)" n] ports.reserve_yes [of "(S, srv)" n]
    ports.reserve_no [of "(S, srv)" n]
  by (auto simp: try_reserve_ports_def split: option.splits)

section \<open>The registry\<close>

definition register_receivers :: "'p server \<Rightarrow> socket list \<Rightarrow> nat \<Rightarrow> 'p server" where
  "register_receivers srv data_socks rid =
     srv\<lparr>registry := foldl (\<lambda>m (port, l). m(port \<mapsto> rid)) (registry srv) data_socks\<rparr>"

definition get_receiver :: "'p server \<Rightarrow> u16 \<Rightarrow> nat option" where
  "get_receiver srv port = registry srv port"

definition remove_receiver :: "'p server \<Rightarrow> u16 \<Rightarrow> 'p server" where
  "remove_receiver srv port = srv\<lparr>registry := (registry srv)(port := None)\<rparr>"

definition sockets_to_ports :: "socket list \<Rightarrow> u16 list" where
  "sockets_to_ports sockets = map fst sockets"

text \<open>The contract of a routing table, which finding a connection's transfer rests on.\<close>

locale routing =
  fixes route :: "'s \<Rightarrow> u16 \<Rightarrow> nat option" and register :: "'s \<Rightarrow> socket list \<Rightarrow> nat \<Rightarrow> 's"
    and remove :: "'s \<Rightarrow> u16 \<Rightarrow> 's"
  assumes route_register: "route (register s socks r) p = (if p \<in> fst ` set socks then Some r else route s p)"
    and route_remove: "route (remove s q) p = (if p = q then None else route s p)"
begin

lemma route_remove_all: "route (foldl remove s ps) p = (if p \<in> set ps then None else route s p)"
  by (induction ps arbitrary: s) (auto simp: route_remove)

lemma register_remove_all:
  "(\<And>p. p \<in> fst ` set socks \<Longrightarrow> route s p = None) \<Longrightarrow>
     route (foldl remove (register s socks r) (map fst socks)) = route s"
  by (auto simp: route_remove_all route_register fun_eq_iff)

lemma other_transfer_unaffected:
  "p \<notin> fst ` set socks \<Longrightarrow> route (foldl remove (register s socks r) (map fst socks)) p = route s p"
  by (simp add: route_remove_all route_register)

end

lemma foldl_register: "foldl (\<lambda>m (port, l). m(port \<mapsto> rid)) m socks p
    = (if p \<in> fst ` set socks then Some rid else m p)"
  by (induction socks arbitrary: m) (auto simp: image_iff)

interpretation routes: routing get_receiver register_receivers remove_receiver
  by unfold_locales (auto simp: get_receiver_def register_receivers_def remove_receiver_def foldl_register)

section \<open>Allocating sockets\<close>

definition port_add :: "u16 \<Rightarrow> u16" where "port_add port = port + 1"

lemma unat_port_add: "port \<le> DATA_PORT_END \<Longrightarrow> unat (port_add port) = unat port + 1"
proof -
  assume "port \<le> DATA_PORT_END"
  then have "unat port \<le> 46000" by (simp add: DATA_PORT_END_def word_le_nat_alt)
  then show ?thesis by (simp add: port_add_def unat_word_ariths)
qed

text \<open>The inner loop: the next port at which \<open>bind\<close> succeeds, and the port the search goes on with.\<close>

function bind_next :: "(u16 \<Rightarrow> bool) \<Rightarrow> u16 \<Rightarrow> u16 option \<times> u16" where
  "bind_next can_bind port =
     (if port \<le> DATA_PORT_END then
        (if can_bind port then (Some port, port_add port) else bind_next can_bind (port_add port))
      else (None, port))"
  by pat_completeness auto
termination
  by (relation "measure (\<lambda>(c, port). 46001 - unat port)")
    (auto simp: unat_port_add DATA_PORT_END_def word_le_nat_alt)

declare bind_next.simps [simp del]

fun bind_loop :: "(u16 \<Rightarrow> bool) \<Rightarrow> nat \<Rightarrow> u16 \<Rightarrow> socket list" where
  "bind_loop can_bind 0 port = []"
| "bind_loop can_bind (Suc k) port =
     (case bind_next can_bind port of
        (Some p, port') \<Rightarrow> (p, Listener p) # bind_loop can_bind k port'
      | (None, port') \<Rightarrow> bind_loop can_bind k port')"

definition can_bind :: "(u16 \<Rightarrow> bool) \<Rightarrow> 'p server \<Rightarrow> u16 \<Rightarrow> bool" where
  "can_bind os_free srv p \<longleftrightarrow> os_free p \<and> p \<notin> bound srv"

definition allocate_sockets ::
  "'p semaphore \<Rightarrow> (u16 \<Rightarrow> bool) \<Rightarrow> 'p server \<Rightarrow> usize \<Rightarrow> usize \<Rightarrow> 'p server \<times> socket list res" where
  "allocate_sockets S os_free srv count max_parallel =
     (let num_socks = min count max_parallel in
      case try_reserve_ports S srv num_socks of
        (srv1, reserved) \<Rightarrow>
          if \<not> reserved then (srv1, Err (PortsUnavailable num_socks)) else
          let sockets = bind_loop (can_bind os_free srv1) num_socks DATA_PORT_START in
          if length sockets < num_socks then (srv1, Err BindFailed)
          else (srv1\<lparr>bound := bound srv1 \<union> set (sockets_to_ports sockets)\<rparr>, Ok sockets))"

definition cleanup :: "'p semaphore \<Rightarrow> 'p server \<Rightarrow> u16 list \<Rightarrow> 'p server" where
  "cleanup S srv ports =
     (let srv1 = foldl remove_receiver srv ports; count = length ports
      in if count > 0 then release_ports S srv1 count else srv1)"

section \<open>What allocation does\<close>

definition ports_from :: "nat \<Rightarrow> u16 list" where
  "ports_from a = map word_of_nat [a..<46001]"

lemma ports_from_step: "port \<le> DATA_PORT_END \<Longrightarrow> ports_from (unat port) = port # ports_from (unat (port_add port))"
  by (simp add: ports_from_def unat_port_add DATA_PORT_END_def word_le_nat_alt upt_rec [of "unat port"])

lemma ports_from_end: "\<not> port \<le> DATA_PORT_END \<Longrightarrow> ports_from (unat port) = []"
  by (simp add: ports_from_def DATA_PORT_END_def word_le_nat_alt)

lemma bind_next_spec:
  "filter c (ports_from (unat port)) =
     (case bind_next c port of (Some p, port') \<Rightarrow> p # filter c (ports_from (unat port')) | (None, port') \<Rightarrow> [])
   \<and> (fst (bind_next c port) = None \<longrightarrow> ports_from (unat (snd (bind_next c port))) = [])"
proof (induction c port rule: bind_next.induct)
  case (1 c port)
  then show ?case
    by (cases "port \<le> DATA_PORT_END"; cases "c port")
      (simp_all add: bind_next.simps [of c port] ports_from_step ports_from_end)
qed

text \<open>The sockets are the first \<open>k\<close> free ports of the range, in order.\<close>

lemma bind_loop_eq:
  "bind_loop c k port = map (\<lambda>p. (p, Listener p)) (take k (filter c (ports_from (unat port))))"
proof (induction k arbitrary: port)
  case 0
  then show ?case by simp
next
  case (Suc k)
  then show ?case
    using bind_next_spec [of c port] by (auto split: prod.splits option.splits)
qed

definition free_ports :: "(u16 \<Rightarrow> bool) \<Rightarrow> 'p server \<Rightarrow> u16 list" where
  "free_ports os_free srv = filter (can_bind os_free srv) (ports_from 45000)"

lemma distinct_ports: "distinct (ports_from a)"
proof -
  have "inj_on (word_of_nat :: nat \<Rightarrow> u16) (set [a..<46001])"
    by (intro inj_on_inverseI [of _ unat]) (simp add: unat_of_nat)
  then show ?thesis by (simp add: ports_from_def distinct_map)
qed

lemma set_ports_from: "p \<in> set (ports_from a) \<longleftrightarrow> a \<le> unat p \<and> unat p < 46001"
proof
  assume "p \<in> set (ports_from a)"
  then obtain i where "p = word_of_nat i" "a \<le> i" "i < 46001" by (auto simp: ports_from_def)
  then show "a \<le> unat p \<and> unat p < 46001" by (simp add: unat_of_nat)
next
  assume "a \<le> unat p \<and> unat p < 46001"
  then have "unat p \<in> set [a..<46001]" by simp
  then have "word_of_nat (unat p) \<in> set (ports_from a)" unfolding ports_from_def by (simp only: set_map image_eqI)
  then show "p \<in> set (ports_from a)" by simp
qed

lemma free_ports_facts:
  "distinct (free_ports os_free srv)"
  "p \<in> set (free_ports os_free srv) \<longleftrightarrow>
     DATA_PORT_START \<le> p \<and> p \<le> DATA_PORT_END \<and> os_free p \<and> p \<notin> bound srv"
proof -
  show "distinct (free_ports os_free srv)" by (simp add: free_ports_def distinct_ports)
  show "p \<in> set (free_ports os_free srv) \<longleftrightarrow>
     DATA_PORT_START \<le> p \<and> p \<le> DATA_PORT_END \<and> os_free p \<and> p \<notin> bound srv"
    by (auto simp: free_ports_def can_bind_def set_ports_from DATA_PORT_START_def DATA_PORT_END_def word_le_nat_alt)
qed

lemma bind_loop_ports:
  "sockets_to_ports (bind_loop (can_bind os_free srv) k DATA_PORT_START) = take k (free_ports os_free srv)"
  by (simp add: sockets_to_ports_def bind_loop_eq free_ports_def DATA_PORT_START_def o_def)

lemma server_swap: "srv\<lparr>bound := x, pool := y\<rparr> = srv\<lparr>pool := y, bound := x\<rparr>"
  by (cases srv) simp

lemma allocate_sockets_cases:
  assumes S: "sem_ok S" and n: "num = min count max_parallel" "num < 2 ^ 32"
    and a: "allocate_sockets S os_free srv count max_parallel = (srv', r)"
  shows "num > available S srv \<Longrightarrow> r = Err (PortsUnavailable num) \<and> srv' = srv"
    and "num \<le> available S srv \<Longrightarrow> length (free_ports os_free srv) < num \<Longrightarrow>
      r = Err BindFailed \<and> available S srv' + num = available S srv \<and> srv'\<lparr>pool := pool srv\<rparr> = srv"
    and "num \<le> available S srv \<Longrightarrow> num \<le> length (free_ports os_free srv) \<Longrightarrow>
      \<exists>socks. r = Ok socks \<and> sockets_to_ports socks = take num (free_ports os_free srv)
        \<and> available S srv' + num = available S srv
        \<and> srv'\<lparr>pool := pool srv\<rparr> = srv\<lparr>bound := bound srv \<union> set (take num (free_ports os_free srv))\<rparr>"
proof -
  obtain srv1 b where t: "try_reserve_ports S srv num = (srv1, b)" by (metis surj_pair)
  note res = try_reserve_cases [OF S n(2) t]
  have bd: "bound srv1 = bound srv" using arg_cong [OF res(4), of bound] by simp
  then have fp: "free_ports os_free srv1 = free_ports os_free srv"
    by (simp add: free_ports_def can_bind_def [abs_def])
  have sw: "srv1\<lparr>bound := x, pool := pool srv\<rparr> = srv\<lparr>bound := x\<rparr>" for x
    using arg_cong [OF res(4), of "\<lambda>s. s\<lparr>bound := x\<rparr>"] by (simp only: server_swap)
  note unf = a [unfolded allocate_sockets_def Let_def, folded n(1), unfolded t, simplified]
  show "num > available S srv \<Longrightarrow> r = Err (PortsUnavailable num) \<and> srv' = srv"
    using unf res by (auto split: if_splits)
  let ?socks = "bind_loop (can_bind os_free srv1) num DATA_PORT_START"
  have sp: "sockets_to_ports ?socks = take num (free_ports os_free srv)" by (simp add: bind_loop_ports fp)
  then have len: "length ?socks = min num (length (free_ports os_free srv))"
    by (metis length_map length_take min.commute sockets_to_ports_def)
  show "num \<le> available S srv \<Longrightarrow> length (free_ports os_free srv) < num \<Longrightarrow>
      r = Err BindFailed \<and> available S srv' + num = available S srv \<and> srv'\<lparr>pool := pool srv\<rparr> = srv"
    using unf res len by (auto split: if_splits)
  show "num \<le> available S srv \<Longrightarrow> num \<le> length (free_ports os_free srv) \<Longrightarrow>
      \<exists>socks. r = Ok socks \<and> sockets_to_ports socks = take num (free_ports os_free srv)
        \<and> available S srv' + num = available S srv
        \<and> srv'\<lparr>pool := pool srv\<rparr> = srv\<lparr>bound := bound srv \<union> set (take num (free_ports os_free srv))\<rparr>"
    using unf res len sp bd sw by (auto simp: available_def split: if_splits)
qed

section \<open>What cleanup gives back\<close>

lemma foldl_remove: "foldl remove_receiver srv ps =
    srv\<lparr>registry := (\<lambda>p. if p \<in> set ps then None else registry srv p)\<rparr>"
  by (induction ps arbitrary: srv) (auto simp: remove_receiver_def fun_eq_iff intro!: server.equality)

lemma cleanup_state:
  assumes "sem_ok S" "available S srv + length ps \<le> SEM_MAX_PERMITS"
  shows "available S (cleanup S srv ps) = available S srv + length ps"
    and "registry (cleanup S srv ps) = (\<lambda>p. if p \<in> set ps then None else registry srv p)"
    and "bound (cleanup S srv ps) = bound srv" "sdisk (cleanup S srv ps) = sdisk srv"
    and "receivers (cleanup S srv ps) = receivers srv"
  using assms
  by (auto simp: cleanup_def Let_def foldl_remove release_ports_def available_def sem_okD)

section \<open>Properties\<close>

text \<open>C33: Allocation of data ports, every branch: too few permits refuse and change nothing; with enough
  permits and enough free ports the sockets are the first free ports of 45000 to 46000, as many as
  \<open>min count max_parallel\<close>, pairwise distinct, none of them bound before, and exactly that many permits
  are taken; with enough permits and too few free ports the allocation fails and the reserved permits are
  not given back.\<close>

theorem allocation_outcome:
  assumes S: "sem_ok S" and n: "num = min count max_parallel" "num < 2 ^ 32"
    and a: "allocate_sockets S os_free srv count max_parallel = (srv', r)"
  shows "(available S srv < num \<longrightarrow> r = Err (PortsUnavailable num) \<and> srv' = srv)
    \<and> (num \<le> available S srv \<longrightarrow> length (free_ports os_free srv) < num \<longrightarrow>
         r = Err BindFailed \<and> available S srv' + num = available S srv \<and> bound srv' = bound srv)
    \<and> (num \<le> available S srv \<longrightarrow> num \<le> length (free_ports os_free srv) \<longrightarrow>
         (\<exists>socks. r = Ok socks \<and> sockets_to_ports socks = take num (free_ports os_free srv)
            \<and> length socks = num \<and> distinct (sockets_to_ports socks)
            \<and> (\<forall>p \<in> set (sockets_to_ports socks). DATA_PORT_START \<le> p \<and> p \<le> DATA_PORT_END \<and> os_free p \<and> p \<notin> bound srv)
            \<and> bound srv' = bound srv \<union> set (sockets_to_ports socks)
            \<and> available S srv' + num = available S srv))"
proof (intro conjI impI)
  note cs = allocate_sockets_cases [OF S n a]
  show "available S srv < num \<Longrightarrow> r = Err (PortsUnavailable num)" "available S srv < num \<Longrightarrow> srv' = srv"
    using cs(1) by simp_all
  show "r = Err BindFailed" "available S srv' + num = available S srv" "bound srv' = bound srv"
    if "num \<le> available S srv" "length (free_ports os_free srv) < num"
    using cs(2) [OF that] by (auto dest: arg_cong [of _ _ bound])
  assume ok: "num \<le> available S srv" "num \<le> length (free_ports os_free srv)"
  from cs(3) [OF this] obtain socks where so: "r = Ok socks" "sockets_to_ports socks = take num (free_ports os_free srv)"
    "available S srv' + num = available S srv"
    "srv'\<lparr>pool := pool srv\<rparr> = srv\<lparr>bound := bound srv \<union> set (take num (free_ports os_free srv))\<rparr>" by blast
  have "length socks = num" using so(2) ok(2) by (metis length_map length_take min_absorb2 sockets_to_ports_def)
  moreover have "distinct (sockets_to_ports socks)" by (metis so(2) free_ports_facts(1) distinct_take)
  moreover have "bound srv' = bound srv \<union> set (sockets_to_ports socks)" using arg_cong [OF so(4), of bound] so(2) by simp
  moreover have "p \<in> set (free_ports os_free srv)" if "p \<in> set (sockets_to_ports socks)" for p
    using that so(2) by (metis in_set_takeD)
  ultimately show "\<exists>socks. r = Ok socks \<and> sockets_to_ports socks = take num (free_ports os_free srv)
      \<and> length socks = num \<and> distinct (sockets_to_ports socks)
      \<and> (\<forall>p \<in> set (sockets_to_ports socks). DATA_PORT_START \<le> p \<and> p \<le> DATA_PORT_END \<and> os_free p \<and> p \<notin> bound srv)
      \<and> bound srv' = bound srv \<union> set (sockets_to_ports socks) \<and> available S srv' + num = available S srv"
    using so free_ports_facts(2) by blast
qed

lemma allocation_outcome_witness:
  "\<exists>srv' socks. allocate_sockets counter (\<lambda>p. p = 45003) (server_new counter empty_disk) 5 1 = (srv', Ok socks)
     \<and> available counter srv' + 1 = 1001
   \<and> (\<exists>srv''. allocate_sockets counter (\<lambda>p. p = 45003) (server_new counter empty_disk) 5 2 = (srv'', Err BindFailed)
     \<and> available counter srv'' + 2 = 1001)"
proof -
  let ?S = "server_new counter empty_disk" and ?f = "\<lambda>p :: u16. p = 45003"
  let ?X = "allocate_sockets counter ?f ?S 5 1" and ?Y = "allocate_sockets counter ?f ?S 5 2"
  have av: "available counter ?S = 1001" by code_simp
  have "set (free_ports ?f ?S) = {45003}"
    by (auto simp: free_ports_facts(2) server_new_def DATA_PORT_START_def DATA_PORT_END_def)
  then have fp: "length (free_ports ?f ?S) = 1"
    using distinct_card [OF free_ports_facts(1)] by (metis card.empty card_insert_disjoint empty_iff finite.emptyI One_nat_def)
  have x: "?X = (fst ?X, snd ?X)" and y: "?Y = (fst ?Y, snd ?Y)" by simp_all
  from allocation_outcome [OF counter_ok _ _ x, of 1] av fp
  have "\<exists>socks. snd ?X = Ok socks \<and> available counter (fst ?X) + 1 = 1001" by auto
  moreover from allocation_outcome [OF counter_ok _ _ y, of 2] av fp
  have "snd ?Y = Err BindFailed \<and> available counter (fst ?Y) + 2 = 1001" by auto
  ultimately show ?thesis using x y by metis
qed

end
