(* ===== verification/Handshake.thy ===== *)
theory Handshake
  imports Frame Disk
begin

text \<open>
  The control channel's messages: the client's handshake (\<open>build_handshake\<close> of
  \<open>src/client/mod.rs\<close>, \<open>parse_handshake\<close> of \<open>src/server/handler/control.rs\<close>) and the server's
  response (\<open>send_handshake_response\<close> and \<open>parse_response\<close>). Every read of a received message is
  bounds checked in the model, so that a parser never panics is a theorem.
\<close>

section \<open>The handshake\<close>

record handshake_data =
  h_filename :: string
  h_safe_name :: string
  h_file_size :: u64
  h_chunk_size :: usize
  h_num_chunks :: usize
  h_full_hash :: bytes

definition MAX_FILENAME_LEN :: usize where [const_defs]: "MAX_FILENAME_LEN = 255"

definition MAX_CHUNKS :: usize where [const_defs]: "MAX_CHUNKS = 1000000"

definition parse_handshake :: "bytes \<Rightarrow> handshake_data res" where
  "parse_handshake data =
     (if length data < PREFIX_SIZE + SUFFIX_SIZE then Err (HandshakeTooShort (length data)) else
      res_bind (read_bytes data 0 4) (\<lambda>magic.
      if magic \<noteq> HANDSHAKE_MAGIC then Err (BadMagic magic) else
      res_bind (read_u16 data 4) (\<lambda>len16.
      let filename_len = unat len16 in
      if filename_len > MAX_FILENAME_LEN then Err (FilenameTooLong filename_len) else
      if length data < PREFIX_SIZE + filename_len + SUFFIX_SIZE then Err TooShortForFilename else
      res_bind (read_bytes data PREFIX_SIZE filename_len) (\<lambda>name_bytes.
      let filename = from_utf8_lossy name_bytes in
      (case file_name filename of None \<Rightarrow> Err InvalidFilename | Some base \<Rightarrow>
      let safe_name = to_string_lossy base; offset = PREFIX_SIZE + filename_len in
      res_bind (read_u64 data offset) (\<lambda>file_size.
      res_bind (read_u32 data (offset + 8)) (\<lambda>chunk_size.
      res_bind (read_u32 data (offset + 12)) (\<lambda>num_chunks.
      res_bind (read_bytes data (offset + 16) 32) (\<lambda>full_hash.
      if unat chunk_size = 0 then Err ZeroChunkSize else
      if unat num_chunks = 0 then Err ZeroNumChunks else
      if unat num_chunks > MAX_CHUNKS then Err (TooManyChunks (unat num_chunks)) else
      Ok \<lparr>h_filename = filename, h_safe_name = safe_name, h_file_size = file_size,
          h_chunk_size = unat chunk_size, h_num_chunks = unat num_chunks,
          h_full_hash = full_hash\<rparr>)))))))))"

text \<open>\<open>usize::div_ceil\<close>, which panics on a zero divisor.\<close>

definition div_ceil :: "usize \<Rightarrow> usize \<Rightarrow> usize res" where
  "div_ceil n c =
     (if c = 0 then Panic else Ok (if n mod c > 0 then n div c + 1 else n div c))"

definition count_chunks :: "u64 \<Rightarrow> usize \<Rightarrow> usize res" where
  "count_chunks file_size chunk_size =
     (if file_size > 0 then div_ceil (unat file_size) chunk_size else Ok 1)"

definition stat_len :: "disk \<Rightarrow> path \<Rightarrow> u64 res" where
  "stat_len d p = (case files d p of None \<Rightarrow> Err (IoError OpStat) | Some bs \<Rightarrow> Ok (word_of_nat (length bs)))"

definition handshake_bytes :: "bytes \<Rightarrow> u64 \<Rightarrow> usize \<Rightarrow> usize \<Rightarrow> bytes \<Rightarrow> bytes" where
  "handshake_bytes filename_bytes file_size chunk_size num_chunks full_hash =
     HANDSHAKE_MAGIC
     @ to_be_bytes (word_of_nat (length filename_bytes) :: u16)
     @ filename_bytes
     @ to_be_bytes file_size
     @ to_be_bytes (word_of_nat chunk_size :: u32)
     @ to_be_bytes (word_of_nat num_chunks :: u32)
     @ full_hash"

definition build_handshake :: "'h blake3 \<Rightarrow> disk \<Rightarrow> string \<Rightarrow> usize \<Rightarrow> bytes res" where
  "build_handshake B d filepath chunk_size =
     (case file_name filepath of None \<Rightarrow> Err InvalidFilename | Some base \<Rightarrow>
      let filename_bytes = str_bytes (to_string_lossy base) in
      res_bind (stat_len d (path_of filepath)) (\<lambda>file_size.
      res_bind (count_chunks file_size chunk_size) (\<lambda>num_chunks.
      res_bind (file_hash B d filepath) (\<lambda>full_hash.
      Ok (handshake_bytes filename_bytes file_size chunk_size num_chunks full_hash)))))"

section \<open>The response\<close>

definition response_bytes :: "u8 \<Rightarrow> u16 list \<Rightarrow> bytes" where
  "response_bytes status ports =
     [status] @ [word_of_nat (length ports)] @ concat (map to_be_bytes ports)"

definition send_handshake_response :: "stream \<Rightarrow> u8 \<Rightarrow> u16 list \<Rightarrow> stream \<times> unit res" where
  "send_handshake_response s status ports = send_timeout s (response_bytes status ports)"

definition parse_response :: "bytes \<Rightarrow> (u8 \<times> u16 list) res" where
  "parse_response data =
     (if length data < 2 then Err ResponseTooShort else
      res_bind (index_at data 0) (\<lambda>status.
      res_bind (index_at data 1) (\<lambda>n8.
      let num_ports = unat n8 in
      if length data < 2 + num_ports * 2 then Err ResponseTooShortForPorts else
      res_bind (res_mapM (\<lambda>i. read_u16 data (2 + i * 2)) [0..<num_ports]) (\<lambda>ports.
      Ok (status, ports)))))"

section \<open>Parsers never panic\<close>

lemma parse_handshake_not_Panic: "parse_handshake data \<noteq> Panic"
  by (auto simp: parse_handshake_def Let_def res_simps PREFIX_SIZE_def SUFFIX_SIZE_def split: option.splits)

lemma parse_response_not_Panic: "parse_response data \<noteq> Panic"
proof
  assume "parse_response data = Panic"
  then have len: "2 + unat (data ! 1) * 2 \<le> length data"
    and p: "res_mapM (\<lambda>i. read_u16 data (2 + i * 2)) [0..<unat (data ! 1)] = Panic"
    by (auto simp: parse_response_def Let_def res_simps index_at_def split: if_splits)
  have "read_u16 data (2 + i * 2) \<noteq> Panic" if "i < unat (data ! 1)" for i
    using that len by (simp add: res_simps)
  then show False
    using p res_mapM_not_Panic [of "[0..<unat (data ! 1)]" "\<lambda>i. read_u16 data (2 + i * 2)"] by simp
qed

section \<open>What an accepted handshake guarantees\<close>

definition handshake_ok :: "handshake_data \<Rightarrow> bool" where
  "handshake_ok h \<longleftrightarrow> plain_name (h_safe_name h) \<and> 0 < h_chunk_size h \<and> h_chunk_size h < 2 ^ 32
     \<and> 0 < h_num_chunks h \<and> h_num_chunks h \<le> MAX_CHUNKS \<and> length (h_full_hash h) = 32"

lemma parse_handshake_sound: "parse_handshake data = Ok h \<Longrightarrow> handshake_ok h"
proof -
  assume p: "parse_handshake data = Ok h"
  then obtain base cs nc fh fs nm off where base: "file_name (from_utf8_lossy nm) = Some base"
    and fh: "read_bytes data off 32 = Ok fh" and cs: "unat (cs :: u32) \<noteq> 0" and nc: "unat (nc :: u32) \<noteq> 0"
    and mx: "\<not> unat nc > MAX_CHUNKS"
    and h: "h = \<lparr>h_filename = from_utf8_lossy nm, h_safe_name = to_string_lossy base, h_file_size = fs,
          h_chunk_size = unat cs, h_num_chunks = unat nc, h_full_hash = fh\<rparr>"
    by (auto simp: parse_handshake_def Let_def res_simps split: if_splits option.splits)
  have "length fh = 32" using fh by (rule read_bytes_length)
  moreover have "plain_name (to_string_lossy base)" using base file_name_plain plain_name_lossy by blast
  ultimately show ?thesis
    using cs nc mx unat_u32_less [of cs] unfolding h handshake_ok_def handshake_data.simps by linarith
qed

section \<open>Round trips\<close>

lemma length_HANDSHAKE_MAGIC [simp]: "length HANDSHAKE_MAGIC = 4"
  by (simp add: HANDSHAKE_MAGIC_def)

lemma parse_handshake_bytes:
  assumes name: "length nb \<le> MAX_FILENAME_LEN" "file_name (from_utf8_lossy nb) = Some base"
    and cs: "0 < cs" "cs < 2 ^ 32" and nc: "0 < nc" "nc \<le> MAX_CHUNKS" and fh: "length fh = 32"
  shows "parse_handshake (handshake_bytes nb fs cs nc fh @ junk) =
    Ok \<lparr>h_filename = from_utf8_lossy nb, h_safe_name = to_string_lossy base, h_file_size = fs,
        h_chunk_size = cs, h_num_chunks = nc, h_full_hash = fh\<rparr>"
proof -
  let ?data = "handshake_bytes nb fs cs nc fh @ junk"
  let ?o = "PREFIX_SIZE + length nb"
  have nl: "unat (word_of_nat (length nb) :: u16) = length nb"
    using name(1) by (intro unat_u16_of_usize) (simp add: MAX_FILENAME_LEN_def)
  have "nc < 2 ^ 32" using nc(2) by (simp add: MAX_CHUNKS_def)
  then have nn: "unat (word_of_nat nc :: u32) = nc" by (rule unat_u32_of_usize)
  have cc: "unat (word_of_nat cs :: u32) = cs" using cs(2) by (rule unat_u32_of_usize)
  have len: "length ?data = 54 + length nb + length junk"
    using fh by (simp add: handshake_bytes_def HANDSHAKE_MAGIC_def)
  have fields: "read_bytes ?data 0 4 = Ok HANDSHAKE_MAGIC"
    "read_u16 ?data 4 = Ok (word_of_nat (length nb))"
    "read_bytes ?data PREFIX_SIZE (length nb) = Ok nb"
    "read_u64 ?data ?o = Ok fs" "read_u32 ?data (?o + 8) = Ok (word_of_nat cs)"
    "read_u32 ?data (?o + 12) = Ok (word_of_nat nc)" "read_bytes ?data (?o + 16) 32 = Ok fh"
    using len fh by (simp_all add: res_simps handshake_bytes_def PREFIX_SIZE_def)
  have "\<not> length ?data < PREFIX_SIZE + SUFFIX_SIZE" "\<not> length ?data < PREFIX_SIZE + length nb + SUFFIX_SIZE"
    using len by (simp_all add: PREFIX_SIZE_def SUFFIX_SIZE_def)
  then show ?thesis
    using name cs(1) nc unfolding parse_handshake_def fields
    by (simp add: nl cc nn fields Let_def del: length_append)
qed

lemma lossy_str_bytes: "from_utf8_lossy (str_bytes (to_string_lossy s)) = to_string_lossy s"
  by (simp add: from_utf8_lossy_def to_string_lossy_def utf8_lossy_idem)

lemma to_string_lossy_idem: "to_string_lossy (to_string_lossy s) = to_string_lossy s"
  by (simp add: to_string_lossy_def utf8_lossy_idem)

lemma response_length: "length (response_bytes st ports) = 2 + length ports * 2"
  using port_block.length_table [of ports] by (simp add: response_bytes_def list_all_iff)

lemma parse_response_bytes:
  assumes "length ports < 256"
  shows "parse_response (response_bytes status ports) = Ok (status, ports)"
proof -
  let ?d = "response_bytes status ports"
  have n: "unat (word_of_nat (length ports) :: u8) = length ports"
    using assms by (intro unat_u8_of_usize) simp
  have "res_mapM (\<lambda>i. read_u16 ?d (2 + i * 2)) [0..<length ports] = Ok ports"
    using port_block.read_table [of "[status, word_of_nat (length ports)]" 2 ports "[]"]
    by (simp add: read_u16_def response_bytes_def list_all_iff)
  then show ?thesis
    using response_length [of status ports] n
    by (simp add: parse_response_def index_at_def response_bytes_def)
qed

text \<open>The one-byte count wraps: with 256 ports or more the client is told fewer.\<close>

lemma parse_response_wraps:
  assumes "parse_response (response_bytes status ports) = Ok (s, ps)"
  shows "length ps = length ports mod 256"
proof -
  have len: "res_mapM f xs = Ok ys \<Longrightarrow> length ys = length xs" for f :: "nat \<Rightarrow> u16 res" and xs ys
    by (induction xs arbitrary: ys) (auto simp: res_simps)
  show ?thesis
    using assms by (auto simp: parse_response_def Let_def res_simps index_at_def response_bytes_def unat_of_nat
        dest!: len split: if_splits)
qed

interpretation handshake_codec: codec
  "\<lambda>h. handshake_bytes (str_bytes (h_filename h)) (h_file_size h) (h_chunk_size h) (h_num_chunks h) (h_full_hash h)"
  parse_handshake
  "\<lambda>h. handshake_ok h \<and> h_safe_name h = h_filename h \<and> to_string_lossy (h_filename h) = h_filename h
     \<and> length (h_filename h) \<le> MAX_FILENAME_LEN"
proof unfold_locales
  fix h :: handshake_data
  let ?n = "h_filename h"
  assume v: "handshake_ok h \<and> h_safe_name h = ?n \<and> to_string_lossy ?n = ?n \<and> length ?n \<le> MAX_FILENAME_LEN"
  then have "from_utf8_lossy (str_bytes ?n) = ?n" by (metis lossy_str_bytes)
  moreover have "file_name ?n = Some ?n" using v by (auto simp: handshake_ok_def intro: file_name_of_plain)
  ultimately show "parse_handshake (handshake_bytes (str_bytes ?n) (h_file_size h) (h_chunk_size h)
      (h_num_chunks h) (h_full_hash h)) = Ok h"
    using v parse_handshake_bytes [of "str_bytes ?n" ?n "h_chunk_size h" "h_num_chunks h" "h_full_hash h"
        "h_file_size h" "[]"]
    by (cases h) (simp add: handshake_ok_def)
qed

interpretation response_codec: codec "\<lambda>(st, ports). response_bytes st ports" parse_response
  "\<lambda>(st, ports). length ports < 256"
  by unfold_locales (auto simp: parse_response_bytes)

section \<open>Counting chunks\<close>

lemma div_ceil_Ok:
  assumes c: "0 < c"
  shows "div_ceil n c = Ok ((n + c - 1) div c)"
proof -
  let ?q = "n div c" and ?r = "n mod c"
  have n: "n = ?q * c + ?r" by simp
  have r: "?r < c" using c by simp
  show ?thesis
  proof (cases "?r = 0")
    case True
    then have "n + c - 1 = (c - 1) + ?q * c" using c n by linarith
    then have "(n + c - 1) div c = ?q" using c by (simp only: div_mult_self1) simp
    then show ?thesis using True c by (simp add: div_ceil_def)
  next
    case False
    then have "n + c - 1 = (?r - 1) + (?q * c + c)" using c n by linarith
    then have "n + c - 1 = (?r - 1) + (?q + 1) * c" by simp
    then have "(n + c - 1) div c = ?q + 1" using c r by (simp only: div_mult_self1) simp
    then show ?thesis using False c by (simp add: div_ceil_def)
  qed
qed

lemma div_ceil_bounds:
  "div_ceil n c = Ok k \<Longrightarrow> 0 < n \<Longrightarrow> 0 < k \<and> (k - 1) * c < n \<and> n \<le> k * c"
proof -
  assume a: "div_ceil n c = Ok k" "0 < n"
  then have c: "0 < c" by (auto simp: div_ceil_def split: if_splits)
  have n: "n div c * c + n mod c = n" by simp
  show ?thesis
  proof (cases "n mod c = 0")
    case True
    then have k: "k = n div c" using a c by (simp add: div_ceil_def)
    then have "k * c = n" using n True by simp
    then have "0 < k" using a(2) by (cases k) auto
    then show ?thesis using \<open>k * c = n\<close> c by (cases k) auto
  next
    case False
    then have k: "k = n div c + 1" using a c by (simp add: div_ceil_def)
    have "k * c = n div c * c + c" by (simp add: k)
    moreover have "(k - 1) * c = n div c * c" by (simp add: k)
    moreover have "n mod c < c" using c by simp
    ultimately show ?thesis using n False k by linarith
  qed
qed

section \<open>Properties\<close>

text \<open>C15: The server's handshake parser is total on hostile input: no bytes make it panic, and what it
  accepts names a file directly inside the output directory (no separator, not empty, not a dot name),
  has a positive chunk size and count within the limits, and a 32-byte hash.\<close>

theorem handshake_parser_safe:
  "parse_handshake data \<noteq> Panic \<and>
   (\<forall>h. parse_handshake data = Ok h \<longrightarrow>
      plain_name (h_safe_name h)
      \<and> path_of (dir @ ''/'' @ h_safe_name h) = (dir = [] \<or> hd dir = CHR ''/'', path_comps dir @ [h_safe_name h])
      \<and> 0 < h_chunk_size h \<and> h_chunk_size h < 2 ^ 32 \<and> 0 < h_num_chunks h
      \<and> h_num_chunks h \<le> MAX_CHUNKS \<and> length (h_full_hash h) = 32)"
proof (intro conjI allI impI)
  show "parse_handshake data \<noteq> Panic" by (rule parse_handshake_not_Panic)
  fix h assume "parse_handshake data = Ok h"
  then have ok: "handshake_ok h" by (rule parse_handshake_sound)
  then have p: "plain_name (h_safe_name h)" by (simp add: handshake_ok_def)
  show "plain_name (h_safe_name h)" by (rule p)
  show "path_of (dir @ ''/'' @ h_safe_name h) = (dir = [] \<or> hd dir = CHR ''/'', path_comps dir @ [h_safe_name h])"
    using path_comps_dir [OF p, of dir] by (cases dir) (auto simp: path_of_def)
qed (use parse_handshake_sound in \<open>auto simp: handshake_ok_def\<close>)

lemma handshake_parser_safe_witness:
  "\<exists>h. parse_handshake (handshake_bytes (str_bytes ''../../x/f'') 3 2 2 (replicate 32 7)) = Ok h
     \<and> h_safe_name h = ''f'' \<and> plain_name (h_safe_name h)"
proof -
  let ?h = "\<lparr>h_filename = ''../../x/f'', h_safe_name = ''f'', h_file_size = 3, h_chunk_size = 2,
     h_num_chunks = 2, h_full_hash = replicate 32 7\<rparr>"
  let ?d = "handshake_bytes (str_bytes ''../../x/f'') 3 2 2 (replicate 32 7)"
  have "parse_handshake ?d = Ok ?h" by code_simp
  then show ?thesis using handshake_parser_safe [of ?d "''out''"] by auto
qed

text \<open>The client reads any response without a panic; a response with fewer than 256 ports is read as
  it was sent, and with 256 or more (the count is one byte) the client is told their number modulo 256.\<close>

theorem response_roundtrip:
  "parse_response data \<noteq> Panic
   \<and> (length ports < 256 \<longrightarrow> parse_response (response_bytes status ports) = Ok (status, ports))
   \<and> (\<forall>s ps. parse_response (response_bytes status ports) = Ok (s, ps) \<longrightarrow> length ps = length ports mod 256)"
  using parse_response_not_Panic parse_response_bytes parse_response_wraps by blast

lemma response_roundtrip_witness:
  "parse_response (response_bytes RESP_OK [45000, 45001]) = Ok (RESP_OK, [45000, 45001])
   \<and> length [45000, 45001 :: u16] = 2"
  using response_roundtrip [of "[]" "[45000, 45001]" RESP_OK] by simp

end
