(* ===== verification/Control.thy ===== *)
theory Control
  imports Server_State Data_Handler Handshake
begin

text \<open>
  The control connection (\<open>src/server/handler/control.rs\<close>): handshake, the check for an existing
  file, resuming, port allocation, waiting for the chunks, assembly, the final status, cleanup.

  While a control connection waits, the data connections run. A \<open>round\<close> of \<open>wait_for_completion\<close>
  is what happens between two of its polls: the frames the data connections of any transfer handle
  (each one iteration of \<open>handle_data_connection\<close>'s loop), and what ends the wait.
\<close>

section \<open>The steps before the transfer\<close>

definition check_existing_file :: "'h blake3 \<Rightarrow> disk \<Rightarrow> string \<Rightarrow> string \<Rightarrow> bytes \<Rightarrow> bool res" where
  "check_existing_file B d output_dir safe_name expected_hash =
     (let final_path = output_dir @ ''/'' @ safe_name in
      res_bind (fs_exists d (path_of final_path)) (\<lambda>exists.
      if \<not> exists then Ok False
      else res_bind (file_hash B d final_path) (\<lambda>existing_hash. Ok (existing_hash = expected_hash))))"

definition create_receiver ::
  "string \<Rightarrow> u64 \<Rightarrow> usize \<Rightarrow> usize \<Rightarrow> bytes \<Rightarrow> string \<Rightarrow> string \<Rightarrow> receiver" where
  "create_receiver safe_name file_size chunk_size num_chunks full_hash output_dir parts_dir =
     receiver_new safe_name file_size chunk_size num_chunks full_hash output_dir parts_dir"

text \<open>\<open>None\<close> is a return from the connection.\<close>

definition receive_handshake :: "stream \<Rightarrow> stream \<times> handshake_data option res" where
  "receive_handshake s =
     (case recv_timeout s of
        (s1, Err e) \<Rightarrow> (s1, Ok None)
      | (s1, Panic) \<Rightarrow> (s1, Panic)
      | (s1, Ok data) \<Rightarrow>
          if data = [] then (s1, Ok None) else
          (case parse_handshake data of
             Ok h \<Rightarrow> (s1, Ok (Some h))
           | Err e \<Rightarrow> st_bind (send_handshake_response s1 RESP_ERR []) (\<lambda>s2 _. (s2, Ok None))
           | Panic \<Rightarrow> (s1, Panic)))"

text \<open>Existing file and directories; \<open>True\<close> when the transfer goes on.\<close>

definition prepare_transfer ::
  "'h blake3 \<Rightarrow> disk \<Rightarrow> stream \<Rightarrow> handshake_data \<Rightarrow> string \<Rightarrow> string \<Rightarrow> stream \<times> bool res" where
  "prepare_transfer B d s h output_dir temp_dir =
     st_bind (s, check_existing_file B d output_dir (h_safe_name h) (h_full_hash h)) (\<lambda>s matches.
     if matches then st_bind (send_handshake_response s RESP_EXISTS []) (\<lambda>s _. (s, Ok False))
     else
       (case create_dir_all d output_dir of
          Err e \<Rightarrow> st_bind (send_handshake_response s RESP_ERR []) (\<lambda>s _. (s, Ok False))
        | Panic \<Rightarrow> (s, Panic)
        | Ok _ \<Rightarrow>
            if temp_dir \<noteq> output_dir \<and> \<not> is_ok (create_dir_all d temp_dir)
            then st_bind (send_handshake_response s RESP_ERR []) (\<lambda>s _. (s, Ok False))
            else (s, Ok True)))"

fun mark_received :: "bool list \<Rightarrow> usize list \<Rightarrow> bool list res" where
  "mark_received flags [] = Ok flags"
| "mark_received flags (idx # rest) = res_bind (set_at flags idx True) (\<lambda>flags. mark_received flags rest)"

definition resume_receiver ::
  "'h blake3 \<Rightarrow> receiver \<Rightarrow> disk \<Rightarrow> (receiver \<times> disk) \<times> bool res" where
  "resume_receiver B rc d =
     (case load_or_purge_metadata B rc d of
        (d', Err e) \<Rightarrow> ((rc, d'), Err e)
      | (d', Panic) \<Rightarrow> ((rc, d'), Panic)
      | (d', Ok None) \<Rightarrow> ((rc, d'), Ok False)
      | (d', Ok (Some m)) \<Rightarrow>
          (case mark_received (received_chunks rc) (Mapping.ordered_keys (hash_table m)) of
             Err e \<Rightarrow> ((rc, d'), Err e)
           | Panic \<Rightarrow> ((rc, d'), Panic)
           | Ok flags \<Rightarrow>
               let rc' = rc\<lparr>received_chunks := flags, r_metadata := m\<rparr>;
                   count = length (filter (\<lambda>c. c) (received_chunks rc'))
               in ((rc', d'), Ok (count = r_num_chunks rc'))))"

definition final_status :: "bool \<Rightarrow> u8" where
  "final_status success = (if success then RESP_OK else RESP_ERR)"

text \<open>\<open>Ok(false) | Err(_)\<close> count as failure.\<close>

definition assemble_file :: "'h blake3 \<Rightarrow> receiver \<Rightarrow> disk \<Rightarrow> disk \<times> bool res" where
  "assemble_file B rc d = assemble B rc d"

definition succeeded :: "bool res \<Rightarrow> bool" where
  "succeeded r \<longleftrightarrow> r = Ok True"

definition confirm_complete :: "'h blake3 \<Rightarrow> receiver \<Rightarrow> disk \<Rightarrow> stream \<Rightarrow> (disk \<times> stream) \<times> unit res" where
  "confirm_complete B rc d s =
     (case send_handshake_response s RESP_COMPLETE [] of
        (s1, Err e) \<Rightarrow> ((d, s1), Err e)
      | (s1, Panic) \<Rightarrow> ((d, s1), Panic)
      | (s1, Ok _) \<Rightarrow>
          (case assemble_file B rc d of
             (d', Panic) \<Rightarrow> ((d', s1), Panic)
           | (d', r) \<Rightarrow> ((d', fst (send_timeout s1 [final_status (succeeded r)])), Ok ())))"

section \<open>Opening the data ports\<close>

definition share_receiver :: "'p server \<Rightarrow> receiver \<Rightarrow> 'p server \<times> nat" where
  "share_receiver srv rc = (srv\<lparr>receivers := receivers srv @ [rc]\<rparr>, length (receivers srv))"

datatype control = Finished | Waiting nat "u16 list"

text \<open>Listeners that go out of scope are closed.\<close>

definition drop_sockets :: "'p server \<Rightarrow> u16 list \<Rightarrow> 'p server" where
  "drop_sockets srv ports = srv\<lparr>bound := bound srv - set ports\<rparr>"

definition open_ports ::
  "'p semaphore \<Rightarrow> (u16 \<Rightarrow> bool) \<Rightarrow> 'p server \<Rightarrow> stream \<Rightarrow> receiver \<Rightarrow> usize
     \<Rightarrow> ('p server \<times> stream) \<times> control res" where
  "open_ports S os_free srv s rc max_parallel =
     (case allocate_sockets S os_free srv (r_num_chunks rc) max_parallel of
        (srv1, Err e) \<Rightarrow>
          (case send_handshake_response s RESP_ERR [] of (s1, r) \<Rightarrow> ((srv1, s1), res_map (\<lambda>_. Finished) r))
      | (srv1, Panic) \<Rightarrow> ((srv1, s), Panic)
      | (srv1, Ok data_socks) \<Rightarrow>
          let ports = sockets_to_ports data_socks in
          (case share_receiver srv1 rc of (srv2, rid) \<Rightarrow>
           let srv3 = register_receivers srv2 data_socks rid in
           (case send_handshake_response s RESP_OK ports of
              (s1, Ok _) \<Rightarrow> ((srv3, s1), Ok (Waiting rid ports))
            | (s1, Err e) \<Rightarrow> ((drop_sockets srv3 ports, s1), Err e)
            | (s1, Panic) \<Rightarrow> ((drop_sockets srv3 ports, s1), Panic))))"

definition control_open ::
  "'p semaphore \<Rightarrow> 'h blake3 \<Rightarrow> (u16 \<Rightarrow> bool) \<Rightarrow> 'p server \<Rightarrow> stream \<Rightarrow> string \<Rightarrow> string \<Rightarrow> usize
     \<Rightarrow> ('p server \<times> stream) \<times> control res" where
  "control_open S B os_free srv s output_dir temp_dir max_parallel =
     (case receive_handshake s of
        (s1, Err e) \<Rightarrow> ((srv, s1), Err e)
      | (s1, Panic) \<Rightarrow> ((srv, s1), Panic)
      | (s1, Ok None) \<Rightarrow> ((srv, s1), Ok Finished)
      | (s1, Ok (Some h)) \<Rightarrow>
          (case prepare_transfer B (sdisk srv) s1 h output_dir temp_dir of
             (s2, Err e) \<Rightarrow> ((srv, s2), Err e)
           | (s2, Panic) \<Rightarrow> ((srv, s2), Panic)
           | (s2, Ok False) \<Rightarrow> ((srv, s2), Ok Finished)
           | (s2, Ok True) \<Rightarrow>
               let rc0 = create_receiver (h_safe_name h) (h_file_size h) (h_chunk_size h)
                           (h_num_chunks h) (h_full_hash h) output_dir temp_dir in
               (case resume_receiver B rc0 (sdisk srv) of
                  ((rc, d), Err e) \<Rightarrow> ((srv\<lparr>sdisk := d\<rparr>, s2), Err e)
                | ((rc, d), Panic) \<Rightarrow> ((srv\<lparr>sdisk := d\<rparr>, s2), Panic)
                | ((rc, d), Ok True) \<Rightarrow>
                    (case confirm_complete B rc d s2 of
                       ((d', s3), r) \<Rightarrow> ((srv\<lparr>sdisk := d'\<rparr>, s3), res_map (\<lambda>_. Finished) r))
                | ((rc, d), Ok False) \<Rightarrow> open_ports S os_free (srv\<lparr>sdisk := d\<rparr>) s2 rc max_parallel)))"

section \<open>While the chunks arrive\<close>

definition data_turn :: "'h blake3 \<Rightarrow> 'p server \<Rightarrow> nat \<times> stream \<Rightarrow> 'p server" where
  "data_turn B srv turn =
     (case turn of (rid, s) \<Rightarrow>
        if rid < length (receivers srv) then
          (case data_iteration B (receivers srv ! rid) (sdisk srv) s of
             ((rc', d', s'), r) \<Rightarrow> srv\<lparr>receivers := (receivers srv)[rid := rc'], sdisk := d'\<rparr>)
        else srv)"

text \<open>A whole data connection: the registry gives the receiver, or the connection is closed.\<close>

definition handle_data_connection ::
  "'h blake3 \<Rightarrow> 'p server \<Rightarrow> stream \<Rightarrow> u16 \<Rightarrow> ('p server \<times> stream) \<times> unit res" where
  "handle_data_connection B srv s local_port =
     (case get_receiver srv local_port of
        None \<Rightarrow> ((srv, s), Ok ())
      | Some rid \<Rightarrow>
          (case index_at (receivers srv) rid of
             Ok rc \<Rightarrow>
               (case data_loop B rc (sdisk srv) s of
                  ((rc', d', s'), r) \<Rightarrow>
                    ((srv\<lparr>receivers := (receivers srv)[rid := rc'], sdisk := d'\<rparr>, s'), r))
           | Err e \<Rightarrow> ((srv, s), Err e)
           | Panic \<Rightarrow> ((srv, s), Panic)))"

datatype select_outcome = Slept | ReadClosed | ReadFailed | ReadByte

type_synonym round = "(nat \<times> stream) list \<times> select_outcome"

text \<open>The second component tells whether the loop has ended within the given rounds.\<close>

fun wait_for_completion :: "'h blake3 \<Rightarrow> 'p server \<Rightarrow> nat \<Rightarrow> round list \<Rightarrow> 'p server \<times> bool" where
  "wait_for_completion B srv rid [] =
     (srv, is_complete (receivers srv ! rid) \<or> r_failed (receivers srv ! rid))"
| "wait_for_completion B srv rid ((turns, outcome) # rounds) =
     (if is_complete (receivers srv ! rid) \<or> r_failed (receivers srv ! rid) then (srv, True)
      else
        let srv' = foldl (data_turn B) srv turns in
        (case outcome of
           Slept \<Rightarrow> wait_for_completion B srv' rid rounds
         | ReadByte \<Rightarrow> wait_for_completion B srv' rid rounds
         | ReadClosed \<Rightarrow> (srv', True)
         | ReadFailed \<Rightarrow> (srv', True)))"

section \<open>Assembly, final status, cleanup\<close>

definition control_close ::
  "'p semaphore \<Rightarrow> 'h blake3 \<Rightarrow> 'p server \<Rightarrow> stream \<Rightarrow> nat \<Rightarrow> u16 list
     \<Rightarrow> ('p server \<times> stream) \<times> unit res" where
  "control_close S B srv s rid ports =
     (let rc = receivers srv ! rid;
          result =
            (if r_failed rc then (sdisk srv, Ok False)
             else if \<not> is_complete rc then (sdisk srv, Ok False)
             else assemble_file B rc (sdisk srv))
      in case result of
           (d', Panic) \<Rightarrow> ((srv\<lparr>sdisk := d'\<rparr>, s), Panic)
         | (d', r) \<Rightarrow>
             ((cleanup S (srv\<lparr>sdisk := d'\<rparr>) ports, fst (send_timeout s [final_status (succeeded r)])), Ok ()))"

text \<open>The whole connection over a schedule of rounds; \<open>Ok False\<close> when the schedule ends while the
  connection still waits.\<close>

definition handle_control_connection ::
  "'p semaphore \<Rightarrow> 'h blake3 \<Rightarrow> (u16 \<Rightarrow> bool) \<Rightarrow> 'p server \<Rightarrow> stream \<Rightarrow> string \<Rightarrow> string \<Rightarrow> usize
     \<Rightarrow> round list \<Rightarrow> ('p server \<times> stream) \<times> bool res" where
  "handle_control_connection S B os_free srv s output_dir temp_dir max_parallel rounds =
     (case control_open S B os_free srv s output_dir temp_dir max_parallel of
        (st, Err e) \<Rightarrow> (st, Err e)
      | (st, Panic) \<Rightarrow> (st, Panic)
      | (st, Ok Finished) \<Rightarrow> (st, Ok True)
      | ((srv1, s1), Ok (Waiting rid ports)) \<Rightarrow>
          (case wait_for_completion B srv1 rid rounds of
             (srv2, False) \<Rightarrow> ((srv2, s1), Ok False)
           | (srv2, True) \<Rightarrow>
               (case control_close S B srv2 s1 rid ports of (st, r) \<Rightarrow> (st, res_map (\<lambda>_. True) r))))"

section \<open>Resuming\<close>

lemma mark_received_spec:
  "mark_received flags is = (if \<forall>i \<in> set is. i < length flags
     then Ok (map (\<lambda>i. flags ! i \<or> i \<in> set is) [0..<length flags]) else Panic)"
proof (induction "is" arbitrary: flags)
  case Nil
  then show ?case by (simp add: map_nth)
next
  case (Cons i js)
  then show ?case
    by (auto simp: set_at_def nth_list_update intro!: nth_equalityI)
qed

lemma load_Some_finite:
  assumes "dirs_ok rc" "load_or_purge_metadata B rc d = (d', Ok (Some m))"
  shows "finite (dom (chunk_hashes m))"
    and "params_match m (r_chunk_size rc) (r_num_chunks rc) (r_file_size rc) (r_full_hash rc)"
proof -
  obtain stored V where st: "meta_load d (r_parts_dir rc) (r_filename rc) = Ok (Some stored)"
    and hs: "chunk_hashes m = (chunk_hashes stored) |` V"
    and pm: "params_match m (r_chunk_size rc) (r_num_chunks rc) (r_file_size rc) (r_full_hash rc)"
    by (rule load_or_purge_Some [OF assms]) blast
  have "finite (dom (chunk_hashes stored))"
    using st meta_from_bytes_bounds(4) by (auto simp: meta_load_def Let_def res_simps split: if_splits)
  then show "finite (dom (chunk_hashes m))" using hs by simp
  show "params_match m (r_chunk_size rc) (r_num_chunks rc) (r_file_size rc) (r_full_hash rc)" by (rule pm)
qed

text \<open>A fresh receiver, as \<open>handle_control_connection\<close> makes it from an accepted handshake.\<close>

definition fresh :: "receiver \<Rightarrow> bool" where
  "fresh rc \<longleftrightarrow> receiver_wf rc \<and> dirs_ok rc \<and> \<not> r_failed rc \<and> chunk_hashes (r_metadata rc) = Map.empty
     \<and> 0 < r_num_chunks rc"

lemma create_receiver_fresh:
  assumes "handshake_ok h" "output_dir \<noteq> []" "temp_dir \<noteq> []"
  shows "fresh (create_receiver (h_safe_name h) (h_file_size h) (h_chunk_size h) (h_num_chunks h)
    (h_full_hash h) output_dir temp_dir)"
proof -
  have "h_num_chunks h < 2 ^ 32" "h_chunk_size h < 2 ^ 32" "length (h_full_hash h) = 32"
    using assms(1) by (auto simp: handshake_ok_def MAX_CHUNKS_def)
  then have "receiver_wf (create_receiver (h_safe_name h) (h_file_size h) (h_chunk_size h) (h_num_chunks h)
    (h_full_hash h) output_dir temp_dir)"
    unfolding create_receiver_def by (intro receiver_new_wf)
  then show ?thesis
    using assms by (simp add: fresh_def create_receiver_def receiver_new_def meta_new_def dirs_ok_def handshake_ok_def)
qed

lemma fresh_flags: "fresh rc \<Longrightarrow> i < r_num_chunks rc \<Longrightarrow> \<not> received_chunks rc ! i"
  by (auto simp: fresh_def receiver_wf_def)

lemma count_all_flags: "length (filter (\<lambda>c. c) flags) = length flags \<longleftrightarrow> list_all (\<lambda>c. c) flags"
proof (induction flags)
  case (Cons c cs)
  have "length (filter (\<lambda>c. c) cs) \<noteq> Suc (length cs)" by (metis Suc_n_not_le_n length_filter_le)
  then show ?case using Cons by (cases c) auto
qed simp

lemma resume_receiver_ok:
  assumes fr: "fresh rc0" and r: "resume_receiver B rc0 d = ((rc, d'), Ok b)"
  shows "data_inv B rc d' \<and> same_transfer rc0 rc \<and> \<not> r_failed rc \<and> (b \<longleftrightarrow> is_complete rc)
    \<and> r_num_chunks rc = r_num_chunks rc0"
proof -
  have wf: "receiver_wf rc0" and ok: "dirs_ok rc0" and n: "0 < r_num_chunks rc0" using fr by (auto simp: fresh_def)
  have len: "length (received_chunks rc0) = r_num_chunks rc0" using wf by (simp add: receiver_wf_def)
  obtain mo where load: "load_or_purge_metadata B rc0 d = (d', Ok mo)"
    using r by (auto simp: resume_receiver_def Let_def split: prod.splits res.splits option.splits)
  show ?thesis
  proof (cases mo)
    case None
    then have "rc = rc0" "\<not> b" using r load by (auto simp: resume_receiver_def)
    moreover have "\<not> is_complete rc0" using is_complete_iff [OF wf] fresh_flags [OF fr] n by auto
    moreover have "data_inv B rc0 d'" using fr by (simp add: fresh_def data_inv_def parts_match_def)
    ultimately show ?thesis using fr by (simp add: fresh_def)
  next
    case (Some m)
    note load = load [unfolded Some]
    let ?D = "dom (chunk_hashes m)"
    have fin: "finite ?D" and pm: "params_match m (r_chunk_size rc0) (r_num_chunks rc0) (r_file_size rc0) (r_full_hash rc0)"
      using load_Some_finite [OF ok load] by simp_all
    obtain flags where fl: "mark_received (received_chunks rc0) (Mapping.ordered_keys (hash_table m)) = Ok flags"
      and rc: "rc = rc0\<lparr>received_chunks := flags, r_metadata := m\<rparr>"
      and b: "b \<longleftrightarrow> length (filter (\<lambda>c. c) flags) = r_num_chunks rc0"
      using r load by (auto simp: resume_receiver_def Let_def split: res.splits)
    have flags: "flags = map (\<lambda>i. i \<in> ?D) [0..<r_num_chunks rc0]" and sub: "?D \<subseteq> {..<r_num_chunks rc0}"
      using fl fin fresh_flags [OF fr] len by (auto simp: mark_received_spec split: if_splits)
    have "\<And>i. i < r_num_chunks rc0 \<Longrightarrow> flags ! i \<longleftrightarrow> i \<in> ?D" using flags by simp
    then have D: "?D = {i. i < r_num_chunks rc0 \<and> flags ! i}" using sub by blast
    have fll: "length flags = r_num_chunks rc0" using flags by simp
    have l32: "\<forall>i h. chunk_hashes m i = Some h \<longrightarrow> length h = 32"
      using load_or_purge_parts [OF ok load] by blast
    have "receiver_wf rc"
      using wf pm D fll l32 rc by (simp add: receiver_wf_def)
    moreover have "dirs_ok rc" using ok rc by (simp add: dirs_ok_def)
    moreover have "parts_match B rc d'"
      using load_or_purge_parts [OF ok load] rc by (fastforce simp: parts_match_def receiver_part_def)
    moreover have "b \<longleftrightarrow> is_complete rc"
      using b rc fll count_all_flags [of flags] by (simp add: is_complete_def)
    ultimately show ?thesis using fr rc by (simp add: data_inv_def same_transfer_def fresh_def)
  qed
qed

text \<open>Resuming panics only on stored metadata with an index beyond the chunk count.\<close>

lemma resume_receiver_Panic:
  assumes "fresh rc0" "resume_receiver B rc0 d = (st, Panic)"
  shows "\<exists>stored i h. meta_load d (r_parts_dir rc0) (r_filename rc0) = Ok (Some stored)
    \<and> chunk_hashes stored i = Some h \<and> r_num_chunks rc0 \<le> i"
proof -
  have wf: "receiver_wf rc0" and ok: "dirs_ok rc0" using assms(1) by (auto simp: fresh_def)
  obtain d' m where load: "load_or_purge_metadata B rc0 d = (d', Ok (Some m))"
    and mp: "mark_received (received_chunks rc0) (Mapping.ordered_keys (hash_table m)) = Panic"
    using assms(2) load_or_purge_not_Panic [of B rc0 d]
    by (auto simp: resume_receiver_def Let_def split: prod.splits res.splits option.splits)
  have fin: "finite (dom (chunk_hashes m))" using load_Some_finite [OF ok load] by simp
  obtain i h where i: "chunk_hashes m i = Some h" "r_num_chunks rc0 \<le> i"
    using mp fin wf by (auto simp: mark_received_spec receiver_wf_def not_less split: if_splits)
  obtain stored V where st: "meta_load d (r_parts_dir rc0) (r_filename rc0) = Ok (Some stored)"
    and hs: "chunk_hashes m = (chunk_hashes stored) |` V"
    by (rule load_or_purge_Some [OF ok load]) blast
  then show ?thesis using i by (auto simp: restrict_map_def split: if_splits)
qed

section \<open>The data connections of all transfers\<close>

text \<open>The files a transfer writes while chunks arrive. Transfers of different files into different
  names are apart; two clients sending the same name share them.\<close>

definition working_files :: "receiver \<Rightarrow> path set" where
  "working_files rc = range (receiver_part rc) \<union> {receiver_meta rc, tmp_file (r_parts_dir rc) (r_filename rc)}"

definition apart :: "receiver \<Rightarrow> receiver \<Rightarrow> bool" where
  "apart rc rc' \<longleftrightarrow> working_files rc \<inter> working_files rc' = {}"

definition server_inv :: "'h blake3 \<Rightarrow> 'p server \<Rightarrow> bool" where
  "server_inv B srv \<longleftrightarrow>
     (\<forall>r < length (receivers srv). data_inv B (receivers srv ! r) (sdisk srv)
        \<and> (\<forall>r' < length (receivers srv). r \<noteq> r' \<longrightarrow> apart (receivers srv ! r) (receivers srv ! r')))"

text \<open>What data connections may change of a receiver, and of the server.\<close>

definition rc_progress :: "receiver \<Rightarrow> receiver \<Rightarrow> bool" where
  "rc_progress rc rc' \<longleftrightarrow> same_transfer rc rc'
     \<and> (\<forall>i < r_num_chunks rc. received_chunks rc ! i \<longrightarrow> received_chunks rc' ! i)
     \<and> (r_failed rc \<longrightarrow> r_failed rc')"

definition server_progress :: "'p server \<Rightarrow> 'p server \<Rightarrow> bool" where
  "server_progress srv srv' \<longleftrightarrow> pool srv' = pool srv \<and> registry srv' = registry srv \<and> bound srv' = bound srv
     \<and> length (receivers srv') = length (receivers srv) \<and> same_faults (sdisk srv) (sdisk srv')
     \<and> (\<forall>r < length (receivers srv). rc_progress (receivers srv ! r) (receivers srv' ! r))"

lemma working_files_same: "same_transfer rc rc' \<Longrightarrow> working_files rc' = working_files rc"
  using same_transfer_paths [of rc rc'] by (simp add: working_files_def same_transfer_def)

lemma apart_same: "same_transfer a a' \<Longrightarrow> same_transfer b b' \<Longrightarrow> apart a' b' = apart a b"
  by (simp add: apart_def working_files_same)

lemma apart_data_inv:
  assumes "data_inv B rc d" "apart rc' rc" "data_step_ok rc' d rc'' d'"
  shows "data_inv B rc d'"
proof -
  have "files d' (receiver_part rc i) = files d (receiver_part rc i)" for i
  proof -
    have "receiver_part rc i \<in> working_files rc" by (simp add: working_files_def)
    then have "receiver_part rc i \<notin> working_files rc'" using assms(2) unfolding apart_def by blast
    then show ?thesis using assms(3) unfolding data_step_ok_def working_files_def by blast
  qed
  then show ?thesis using assms(1) by (simp add: data_inv_def parts_match_def)
qed

lemma rc_progress_refl [simp]: "rc_progress rc rc"
  by (simp add: rc_progress_def)

lemma rc_progress_trans: "rc_progress a b \<Longrightarrow> rc_progress b c \<Longrightarrow> rc_progress a c"
  by (simp add: rc_progress_def same_transfer_def)

lemma data_step_progress: "data_step_ok rc d rc' d' \<Longrightarrow> rc_progress rc rc'"
  by (simp add: rc_progress_def data_step_ok_def)

lemma server_progress_refl [simp]: "server_progress srv srv"
  by (simp add: server_progress_def)

lemma server_progress_trans:
  assumes "server_progress a b" "server_progress b c"
  shows "server_progress a c"
proof -
  have "rc_progress (receivers a ! r) (receivers c ! r)" if "r < length (receivers a)" for r
    using assms that rc_progress_trans unfolding server_progress_def by metis
  then show ?thesis using assms same_faults_trans by (simp add: server_progress_def) blast
qed

lemma data_turn_inv:
  assumes inv: "server_inv B srv"
  shows "server_inv B (data_turn B srv t) \<and> server_progress srv (data_turn B srv t)"
proof -
  obtain rid s where t: "t = (rid, s)" by (cases t)
  show ?thesis
  proof (cases "rid < length (receivers srv)")
    case False
    then show ?thesis using inv t by (simp add: data_turn_def)
  next
    case True
    let ?rc = "receivers srv ! rid" and ?d = "sdisk srv" and ?R = "receivers srv"
    obtain rc' d' s' r where it: "data_iteration B ?rc ?d s = ((rc', d', s'), r)" by (metis surj_pair)
    have rcs: "data_inv B ?rc ?d" using inv True by (simp add: server_inv_def)
    from data_iteration_inv [OF rcs it] have new: "data_inv B rc' d'" and st: "data_step_ok ?rc ?d rc' d'"
      by simp_all
    have same: "same_transfer (?R ! k) (?R[rid := rc'] ! k)" for k
      using st by (cases "k = rid") (auto simp: data_step_ok_def True)
    have prog: "rc_progress (?R ! k) (?R[rid := rc'] ! k)" for k
      using data_step_progress [OF st] by (cases "k = rid") (auto simp: True)
    have srv': "data_turn B srv t = srv\<lparr>receivers := ?R[rid := rc'], sdisk := d'\<rparr>"
      using True t it by (simp add: data_turn_def)
    have "data_inv B (?R[rid := rc'] ! k) d'" if "k < length ?R" for k
    proof (cases "k = rid")
      case False
      then have "apart ?rc (?R ! k)" "data_inv B (?R ! k) ?d" using inv True that by (auto simp: server_inv_def)
      then show ?thesis using apart_data_inv [OF _ _ st] False by simp
    qed (use new True in simp)
    moreover have "apart (?R[rid := rc'] ! k) (?R[rid := rc'] ! l)"
      if "k < length ?R" "l < length ?R" "k \<noteq> l" for k l
      using inv that apart_same [OF same same] by (simp add: server_inv_def)
    ultimately have "server_inv B (data_turn B srv t)" unfolding srv' server_inv_def by simp
    moreover have "server_progress srv (data_turn B srv t)"
      using prog st unfolding srv' server_progress_def by (simp add: data_step_ok_def)
    ultimately show ?thesis by simp
  qed
qed

text \<open>What every data connection's turn keeps holds when the waiting ends.\<close>

lemma wait_preserves:
  assumes turn: "\<And>x t. P x \<Longrightarrow> P (data_turn B x t)"
  shows "P srv \<Longrightarrow> wait_for_completion B srv rid rounds = (srv', left) \<Longrightarrow> P srv'"
proof (induction rounds arbitrary: srv)
  case Nil
  then show ?case by simp
next
  case (Cons rnd rounds)
  obtain turns outcome where rnd: "rnd = (turns, outcome)" by (cases rnd)
  have turns: "P x \<Longrightarrow> P (foldl (data_turn B) x ts)" for x ts
    by (induction ts arbitrary: x) (auto intro: turn)
  show ?case
  proof (cases "is_complete (receivers srv ! rid) \<or> r_failed (receivers srv ! rid)")
    case True
    then show ?thesis using Cons.prems rnd by auto
  next
    case False
    then have "srv' = foldl (data_turn B) srv turns
        \<or> wait_for_completion B (foldl (data_turn B) srv turns) rid rounds = (srv', left)"
      using Cons.prems(2) rnd by (cases outcome) (simp_all add: Let_def)
    then show ?thesis using Cons.IH [OF turns [OF Cons.prems(1)]] turns [OF Cons.prems(1)] by blast
  qed
qed

lemma wait_inv:
  assumes "server_inv B srv" "wait_for_completion B srv rid rounds = (srv', left)"
  shows "server_inv B srv' \<and> server_progress srv srv'"
proof (rule wait_preserves [OF _ _ assms(2)])
  show "server_inv B srv \<and> server_progress srv srv" using assms(1) by simp
  show "server_inv B (data_turn B x t) \<and> server_progress srv (data_turn B x t)"
    if "server_inv B x \<and> server_progress srv x" for x t
    using that data_turn_inv [of B x t] server_progress_trans by blast
qed

section \<open>What the client is told\<close>

text \<open>A stream the peer takes everything from without delay.\<close>

definition plain_stream :: "stream \<Rightarrow> bool" where
  "plain_stream s \<longleftrightarrow> tx_limit s = None \<and> tx_delays s = []"

lemma send_timeout_plain:
  "plain_stream s \<Longrightarrow> send_timeout s d = (s\<lparr>tx := tx s @ frame_bytes d\<rparr>, Ok ())"
  by (simp add: plain_stream_def send_timeout_def send_within_plain send_frame)

lemma plain_tx [simp]: "plain_stream (s\<lparr>tx := t\<rparr>) = plain_stream s"
  by (simp add: plain_stream_def)

lemma recv_timeout_tx:
  "recv_timeout s = (s1, r) \<Longrightarrow> tx s1 = tx s \<and> plain_stream s1 = plain_stream s"
  by (auto simp: recv_timeout_def recv_with_timeout_def recv_def read_exact_def Let_def plain_stream_def
      split: list.splits if_splits)

lemma receive_handshake_outcome:
  assumes "receive_handshake s = (s1, Ok ho)" "plain_stream s"
  shows "plain_stream s1 \<and> (case ho of
      Some h \<Rightarrow> tx s1 = tx s \<and> (\<exists>data s0. recv_timeout s = (s0, Ok data) \<and> parse_handshake data = Ok h)
    | None \<Rightarrow> tx s1 = tx s \<or> tx s1 = tx s @ frame_bytes (response_bytes RESP_ERR []))"
  using assms recv_timeout_tx [of s]
  by (auto simp: receive_handshake_def send_handshake_response_def send_timeout_plain
      split: prod.splits res.splits if_splits)

lemma check_existing_True:
  assumes "blake3_ok B" "check_existing_file B d out f h = Ok True"
  shows "\<exists>bs. files d (path_of (out @ ''/'' @ f)) = Some bs \<and> b3_hash B bs = h"
proof -
  let ?f = "out @ ''/'' @ f"
  have e: "files d (path_of ?f) \<noteq> None" "file_hash B d ?f = Ok h"
    using assms(2) by (auto simp: check_existing_file_def Let_def res_simps fs_exists_def split: if_splits)
  from file_hash_value [OF assms(1) e(2)] e(1) show ?thesis by (auto simp: contents_def)
qed

lemma prepare_transfer_outcome:
  assumes "blake3_ok B" "plain_stream s" "prepare_transfer B d s h out tmp = (s2, Ok go)"
  shows "plain_stream s2 \<and> (if go then s2 = s
    else (tx s2 = tx s @ frame_bytes (response_bytes RESP_ERR [])
      \<or> tx s2 = tx s @ frame_bytes (response_bytes RESP_EXISTS []) \<and>
        (\<exists>bs. files d (path_of (out @ ''/'' @ h_safe_name h)) = Some bs \<and> b3_hash B bs = h_full_hash h)))"
  using assms(2,3) check_existing_True [OF assms(1)]
  by (auto simp: prepare_transfer_def send_handshake_response_def send_timeout_plain res_simps
      split: res.splits if_splits)

text \<open>The file a transfer promises is on disk.\<close>

definition delivered :: "'h blake3 \<Rightarrow> disk \<Rightarrow> string \<Rightarrow> string \<Rightarrow> bytes \<Rightarrow> bool" where
  "delivered B d output_dir name full_hash \<longleftrightarrow>
     (\<exists>bs. files d (path_of (output_dir @ ''/'' @ name)) = Some bs \<and> b3_hash B bs = full_hash)"

lemma assemble_delivered:
  assumes "dirs_ok rc" "blake3_ok B" "assemble_file B rc d = (d', r)" "succeeded r"
  shows "delivered B d' (r_output_dir rc) (r_filename rc) (r_full_hash rc)"
  using assemble_True [of rc B d d'] assms
  by (auto simp: delivered_def assemble_file_def succeeded_def receiver_final_def final_path_def)

lemma confirm_complete_outcome:
  assumes "dirs_ok rc" "blake3_ok B" "plain_stream s" "confirm_complete B rc d s = ((d', s'), Ok u)"
  shows "\<exists>b. tx s' = tx s @ frame_bytes (response_bytes RESP_COMPLETE []) @ frame_bytes [final_status b]
    \<and> (b \<longrightarrow> delivered B d' (r_output_dir rc) (r_filename rc) (r_full_hash rc))"
proof -
  obtain d1 r where a: "assemble_file B rc d = (d1, r)" by (metis surj_pair)
  have "d' = d1" "tx s' = tx s @ frame_bytes (response_bytes RESP_COMPLETE []) @ frame_bytes [final_status (succeeded r)]"
    using assms(3,4) a
    by (auto simp: confirm_complete_def send_handshake_response_def send_timeout_plain split: res.splits)
  then show ?thesis using assemble_delivered [OF assms(1,2) a] by blast
qed

lemma control_close_result:
  assumes "control_close S B srv s rid ports = ((srv', s'), Ok u)" "rc = receivers srv ! rid"
  shows "\<exists>d' r. srv' = cleanup S (srv\<lparr>sdisk := d'\<rparr>) ports \<and> s' = fst (send_timeout s [final_status (succeeded r)])
    \<and> (succeeded r \<longrightarrow> is_complete rc \<and> \<not> r_failed rc \<and> assemble_file B rc (sdisk srv) = (d', r))"
proof -
  define result where "result = (if r_failed rc then (sdisk srv, Ok False)
     else if \<not> is_complete rc then (sdisk srv, Ok False) else assemble_file B rc (sdisk srv))"
  obtain d' r where res: "result = (d', r)" by (cases result)
  have "(case (d', r) of (d', Panic) \<Rightarrow> ((srv\<lparr>sdisk := d'\<rparr>, s), Panic)
      | (d', r) \<Rightarrow> ((cleanup S (srv\<lparr>sdisk := d'\<rparr>) ports, fst (send_timeout s [final_status (succeeded r)])), Ok ()))
      = ((srv', s'), Ok u)"
    using assms(1) unfolding control_close_def Let_def assms(2) [symmetric] result_def [symmetric] res .
  then have "srv' = cleanup S (srv\<lparr>sdisk := d'\<rparr>) ports" "s' = fst (send_timeout s [final_status (succeeded r)])"
    by (auto split: res.splits)
  moreover have "succeeded r \<Longrightarrow> is_complete rc \<and> \<not> r_failed rc \<and> assemble_file B rc (sdisk srv) = (d', r)"
    using res by (auto simp: result_def succeeded_def split: if_splits)
  ultimately show ?thesis by blast
qed

lemma control_close_shape:
  "control_close S B srv s rid ports = ((srv', s'), Ok u) \<Longrightarrow> \<exists>d. srv' = cleanup S (srv\<lparr>sdisk := d\<rparr>) ports"
  using control_close_result by blast

lemma control_close_outcome:
  assumes rc: "rc = receivers srv ! rid" "dirs_ok rc" and B: "blake3_ok B" and pl: "plain_stream s"
    and c: "control_close S B srv s rid ports = ((srv', s'), Ok u)"
  shows "\<exists>b. tx s' = tx s @ frame_bytes [final_status b]
    \<and> (b \<longrightarrow> delivered B (sdisk srv') (r_output_dir rc) (r_filename rc) (r_full_hash rc))
    \<and> (b \<longrightarrow> is_complete rc \<and> \<not> r_failed rc)"
proof -
  from control_close_result [OF c rc(1)] obtain d' r where
    s': "srv' = cleanup S (srv\<lparr>sdisk := d'\<rparr>) ports" "s' = fst (send_timeout s [final_status (succeeded r)])"
    and ok: "succeeded r \<longrightarrow> is_complete rc \<and> \<not> r_failed rc \<and> assemble_file B rc (sdisk srv) = (d', r)" by blast
  have "sdisk srv' = d'" using s' by (simp add: cleanup_def Let_def foldl_remove release_ports_def)
  moreover have "tx s' = tx s @ frame_bytes [final_status (succeeded r)]" using s'(2) pl by (simp add: send_timeout_plain)
  ultimately show ?thesis using ok assemble_delivered [OF rc(2) B] by blast
qed

text \<open>Whatever the data connections do, the receiver stays that of the transfer.\<close>

lemma process_chunk_same: "process_chunk B rc d s data = ((rc', d', s'), r) \<Longrightarrow> same_transfer rc rc'"
  by (auto simp: process_chunk_def verify_and_write_chunk_def record_chunk_def Let_def same_transfer_def
      split: res.splits option.splits prod.splits if_splits)

lemma data_iteration_same: "data_iteration B rc d s = ((rc', d', s'), r) \<Longrightarrow> same_transfer rc rc'"
  by (auto simp: data_iteration_def split: if_splits prod.splits res.splits dest: process_chunk_same)

lemma data_turn_same:
  "same_transfer (receivers srv ! k) (receivers (data_turn B srv t) ! k)
   \<and> length (receivers (data_turn B srv t)) = length (receivers srv)"
  by (cases "k = fst t") (auto simp: data_turn_def split: prod.splits dest: data_iteration_same)

text \<open>
  Every way a control connection can end, with what the client was told: nothing, an error, that the
  file exists, or a final status. Existence and success are told only when the file that is on disk
  under the transfer's name has the promised hash.
\<close>

definition connection_outcome ::
  "'h blake3 \<Rightarrow> stream \<Rightarrow> string \<Rightarrow> disk \<Rightarrow> stream \<Rightarrow> bool" where
  "connection_outcome B s output_dir d s' \<longleftrightarrow>
     tx s' = tx s \<or> tx s' = tx s @ frame_bytes (response_bytes RESP_ERR [])
   \<or> (\<exists>data s0 h. recv_timeout s = (s0, Ok data) \<and> parse_handshake data = Ok h \<and>
        (tx s' = tx s @ frame_bytes (response_bytes RESP_EXISTS [])
           \<and> delivered B d output_dir (h_safe_name h) (h_full_hash h)
         \<or> (\<exists>b status ports. status \<in> {RESP_OK, RESP_COMPLETE}
              \<and> tx s' = tx s @ frame_bytes (response_bytes status ports) @ frame_bytes [final_status b]
              \<and> (b \<longrightarrow> delivered B d output_dir (h_safe_name h) (h_full_hash h)))))"

definition connection_waits :: "'p server \<Rightarrow> stream \<Rightarrow> stream \<Rightarrow> string \<Rightarrow> handshake_data \<Rightarrow> nat \<Rightarrow> bool" where
  "connection_waits srv s s' output_dir h rid \<longleftrightarrow> plain_stream s' \<and> rid < length (receivers srv)
     \<and> dirs_ok (receivers srv ! rid) \<and> r_output_dir (receivers srv ! rid) = output_dir
     \<and> r_filename (receivers srv ! rid) = h_safe_name h
     \<and> r_full_hash (receivers srv ! rid) = h_full_hash h
     \<and> (\<exists>ports. tx s' = tx s @ frame_bytes (response_bytes RESP_OK ports))"

lemma open_ports_outcome:
  assumes "open_ports S os_free srv s rc mp = ((srv', s'), Ok c)" "plain_stream s"
  shows "case c of Finished \<Rightarrow> tx s' = tx s @ frame_bytes (response_bytes RESP_ERR [])
    | Waiting rid ports \<Rightarrow> plain_stream s' \<and> rid < length (receivers srv') \<and> receivers srv' ! rid = rc
        \<and> tx s' = tx s @ frame_bytes (response_bytes RESP_OK ports)"
proof -
  obtain srv1 r where a: "allocate_sockets S os_free srv (r_num_chunks rc) mp = (srv1, r)" by (metis surj_pair)
  show ?thesis
    using assms a
    by (cases r) (auto simp: open_ports_def send_handshake_response_def send_timeout_plain Let_def
        share_receiver_def register_receivers_def nth_append)
qed

text \<open>The ways through \<open>control_open\<close>: no handshake, a refusal before the transfer, an error while
  resuming, all chunks there, or data ports.\<close>

abbreviation (input) handshake_receiver :: "handshake_data \<Rightarrow> string \<Rightarrow> string \<Rightarrow> receiver" where
  "handshake_receiver h output_dir temp_dir \<equiv> create_receiver (h_safe_name h) (h_file_size h) (h_chunk_size h)
     (h_num_chunks h) (h_full_hash h) output_dir temp_dir"

lemma control_open_cases:
  assumes o: "control_open S B os_free srv s output_dir temp_dir mp = ((srv', s'), r)"
  obtains (no_handshake) x where "receive_handshake s = (s', x)" "\<And>h. x \<noteq> Ok (Some h)" "srv' = srv"
      "r = res_map (\<lambda>_. Finished) x"
    | (refused) s1 h go where "receive_handshake s = (s1, Ok (Some h))"
      "prepare_transfer B (sdisk srv) s1 h output_dir temp_dir = (s', go)" "go \<noteq> Ok True" "srv' = srv"
      "r = res_map (\<lambda>_. Finished) go"
    | (broken) s1 h rc d b where "receive_handshake s = (s1, Ok (Some h))"
      "prepare_transfer B (sdisk srv) s1 h output_dir temp_dir = (s', Ok True)"
      "resume_receiver B (handshake_receiver h output_dir temp_dir) (sdisk srv) = ((rc, d), b)"
      "srv' = srv\<lparr>sdisk := d\<rparr>" "\<not> is_ok r"
    | (complete) s1 h s2 rc d d' u where "receive_handshake s = (s1, Ok (Some h))"
      "prepare_transfer B (sdisk srv) s1 h output_dir temp_dir = (s2, Ok True)"
      "resume_receiver B (handshake_receiver h output_dir temp_dir) (sdisk srv) = ((rc, d), Ok True)"
      "confirm_complete B rc d s2 = ((d', s'), u)" "srv' = srv\<lparr>sdisk := d'\<rparr>" "r = res_map (\<lambda>_. Finished) u"
    | (ports) s1 h s2 rc d where "receive_handshake s = (s1, Ok (Some h))"
      "prepare_transfer B (sdisk srv) s1 h output_dir temp_dir = (s2, Ok True)"
      "resume_receiver B (handshake_receiver h output_dir temp_dir) (sdisk srv) = ((rc, d), Ok False)"
      "open_ports S os_free (srv\<lparr>sdisk := d\<rparr>) s2 rc mp = ((srv', s'), r)"
proof -
  obtain s1 x where rh: "receive_handshake s = (s1, x)" by (metis surj_pair)
  show thesis
  proof (cases "\<exists>h. x = Ok (Some h)")
    case False
    then show thesis using o rh no_handshake by (auto simp: control_open_def split: res.splits option.splits)
  next
    case True
    then obtain h where h: "x = Ok (Some h)" by blast
    obtain s2 go where pt: "prepare_transfer B (sdisk srv) s1 h output_dir temp_dir = (s2, go)" by (metis surj_pair)
    obtain rc d b where rr: "resume_receiver B (handshake_receiver h output_dir temp_dir) (sdisk srv) = ((rc, d), b)"
      by (metis surj_pair)
    consider "go \<noteq> Ok True" | "go = Ok True" "b = Ok True" | "go = Ok True" "b = Ok False"
      | "go = Ok True" "\<not> is_ok b" unfolding is_ok_iff by (metis (full_types))
    then show thesis
    proof cases
      case 1
      then have "srv' = srv \<and> s' = s2 \<and> r = res_map (\<lambda>_. Finished) go"
        using o rh h pt by (cases go) (auto simp: control_open_def split: bool.splits)
      then show thesis using refused [of s1 h go] rh h pt 1 by simp
    next
      case 2
      obtain d' s3 u where "confirm_complete B rc d s2 = ((d', s3), u)" by (metis surj_pair)
      then show thesis using o rh h pt rr 2 complete by (simp add: control_open_def)
    next
      case 3
      then show thesis using o rh h pt rr ports by (simp add: control_open_def)
    next
      case 4
      then show thesis using o rh h pt rr broken by (cases b) (auto simp: control_open_def is_ok_iff)
    qed
  qed
qed

text \<open>The receiver with which a transfer goes on.\<close>

lemma resumed_transfer:
  assumes "handshake_ok h" "output_dir \<noteq> []" "temp_dir \<noteq> []"
    and "resume_receiver B (handshake_receiver h output_dir temp_dir) d = ((rc, d'), Ok b)"
  shows "dirs_ok rc" "r_output_dir rc = output_dir" "r_filename rc = h_safe_name h" "r_full_hash rc = h_full_hash h"
  using resume_receiver_ok [OF create_receiver_fresh [OF assms(1-3)] assms(4)]
  by (simp_all add: data_inv_def same_transfer_def create_receiver_def receiver_new_def)

lemma control_open_outcome:
  assumes B: "blake3_ok B" and pl: "plain_stream s" and dirs: "output_dir \<noteq> []" "temp_dir \<noteq> []"
    and o: "control_open S B os_free srv s output_dir temp_dir mp = ((srv', s'), Ok c)"
  shows "case c of Finished \<Rightarrow> connection_outcome B s output_dir (sdisk srv') s'
    | Waiting rid ports \<Rightarrow> \<exists>data s0 h. recv_timeout s = (s0, Ok data) \<and> parse_handshake data = Ok h
        \<and> connection_waits srv' s s' output_dir h rid"
  using o
proof (cases rule: control_open_cases)
  case (no_handshake x)
  obtain ho where "x = Ok ho" "c = Finished" using no_handshake(4) by (cases x) simp_all
  then show ?thesis
    using receive_handshake_outcome [of s s' ho] no_handshake pl by (cases ho) (auto simp: connection_outcome_def)
next
  case (refused s1 h go)
  have s1: "plain_stream s1" "tx s1 = tx s" using receive_handshake_outcome [OF refused(1) pl] by simp_all
  have go: "go = Ok False" using refused(3,5) by (cases go) simp_all
  have "c = Finished" using refused(5) by (cases go) simp_all
  then show ?thesis
    using receive_handshake_outcome [OF refused(1) pl] prepare_transfer_outcome [OF B s1(1) refused(2) [unfolded go]]
      refused(4) s1(2)
    by (auto simp: connection_outcome_def delivered_def)
next
  case (complete s1 h s2 rc d d' u)
  have s1: "plain_stream s1" "tx s1 = tx s" using receive_handshake_outcome [OF complete(1) pl] by simp_all
  obtain data s0 where hs: "recv_timeout s = (s0, Ok data)" "parse_handshake data = Ok h"
    using receive_handshake_outcome [OF complete(1) pl] by auto
  have "s2 = s1" using prepare_transfer_outcome [OF B s1(1) complete(2)] by simp
  moreover have "c = Finished" using complete(6) by (cases u) simp_all
  moreover have "u = Ok ()" using complete(6) by (cases u) simp_all
  moreover note rc = resumed_transfer [OF parse_handshake_sound [OF hs(2)] dirs complete(3)]
  ultimately show ?thesis
    using confirm_complete_outcome [OF rc(1) B s1(1), of d d' s' "()"] complete(4,5) rc s1(2) hs
    unfolding connection_outcome_def by auto
next
  case (ports s1 h s2 rc d)
  have s1: "plain_stream s1" "tx s1 = tx s" using receive_handshake_outcome [OF ports(1) pl] by simp_all
  obtain data s0 where hs: "recv_timeout s = (s0, Ok data)" "parse_handshake data = Ok h"
    using receive_handshake_outcome [OF ports(1) pl] by auto
  have "s2 = s1" using prepare_transfer_outcome [OF B s1(1) ports(2)] by simp
  with open_ports_outcome [of S os_free "srv\<lparr>sdisk := d\<rparr>" s1 rc mp srv' s' c] ports(4) s1 show ?thesis
    using hs resumed_transfer [OF parse_handshake_sound [OF hs(2)] dirs ports(3)]
    by (cases c) (auto simp: connection_outcome_def connection_waits_def)
qed simp

lemma connection_waits_outcome:
  assumes B: "blake3_ok B" and hs: "recv_timeout s = (s0, Ok data)" "parse_handshake data = Ok h"
    and cw: "connection_waits srv s s1 out h rid" and c: "control_close S B srv s1 rid ports = ((srv', s'), Ok u)"
  shows "connection_outcome B s out (sdisk srv') s'"
proof -
  have ok: "dirs_ok (receivers srv ! rid)" "plain_stream s1" using cw by (simp_all add: connection_waits_def)
  from control_close_outcome [OF refl ok(1) B ok(2) c] obtain b where
    "tx s' = tx s1 @ frame_bytes [final_status b]"
    "b \<longrightarrow> delivered B (sdisk srv') out (h_safe_name h) (h_full_hash h)"
    using cw by (auto simp: connection_waits_def)
  then show ?thesis
    using hs cw unfolding connection_outcome_def connection_waits_def by (metis append.assoc insertI1)
qed

lemma connection_waits_same:
  "connection_waits srv s s1 out h rid \<Longrightarrow> same_transfer (receivers srv ! rid) (receivers srv' ! rid) \<Longrightarrow>
     length (receivers srv) \<le> length (receivers srv') \<Longrightarrow> connection_waits srv' s s1 out h rid"
  using same_transfer_paths(4) [of "receivers srv ! rid" "receivers srv' ! rid"]
  by (simp add: connection_waits_def same_transfer_def)

lemma wait_keeps_waiting:
  assumes "connection_waits srv s s1 out h rid" "wait_for_completion B srv rid rounds = (srv', left)"
  shows "connection_waits srv' s s1 out h rid"
proof (rule wait_preserves [OF _ _ assms(2)])
  show "connection_waits (data_turn B x t) s s1 out h rid" if "connection_waits x s s1 out h rid" for x t
    using connection_waits_same [OF that, of "data_turn B x t"] data_turn_same [of x rid B t] by simp
qed (rule assms(1))

lemma control_outcome:
  assumes B: "blake3_ok B" and pl: "plain_stream s" and dirs: "output_dir \<noteq> []" "temp_dir \<noteq> []"
    and c: "handle_control_connection S B os_free srv s output_dir temp_dir mp rounds = ((srv', s'), Ok True)"
  shows "connection_outcome B s output_dir (sdisk srv') s'"
proof -
  obtain srv1 s1 c1 where o: "control_open S B os_free srv s output_dir temp_dir mp = ((srv1, s1), Ok c1)"
    using c by (auto simp: handle_control_connection_def split: prod.splits res.splits)
  note oo = control_open_outcome [OF B pl dirs o]
  show ?thesis
  proof (cases c1)
    case Finished
    then show ?thesis using c o oo by (simp add: handle_control_connection_def)
  next
    case (Waiting rid ports)
    obtain srv2 left where w: "wait_for_completion B srv1 rid rounds = (srv2, left)" by (metis surj_pair)
    have left: "left" using c o Waiting w
      by (cases left) (simp_all add: handle_control_connection_def)
    obtain srv3 s3 r where cl: "control_close S B srv2 s1 rid ports = ((srv3, s3), r)" by (metis surj_pair)
    then have "r = Ok ()" "srv3 = srv'" "s3 = s'"
      using c o Waiting w left by (auto simp: handle_control_connection_def res_simps)
    then have cl: "control_close S B srv2 s1 rid ports = ((srv', s'), Ok ())" using cl by simp
    obtain data s0 h where hs: "recv_timeout s = (s0, Ok data)" "parse_handshake data = Ok h"
      and cw: "connection_waits srv1 s s1 output_dir h rid" using oo Waiting by auto
    show ?thesis by (rule connection_waits_outcome [OF B hs wait_keeps_waiting [OF cw w] cl])
  qed
qed

section \<open>Ports: what a connection takes and gives back\<close>

lemma data_turn_shared:
  "pool (data_turn B srv t) = pool srv \<and> registry (data_turn B srv t) = registry srv
   \<and> bound (data_turn B srv t) = bound srv"
  by (auto simp: data_turn_def split: prod.splits)

lemma wait_shared:
  assumes "wait_for_completion B srv rid rounds = (srv', left)"
  shows "pool srv' = pool srv \<and> registry srv' = registry srv \<and> bound srv' = bound srv"
  by (rule wait_preserves [OF _ _ assms]) (simp_all add: data_turn_shared)

text \<open>With sockets allocated, the connection waits, or its response is not sent and the sockets are closed.\<close>

lemma open_ports_allocated:
  assumes S: "sem_ok S" and n: "min (r_num_chunks rc) mp < 2 ^ 32"
    and a: "allocate_sockets S os_free srv (r_num_chunks rc) mp = (srv1, Ok socks)"
    and o: "open_ports S os_free srv s rc mp = ((srv', s'), r)"
  obtains ports srv3 where "ports = take (min (r_num_chunks rc) mp) (free_ports os_free srv)"
    and "length ports = min (r_num_chunks rc) mp"
    and "available S srv3 + length ports = available S srv"
    and "bound srv3 = bound srv \<union> set ports"
    and "registry srv3 = (\<lambda>p. if p \<in> set ports then Some (length (receivers srv)) else registry srv p)"
    and "receivers srv3 = receivers srv @ [rc]" and "sdisk srv3 = sdisk srv"
    and "r = Ok (Waiting (length (receivers srv)) ports) \<and> srv' = srv3 \<or> \<not> is_ok r \<and> srv' = drop_sockets srv3 ports"
proof -
  let ?num = "min (r_num_chunks rc) mp"
  note cases = allocate_sockets_cases [OF S refl n a]
  have le: "?num \<le> available S srv" "?num \<le> length (free_ports os_free srv)"
    using cases(1,2) by (metis linorder_not_le res.distinct(1))+
  from cases(3) [OF le] have
    sp: "sockets_to_ports socks = take ?num (free_ports os_free srv)"
    and av: "available S srv1 + ?num = available S srv"
    and s1: "srv1\<lparr>pool := pool srv\<rparr> = srv\<lparr>bound := bound srv \<union> set (take ?num (free_ports os_free srv))\<rparr>"
    by auto
  have f1: "registry srv1 = registry srv" "receivers srv1 = receivers srv" "sdisk srv1 = sdisk srv"
    "bound srv1 = bound srv \<union> set (take ?num (free_ports os_free srv))"
    using arg_cong [OF s1, of registry] arg_cong [OF s1, of receivers] arg_cong [OF s1, of sdisk]
      arg_cong [OF s1, of bound] by simp_all
  let ?ports = "sockets_to_ports socks" and ?rid = "length (receivers srv)"
  let ?srv2 = "srv1\<lparr>receivers := receivers srv1 @ [rc]\<rparr>"
  let ?srv3 = "register_receivers ?srv2 socks ?rid"
  have l: "length ?ports = ?num" using sp le by simp
  have reg: "registry ?srv3 = (\<lambda>p. if p \<in> set ?ports then Some ?rid else registry srv p)"
    using routes.route_register [of ?srv2 socks ?rid] f1(1)
    by (auto simp: get_receiver_def sockets_to_ports_def fun_eq_iff)
  have r: "r = Ok (Waiting ?rid ?ports) \<and> srv' = ?srv3 \<or> \<not> is_ok r \<and> srv' = drop_sockets ?srv3 ?ports"
    using o a f1(2) by (auto simp: open_ports_def share_receiver_def Let_def split: prod.splits res.splits)
  show thesis
    by (rule that [of ?ports ?srv3])
      (use sp l av f1 reg r in \<open>simp_all add: register_receivers_def available_def\<close>)
qed

lemma open_ports_Waiting:
  assumes S: "sem_ok S" and n: "min (r_num_chunks rc) mp < 2 ^ 32"
    and o: "open_ports S os_free srv s rc mp = ((srv', s'), Ok (Waiting rid ports))"
  shows "ports = take (min (r_num_chunks rc) mp) (free_ports os_free srv)"
    and "length ports = min (r_num_chunks rc) mp"
    and "available S srv' + length ports = available S srv"
    and "bound srv' = bound srv \<union> set ports"
    and "registry srv' = (\<lambda>p. if p \<in> set ports then Some rid else registry srv p)"
    and "rid = length (receivers srv)" "receivers srv' = receivers srv @ [rc]" "sdisk srv' = sdisk srv"
proof -
  obtain srv1 r where a: "allocate_sockets S os_free srv (r_num_chunks rc) mp = (srv1, r)" by (metis surj_pair)
  obtain socks where r: "r = Ok socks"
    using o a by (cases r) (auto simp: open_ports_def res_simps split: prod.splits)
  obtain q srv3 where f: "q = take (min (r_num_chunks rc) mp) (free_ports os_free srv)" "length q = min (r_num_chunks rc) mp"
    "available S srv3 + length q = available S srv" "bound srv3 = bound srv \<union> set q"
    "registry srv3 = (\<lambda>p. if p \<in> set q then Some (length (receivers srv)) else registry srv p)"
    "receivers srv3 = receivers srv @ [rc]" "sdisk srv3 = sdisk srv"
    "Ok (Waiting rid ports) = Ok (Waiting (length (receivers srv)) q) \<and> srv' = srv3
     \<or> \<not> is_ok (Ok (Waiting rid ports)) \<and> srv' = drop_sockets srv3 q"
    by (rule open_ports_allocated [OF S n a [unfolded r] o])
  have e: "ports = q" "srv' = srv3" "rid = length (receivers srv)" using f(8) by simp_all
  show "ports = take (min (r_num_chunks rc) mp) (free_ports os_free srv)"
    "length ports = min (r_num_chunks rc) mp" "available S srv' + length ports = available S srv"
    "bound srv' = bound srv \<union> set ports" "registry srv' = (\<lambda>p. if p \<in> set ports then Some rid else registry srv p)"
    "rid = length (receivers srv)" "receivers srv' = receivers srv @ [rc]" "sdisk srv' = sdisk srv"
    unfolding e by (rule f(1-7) refl)+
qed

section \<open>Properties\<close>

text \<open>Data for the witnesses: the handshake of \<open>ex_receiver\<close>'s file as a client sends it.\<close>

definition ex_handshake :: stream where
  "ex_handshake = stream_of (frame_bytes (handshake_bytes (str_bytes ''f'') 3 2 2 (b3_hash toy_blake3 ex_content)))"

definition ex_server :: "nat server" where
  "ex_server = server_new counter (empty_disk\<lparr>files := [path_of ''out/f'' \<mapsto> ex_content]\<rparr>)"

lemma plain_stream_of [simp]: "plain_stream (stream_of bs)"
  by (simp add: plain_stream_def stream_of_def)



text \<open>C10: Resuming starts from a sound state: whatever metadata and parts are on disk, when the server
  accepts a transfer its receiver is well-formed, every chunk it counts as received has its part on disk
  with the recorded hash, and it is told complete exactly when every chunk is received.\<close>

theorem resume_sound:
  assumes "handshake_ok h" "output_dir \<noteq> []" "temp_dir \<noteq> []"
    and "resume_receiver B (create_receiver (h_safe_name h) (h_file_size h) (h_chunk_size h) (h_num_chunks h)
           (h_full_hash h) output_dir temp_dir) d = ((rc, d'), Ok b)"
  shows "receiver_wf rc \<and> parts_match B rc d' \<and> \<not> r_failed rc
    \<and> (b \<longleftrightarrow> (\<forall>i < h_num_chunks h. received_chunks rc ! i))"
proof -
  note r = resume_receiver_ok [OF create_receiver_fresh [OF assms(1-3)] assms(4)]
  have wf: "receiver_wf rc" using r by (simp add: data_inv_def)
  have "r_num_chunks rc = h_num_chunks h" using r by (simp add: create_receiver_def receiver_new_def)
  then show ?thesis using r is_complete_iff [OF wf] by (auto simp: data_inv_def)
qed

definition ex_request :: handshake_data where
  "ex_request = \<lparr>h_filename = ''f'', h_safe_name = ''f'', h_file_size = 3, h_chunk_size = 2, h_num_chunks = 2,
     h_full_hash = b3_hash toy_blake3 ex_content\<rparr>"

lemma resume_sound_witness:
  "\<exists>rc d'. resume_receiver toy_blake3 (create_receiver ''f'' 3 2 2 (b3_hash toy_blake3 ex_content) ''out'' ''tmp'')
       (snd ex_recorded) = ((rc, d'), Ok False)
     \<and> received_chunks rc = [False, True] \<and> parts_match toy_blake3 rc d'"
proof -
  let ?X = "resume_receiver toy_blake3 (create_receiver ''f'' 3 2 2 (b3_hash toy_blake3 ex_content) ''out'' ''tmp'') (snd ex_recorded)"
  obtain rc d' r where x: "?X = ((rc, d'), r)" by (metis surj_pair)
  have "snd ?X = Ok False" "received_chunks (fst (fst ?X)) = [False, True]" by code_simp+
  then have x: "?X = ((rc, d'), Ok False)" "received_chunks rc = [False, True]" using x by simp_all
  have ok: "handshake_ok ex_request" by code_simp
  have "parts_match toy_blake3 rc d'"
    using resume_sound [OF ok, of "''out''" "''tmp''" toy_blake3 "snd ex_recorded" rc d' False] x(1)
    by (simp add: ex_request_def del: toy_hash)
  then show ?thesis using x by blast
qed

text \<open>Stored metadata with a chunk index beyond the chunk count (the decoder does not check it) is the
  only thing that makes resuming panic.\<close>

theorem resume_panics_only_on_bad_index:
  assumes "handshake_ok h" "output_dir \<noteq> []" "temp_dir \<noteq> []"
    and "resume_receiver B (create_receiver (h_safe_name h) (h_file_size h) (h_chunk_size h) (h_num_chunks h)
           (h_full_hash h) output_dir temp_dir) d = (st, Panic)"
  shows "\<exists>stored i hash. meta_load d temp_dir (h_safe_name h) = Ok (Some stored)
    \<and> chunk_hashes stored i = Some hash \<and> h_num_chunks h \<le> i"
  using resume_receiver_Panic [OF create_receiver_fresh [OF assms(1-3)] assms(4)]
  by (simp add: create_receiver_def receiver_new_def)

definition ex_tampered :: disk where
  "ex_tampered = empty_disk\<lparr>files := [part_file ''tmp'' ''f'' 7 \<mapsto> [3],
     meta_file ''tmp'' ''f'' \<mapsto> meta_to_bytes (add_chunk (meta_new 2 2 3 (b3_hash toy_blake3 ex_content)) 7 (b3_hash toy_blake3 [3]))]\<rparr>"

lemma resume_panics_only_on_bad_index_witness:
  "\<exists>st stored i hash. resume_receiver toy_blake3 (create_receiver ''f'' 3 2 2 (b3_hash toy_blake3 ex_content) ''out'' ''tmp'') ex_tampered
       = (st, Panic)
     \<and> meta_load ex_tampered ''tmp'' ''f'' = Ok (Some stored) \<and> chunk_hashes stored i = Some hash \<and> 2 \<le> i"
proof -
  let ?X = "resume_receiver toy_blake3 (create_receiver ''f'' 3 2 2 (b3_hash toy_blake3 ex_content) ''out'' ''tmp'') ex_tampered"
  have "snd ?X = Panic" by code_simp
  then have x: "?X = (fst ?X, Panic)" by (metis prod.collapse)
  have ok: "handshake_ok ex_request" by code_simp
  show ?thesis
    using resume_panics_only_on_bad_index [OF ok, of "''out''" "''tmp''" toy_blake3 ex_tampered "fst ?X"] x
    unfolding ex_request_def handshake_data.simps by blast
qed



end
