(* ===== verification/Worker.thy ===== *)
theory Worker
  imports Data_Handler
begin

text \<open>
  A worker of the client (\<open>src/client/worker.rs\<close>): it opens a data connection, asks which chunks the
  server has, and sends the others, each with a bounded number of attempts.

  The shutdown flag is shared with the other workers and the Ctrl-C handler: nobody resets it, and
  \<open>flag_env\<close> says at which of the coming loads somebody else has set it. The state of a worker is its
  stream and its view of the flag.
\<close>

section \<open>State\<close>

record worker_state =
  w_stream :: stream
  w_flag :: bool
  flag_env :: "bool list"

definition worker_start :: "stream \<Rightarrow> worker_state" where
  "worker_start s = \<lparr>w_stream = s, w_flag = False, flag_env = []\<rparr>"

text \<open>\<open>shutdown_flag.load\<close>\<close>

definition load_flag :: "worker_state \<Rightarrow> worker_state \<times> bool" where
  "load_flag w =
     (let b = w_flag w \<or> (flag_env w \<noteq> [] \<and> hd (flag_env w))
      in (w\<lparr>w_flag := b, flag_env := tl (flag_env w)\<rparr>, b))"

definition set_flag :: "worker_state \<Rightarrow> worker_state" where
  "set_flag w = w\<lparr>w_flag := True\<rparr>"

record worker_config =
  wc_filepath :: string
  wc_chunk_indices :: "usize list"
  wc_chunk_size :: usize
  wc_file_size :: u64
  wc_retries :: usize

section \<open>Sending one chunk\<close>

definition chunk_header_bytes :: "usize \<Rightarrow> u64 \<Rightarrow> usize \<Rightarrow> bytes" where
  "chunk_header_bytes chunk_index chunk_offset actual_size =
     to_be_bytes (word_of_nat chunk_index :: u32) @ to_be_bytes chunk_offset
     @ to_be_bytes (word_of_nat actual_size :: u32)"

definition send_parts_within :: "stream \<Rightarrow> nat \<Rightarrow> bytes list \<Rightarrow> stream \<times> unit res" where
  "send_parts_within s timeout parts =
     send_within s timeout (frame_bytes (concat parts)) (\<lambda>s. send_parts s parts)"

definition attempt_timeout :: "usize \<Rightarrow> usize \<Rightarrow> nat" where
  "attempt_timeout total_bytes attempt =
     saturating_mul_dur (timeout_for_bytes total_bytes) (unat (word_of_nat (attempt + 1) :: u32))"

text \<open>The loop \<open>for attempt in 0..retries\<close>; the last argument counts the attempts left.\<close>

fun send_attempts ::
  "worker_state \<Rightarrow> bytes list \<Rightarrow> usize \<Rightarrow> usize \<Rightarrow> nat \<Rightarrow> worker_state \<times> bool res" where
  "send_attempts w parts total_bytes attempt 0 = (w, Ok False)"
| "send_attempts w parts total_bytes attempt (Suc left) =
     (let timeout = attempt_timeout total_bytes attempt in
      case send_parts_within (w_stream w) timeout parts of
        (s1, Err e) \<Rightarrow> (w\<lparr>w_stream := s1\<rparr>, Err e)
      | (s1, Panic) \<Rightarrow> (w\<lparr>w_stream := s1\<rparr>, Panic)
      | (s1, Ok _) \<Rightarrow>
          (case load_flag (w\<lparr>w_stream := s1\<rparr>) of (w1, stop) \<Rightarrow>
           if stop then (w1, Ok True) else
           (case recv_with_timeout s1 timeout of
              (s2, Err e) \<Rightarrow> (w1\<lparr>w_stream := s2\<rparr>, Err e)
            | (s2, Panic) \<Rightarrow> (w1\<lparr>w_stream := s2\<rparr>, Panic)
            | (s2, Ok ack) \<Rightarrow>
                let w2 = w1\<lparr>w_stream := s2\<rparr> in
                if ack = [] then
                  (if left > 0 then send_attempts w2 parts total_bytes (attempt + 1) left
                   else (w2, Err EmptyAck))
                else if ack ! 0 = ACK_OK then (w2, Ok True)
                else
                  (if left > 0 then send_attempts w2 parts total_bytes (attempt + 1) left
                   else (w2, Err ChunkRejected)))))"

definition send_chunk ::
  "'h blake3 \<Rightarrow> disk \<Rightarrow> worker_state \<Rightarrow> string \<Rightarrow> usize \<Rightarrow> u64 \<Rightarrow> usize \<Rightarrow> usize
     \<Rightarrow> worker_state \<times> bool res" where
  "send_chunk B d w filepath chunk_index chunk_offset chunk_size retries =
     st_bind (w, file_open d (path_of filepath)) (\<lambda>w _.
     st_bind (w, file_read_at d (path_of filepath) (unat chunk_offset) chunk_size) (\<lambda>w chunk_data.
     let actual_size = length chunk_data;
         chunk_hash = calc_hash B chunk_data;
         header = chunk_header_bytes chunk_index chunk_offset actual_size;
         total_bytes = CHUNK_HEADER_SIZE + actual_size + CHUNK_HASH_SIZE
     in send_attempts w [header, chunk_data, chunk_hash] total_bytes 0 retries))"

section \<open>Asking for the received chunks\<close>

definition parse_query_response :: "bytes \<Rightarrow> usize list res" where
  "parse_query_response resp =
     (if length resp < 4 then Ok [] else
      res_bind (read_u32 resp 0) (\<lambda>num.
      res_mapM (\<lambda>i. res_map unat (read_u32 resp (4 + i * 4))) [0..<unat num]))"

definition query_received :: "worker_state \<Rightarrow> worker_state \<times> usize set res" where
  "query_received w =
     (case send_timeout (w_stream w) [QUERY_MAGIC] of
        (s1, Err e) \<Rightarrow> (w\<lparr>w_stream := s1\<rparr>, Err e)
      | (s1, Panic) \<Rightarrow> (w\<lparr>w_stream := s1\<rparr>, Panic)
      | (s1, Ok _) \<Rightarrow>
          (case recv_timeout s1 of
             (s2, Err e) \<Rightarrow> (w\<lparr>w_stream := s2\<rparr>, Err e)
           | (s2, Panic) \<Rightarrow> (w\<lparr>w_stream := s2\<rparr>, Panic)
           | (s2, Ok resp) \<Rightarrow> (w\<lparr>w_stream := s2\<rparr>, res_map set (parse_query_response resp))))"

section \<open>The worker\<close>

text \<open>The offset of a chunk, or \<open>None\<close> on overflow or beyond the file.\<close>

definition chunk_offset :: "worker_config \<Rightarrow> usize \<Rightarrow> u64 option" where
  "chunk_offset c idx =
     (let off = unat (word_of_nat idx :: u64) * unat (word_of_nat (wc_chunk_size c) :: u64) in
      if off < 2 ^ 64 \<and> (word_of_nat off :: u64) \<le> wc_file_size c then Some (word_of_nat off) else None)"

text \<open>The loop over the assigned chunks, with the lists of sent and of failed chunks.\<close>

fun send_chunks ::
  "'h blake3 \<Rightarrow> disk \<Rightarrow> worker_config \<Rightarrow> usize set \<Rightarrow> worker_state \<Rightarrow> usize list
     \<Rightarrow> usize list \<Rightarrow> usize list \<Rightarrow> worker_state \<times> (usize list \<times> usize list) res" where
  "send_chunks B d c already w ok_list fail_list [] = (w, Ok (ok_list, fail_list))"
| "send_chunks B d c already w ok_list fail_list (idx # rest) =
     (case load_flag w of (w, stop) \<Rightarrow>
      if stop then (w, Ok (ok_list, fail_list))
      else if idx \<in> already then send_chunks B d c already w ok_list fail_list rest
      else
        (case chunk_offset c idx of
           None \<Rightarrow> send_chunks B d c already w ok_list (fail_list @ [idx]) rest
         | Some offset \<Rightarrow>
             let remaining = unat (wc_file_size c - offset);
                 actual_size = min (wc_chunk_size c) remaining
             in (case send_chunk B d w (wc_filepath c) idx offset actual_size (wc_retries c) of
                   (w1, Ok True) \<Rightarrow> send_chunks B d c already w1 (ok_list @ [idx]) fail_list rest
                 | (w1, Panic) \<Rightarrow> (w1, Panic)
                 | (w1, _) \<Rightarrow> send_chunks B d c already (set_flag w1) ok_list (fail_list @ [idx]) rest)))"

text \<open>The connection attempt is the network's: \<open>None\<close> when it fails.\<close>

definition worker ::
  "'h blake3 \<Rightarrow> disk \<Rightarrow> worker_config \<Rightarrow> stream option \<Rightarrow> worker_state
     \<Rightarrow> worker_state \<times> (usize list \<times> usize list) res" where
  "worker B d c conn w =
     (case load_flag w of (w, stop) \<Rightarrow>
      if stop then (w, Ok ([], []))
      else
        (case conn of
           None \<Rightarrow> (w, Ok ([], wc_chunk_indices c))
         | Some s \<Rightarrow>
             (case query_received (w\<lparr>w_stream := s\<rparr>) of
                (w1, Ok already) \<Rightarrow> send_chunks B d c already w1 [] [] (wc_chunk_indices c)
              | (w1, Err e) \<Rightarrow> (w1, Ok ([], wc_chunk_indices c))
              | (w1, Panic) \<Rightarrow> (w1, Panic))))"

section \<open>What an attempt sends and what it trusts\<close>

lemma send_parts_concat: "send_parts s parts = send s (concat parts)"
  by (simp add: send_parts_def send_def write_parts_concat length_concat Let_def)

lemma load_flag_simps [simp]:
  "w_stream (fst (load_flag w)) = w_stream w" "w_flag (fst (load_flag w)) = snd (load_flag w)"
  "w_flag w \<Longrightarrow> snd (load_flag w)"
  by (simp_all add: load_flag_def Let_def)

lemma set_flag_simps [simp]: "w_flag (set_flag w)" "w_stream (set_flag w) = w_stream w"
  by (simp_all add: set_flag_def)

text \<open>A chunk counts as sent only when the server acknowledged it, or when the transfer is being shut
  down.\<close>

lemma send_parts_within_rx [simp]:
  "rx (fst (send_parts_within s T ps)) = rx s"
  by (simp add: send_parts_within_def send_parts_concat send_frame send_within_rx)

lemma recv_with_timeout_shape:
  "recv_with_timeout s T = (t, Ok d) \<Longrightarrow> rx s = frame_bytes d @ rx t"
  using recv_with_timeout_cases recv_Ok_shape by metis

text \<open>One attempt of a chunk that is reported sent: it saw the cancel flag, or it read a confirmation, or it
  read another answer and the attempts that are left report the chunk.\<close>

lemma send_attempts_Suc:
  assumes "send_attempts w ps tot a (Suc n) = (w', Ok True)"
  obtains (cancelled) "w_flag w'"
    | (confirmed) ack where "rx (w_stream w) = frame_bytes ack @ rx (w_stream w')" "ack \<noteq> []" "ack ! 0 = ACK_OK"
    | (again) v ack where "rx (w_stream w) = frame_bytes ack @ rx (w_stream v)" "send_attempts v ps tot (a + 1) n = (w', Ok True)"
proof -
  let ?T = "attempt_timeout tot a"
  obtain s1 r1 where s1: "send_parts_within (w_stream w) ?T ps = (s1, r1)" by (metis surj_pair)
  obtain w1 stop where lf: "load_flag (w\<lparr>w_stream := s1\<rparr>) = (w1, stop)" by (metis surj_pair)
  have r1: "r1 = Ok ()" using assms s1 by (cases r1) (auto simp: Let_def)
  show thesis
  proof (cases stop)
    case True
    then have "w' = w1" using assms s1 r1 lf by simp
    then show thesis using cancelled True load_flag_simps(2) [of "w\<lparr>w_stream := s1\<rparr>"] lf by simp
  next
    case False
    obtain s2 ack where rc: "recv_with_timeout s1 ?T = (s2, Ok ack)"
      using assms s1 r1 lf False by (auto simp: Let_def split: prod.splits res.splits)
    have shape: "rx (w_stream w) = frame_bytes ack @ rx s2"
      using recv_with_timeout_shape [OF rc] send_parts_within_rx [of "w_stream w" ?T ps] s1 by simp
    show thesis
    proof (cases "ack \<noteq> [] \<and> ack ! 0 = ACK_OK")
      case True
      then have "w_stream w' = s2" using assms s1 r1 lf False rc by (auto simp: Let_def)
      then show thesis using confirmed [of ack] shape True by simp
    next
      case bad: False
      then show thesis using again [of ack "w1\<lparr>w_stream := s2\<rparr>"] shape assms s1 r1 lf False rc
        by (auto simp: Let_def split: if_splits)
    qed
  qed
qed

lemma send_attempts_trusted:
  "send_attempts w ps tot a n = (w', Ok True) \<Longrightarrow>
     w_flag w' \<or> (\<exists>pre ack. rx (w_stream w) = pre @ frame_bytes ack @ rx (w_stream w') \<and> ack \<noteq> [] \<and> ack ! 0 = ACK_OK)"
proof (induction n arbitrary: w a)
  case 0
  then show ?case by simp
next
  case (Suc n)
  from Suc.prems show ?case
  proof (cases rule: send_attempts_Suc)
    case confirmed
    then show ?thesis by (metis append_Nil)
  next
    case (again v ack)
    then show ?thesis using Suc.IH [OF again(2)] by (metis append.assoc)
  qed simp
qed

section \<open>What goes on the wire\<close>

lemma chunk_parts: "concat [chunk_header_bytes i off (length bs), bs, h] = chunk_message i off bs h"
  by (simp add: chunk_header_bytes_def chunk_message_def)

text \<open>On a stream that takes everything, one copy of the message per attempt.\<close>

lemma recv_with_timeout_tx:
  "recv_with_timeout s T = (t, r) \<Longrightarrow> tx t = tx s \<and> tx_limit t = tx_limit s \<and> tx_delays t = tx_delays s"
  by (auto simp: recv_with_timeout_def recv_def read_exact_def Let_def split: list.splits if_splits)

lemma send_attempts_wire:
  "tx_limit (w_stream w) = None \<Longrightarrow> tx_delays (w_stream w) = [] \<Longrightarrow>
   send_attempts w ps tot a n = (w', r) \<Longrightarrow>
     \<exists>k \<le> n. (0 < n \<longrightarrow> 0 < k) \<and> tx (w_stream w') = tx (w_stream w) @ concat (replicate k (frame_bytes (concat ps)))"
proof (induction n arbitrary: w a)
  case 0
  then show ?case by auto
next
  case (Suc n)
  let ?T = "attempt_timeout tot a" and ?f = "frame_bytes (concat ps)"
  let ?s1 = "(w_stream w)\<lparr>tx := tx (w_stream w) @ ?f\<rparr>"
  have s1: "send_parts_within (w_stream w) ?T ps = (?s1, Ok ())"
    using Suc.prems(1,2) by (simp add: send_parts_within_def send_within_plain send_parts_concat send_frame)
  obtain w1 stop where lf: "load_flag (w\<lparr>w_stream := ?s1\<rparr>) = (w1, stop)" by (metis surj_pair)
  have w1: "w_stream w1 = ?s1" using load_flag_simps(1) [of "w\<lparr>w_stream := ?s1\<rparr>"] lf by simp
  obtain s2 r2 where rc: "recv_with_timeout ?s1 ?T = (s2, r2)" by (metis surj_pair)
  note t2 = recv_with_timeout_tx [OF rc]
  have "w_stream w' = ?s1 \<or> w_stream w' = s2 \<or> send_attempts (w1\<lparr>w_stream := s2\<rparr>) ps tot (a + 1) n = (w', r)"
    using Suc.prems(3) s1 lf rc w1
    by (cases stop; cases r2) (auto simp: Let_def split: if_splits)
  moreover have "tx (w_stream w') = tx (w_stream w) @ concat (replicate 1 ?f)"
    if "w_stream w' = ?s1 \<or> w_stream w' = s2" using that t2 by auto
  moreover have "\<exists>k \<le> n. tx (w_stream w') = tx (w_stream w) @ concat (replicate (Suc k) ?f)"
    if "send_attempts (w1\<lparr>w_stream := s2\<rparr>) ps tot (a + 1) n = (w', r)"
    using Suc.IH [OF _ _ that] t2 Suc.prems(1,2) by auto
  ultimately show ?case by (metis Suc_le_mono le_add1 plus_1_eq_Suc zero_less_Suc One_nat_def)
qed

lemma send_chunk_wire:
  assumes "tx_limit (w_stream w) = None" "tx_delays (w_stream w) = []" "0 < retries"
    and "send_chunk B d w f i off n retries = (w', r)"
    and "files d (path_of f) = Some content" "\<not> open_err d (path_of f)" "\<not> read_err d (path_of f) (unat off)"
  shows "\<exists>k. 0 < k \<and> k \<le> retries \<and> tx (w_stream w') = tx (w_stream w)
    @ concat (replicate k (frame_bytes (let bs = take (read_count d (path_of f) (unat off) n) (drop (unat off) content)
        in chunk_message i off bs (b3_hash B bs))))"
proof -
  let ?bs = "take (read_count d (path_of f) (unat off) n) (drop (unat off) content)"
  let ?ps = "[chunk_header_bytes i off (length ?bs), ?bs, calc_hash B ?bs]"
  have "contents d (path_of f) = content" using assms(5) by (simp add: contents_def)
  then have "send_attempts w ?ps (CHUNK_HEADER_SIZE + length ?bs + CHUNK_HASH_SIZE) 0 retries = (w', r)"
    using assms(4-7) by (simp add: send_chunk_def file_open_def file_read_at_def Let_def)
  from send_attempts_wire [OF assms(1,2) this] assms(3) show ?thesis
    unfolding chunk_parts by (auto simp: calc_hash_def Let_def)
qed

section \<open>Query and answer\<close>

lemma parse_query_response_ok:
  assumes "list_all (\<lambda>i. i < 2 ^ 32) is" "length is < 2 ^ 32"
  shows "parse_query_response (query_response is) = Ok is"
proof -
  let ?r = "query_response is" and ?pre = "to_be_bytes (word_of_nat (length is) :: u32)"
  have n: "unat (word_of_nat (length is) :: u32) = length is" using assms(2) by (rule unat_u32_of_usize)
  have r: "?r = ?pre @ concat (map (\<lambda>i. to_be_bytes (word_of_nat i :: u32)) is) @ []"
    by (simp add: query_response_def)
  have "res_mapM (\<lambda>i. res_map (\<lambda>bs. unat (from_be_bytes bs :: u32)) (read_bytes ?r (4 + i * 4) 4)) [0..<length is] = Ok is"
    unfolding r using assms(1) by (intro index_block.read_table) simp_all
  moreover have "res_map unat (read_u32 ?r k) = res_map (\<lambda>bs. unat (from_be_bytes bs :: u32)) (read_bytes ?r k 4)" for k
    by (cases "read_bytes ?r k 4") (simp_all add: read_u32_def)
  moreover have "read_u32 ?r 0 = Ok (word_of_nat (length is))"
    using read_word_append(2) [of "[]" 0 "word_of_nat (length is)"] by (simp add: query_response_def)
  moreover have "\<not> length ?r < 4" by (simp add: query_response_def)
  ultimately show ?thesis by (simp add: parse_query_response_def n)
qed

lemma parse_query_response_Panic:
  "parse_query_response resp = Panic \<longleftrightarrow>
     4 \<le> length resp \<and> length resp < 4 + 4 * unat (from_be_bytes (take 4 resp) :: u32)"
proof (cases "length resp < 4")
  case True
  then show ?thesis by (simp add: parse_query_response_def)
next
  case False
  let ?n = "unat (from_be_bytes (take 4 resp) :: u32)"
  let ?f = "\<lambda>i. res_map unat (read_u32 resp (4 + i * 4))"
  have p: "parse_query_response resp = res_mapM ?f [0..<?n]"
    using False by (simp add: parse_query_response_def res_simps)
  have f: "?f i = Panic \<longleftrightarrow> length resp < 4 + i * 4 + 4" "is_ok (?f i) \<longleftrightarrow> \<not> length resp < 4 + i * 4 + 4" for i
    by (simp_all add: read_u32_def read_bytes_def)
  show ?thesis
  proof (cases "length resp < 4 + 4 * ?n")
    case True
    then have "res_mapM ?f [0..<?n] = Panic"
      using f False by (intro res_mapM_Panic [of "?n - 1"]) auto
    then show ?thesis using p True False by simp
  next
    case ok: False
    then have "res_mapM ?f [0..<?n] \<noteq> Panic" by (intro res_mapM_not_Panic) (simp add: f)
    then show ?thesis using p ok by simp
  qed
qed

section \<open>Which chunks are accounted for\<close>

lemma chunk_offset_Some:
  assumes "chunk_offset c idx = Some off" "idx < 2 ^ 64" "wc_chunk_size c < 2 ^ 64"
  shows "unat off = idx * wc_chunk_size c" "idx * wc_chunk_size c \<le> unat (wc_file_size c)"
    and "unat (wc_file_size c - off) = unat (wc_file_size c) - idx * wc_chunk_size c"
proof -
  have u: "unat (word_of_nat idx :: u64) = idx" "unat (word_of_nat (wc_chunk_size c) :: u64) = wc_chunk_size c"
    using assms(2,3) by (simp_all add: unat_of_nat)
  have o: "idx * wc_chunk_size c < 2 ^ 64" "off = word_of_nat (idx * wc_chunk_size c)" "off \<le> wc_file_size c"
    using assms(1) unfolding chunk_offset_def Let_def u by (auto split: if_splits)
  then show "unat off = idx * wc_chunk_size c" by (simp add: unat_of_nat del: of_nat_mult)
  then show "idx * wc_chunk_size c \<le> unat (wc_file_size c)"
    "unat (wc_file_size c - off) = unat (wc_file_size c) - idx * wc_chunk_size c"
    using o(3) by (simp_all add: word_le_nat_alt unat_sub)
qed

text \<open>The flag is never taken back.\<close>

lemma load_flag_keeps: "w_flag w \<Longrightarrow> load_flag w = (w', b) \<Longrightarrow> w_flag w' \<and> b"
  by (auto simp: load_flag_def)

lemma send_attempts_flag:
  assumes "w_flag w" "send_attempts w ps tot a n = (w', r)"
  shows "w_flag w'"
proof (cases n)
  case 0
  then show ?thesis using assms by simp
next
  case (Suc m)
  obtain s1 r1 where s1: "send_parts_within (w_stream w) (attempt_timeout tot a) ps = (s1, r1)" by (metis surj_pair)
  obtain w1 stop where lf: "load_flag (w\<lparr>w_stream := s1\<rparr>) = (w1, stop)" by (metis surj_pair)
  have "w_flag w1 \<and> stop" using load_flag_keeps [OF _ lf] assms(1) by simp
  then show ?thesis using assms s1 lf Suc by (cases r1) auto
qed

lemma send_chunk_flag: "w_flag w \<Longrightarrow> send_chunk B d w f i off n k = (w', r) \<Longrightarrow> w_flag w'"
  using send_attempts_flag
  by (auto simp: send_chunk_def st_bind_def Let_def split: res.splits prod.splits)

lemma send_chunks_flag:
  "w_flag w \<Longrightarrow> send_chunks B d c already w ok fl is = (w', r) \<Longrightarrow> w_flag w'"
  by (cases "is") (auto split: prod.splits dest: load_flag_keeps)

text \<open>One chunk: the worker stops, or goes on with the chunk skipped, sent or failed.\<close>

lemma send_chunks_Cons:
  assumes "send_chunks B d c already w ok fl (idx # rest) = (w', Ok res)"
  shows "(w_flag w' \<and> res = (ok, fl))
    \<or> (\<exists>w2. send_chunks B d c already w2 ok fl rest = (w', Ok res) \<and> idx \<in> already)
    \<or> (\<exists>w2. send_chunks B d c already w2 (ok @ [idx]) fl rest = (w', Ok res))
    \<or> (\<exists>w2. send_chunks B d c already w2 ok (fl @ [idx]) rest = (w', Ok res)
         \<and> (chunk_offset c idx \<noteq> None \<longrightarrow> w_flag w2))"
proof -
  obtain w1 stop where lf: "load_flag w = (w1, stop)" by (metis surj_pair)
  have f1: "w_flag w1 = stop" using load_flag_simps(2) [of w] lf by simp
  show ?thesis
  proof (cases "stop \<or> idx \<in> already \<or> chunk_offset c idx = None")
    case True
    then show ?thesis using assms lf f1 by (auto split: if_splits)
  next
    case False
    then obtain off where off: "chunk_offset c idx = Some off" and st: "\<not> stop" "idx \<notin> already" by auto
    let ?n = "min (wc_chunk_size c) (unat (wc_file_size c - off))"
    obtain w2 r2 where sc: "send_chunk B d w1 (wc_filepath c) idx off ?n (wc_retries c) = (w2, r2)" by (metis surj_pair)
    have "send_chunks B d c already w2 (ok @ [idx]) fl rest = (w', Ok res)
        \<or> send_chunks B d c already (set_flag w2) ok (fl @ [idx]) rest = (w', Ok res)"
      using assms lf st off sc by (auto simp: Let_def split: res.splits bool.splits)
    then show ?thesis using set_flag_simps(1) by blast
  qed
qed

text \<open>Every assigned chunk is sent, failed or already there, unless the transfer is being shut down.\<close>

lemma send_chunks_accounted:
  "send_chunks B d c already w ok fl is = (w', Ok (ok', fl')) \<Longrightarrow>
     (w_flag w' \<or> set is \<subseteq> already \<union> set ok' \<union> set fl')
     \<and> set ok \<subseteq> set ok' \<and> set fl \<subseteq> set fl' \<and> set ok' \<subseteq> set ok \<union> set is \<and> set fl' \<subseteq> set fl \<union> set is"
proof (induction "is" arbitrary: w ok fl)
  case Nil
  then show ?case by simp
next
  case (Cons idx rest)
  from send_chunks_Cons [OF Cons.prems] show ?case
  proof (elim disjE conjE exE)
    assume "w_flag w'" "(ok', fl') = (ok, fl)"
    then show ?thesis by auto
  next
    fix w2 assume "send_chunks B d c already w2 ok fl rest = (w', Ok (ok', fl'))" "idx \<in> already"
    then show ?thesis using Cons.IH by fastforce
  next
    fix w2 assume "send_chunks B d c already w2 (ok @ [idx]) fl rest = (w', Ok (ok', fl'))"
    from Cons.IH [OF this] show ?thesis by auto
  next
    fix w2 assume "send_chunks B d c already w2 ok (fl @ [idx]) rest = (w', Ok (ok', fl'))"
    from Cons.IH [OF this] show ?thesis by auto
  qed
qed

text \<open>A chunk that could not be sent sets the flag: a worker with failures and without the flag failed
  only on offsets beyond the file.\<close>

lemma send_chunks_failed:
  "send_chunks B d c already w ok fl is = (w', Ok (ok', fl')) \<Longrightarrow>
     w_flag w' \<or> (\<forall>i \<in> set fl'. i \<in> set fl \<or> chunk_offset c i = None)"
proof (induction "is" arbitrary: w ok fl)
  case Nil
  then show ?case by simp
next
  case (Cons idx rest)
  from send_chunks_Cons [OF Cons.prems] show ?case
  proof (elim disjE conjE exE)
    fix w2 assume go: "send_chunks B d c already w2 ok (fl @ [idx]) rest = (w', Ok (ok', fl'))"
      and "chunk_offset c idx \<noteq> None \<longrightarrow> w_flag w2"
    then show ?thesis using send_chunks_flag [OF _ go] Cons.IH [OF go] by auto
  next
    fix w2 assume "send_chunks B d c already w2 ok fl rest = (w', Ok (ok', fl'))"
    from Cons.IH [OF this] show ?thesis .
  next
    fix w2 assume "send_chunks B d c already w2 (ok @ [idx]) fl rest = (w', Ok (ok', fl'))"
    from Cons.IH [OF this] show ?thesis .
  qed simp
qed

section \<open>Properties\<close>

lemma worker_accounted_lemma:
  assumes "worker B d c conn w = (w', Ok (sent, failed))"
  shows "w_flag w' \<or> (\<exists>already. set (wc_chunk_indices c) \<subseteq> already \<union> set sent \<union> set failed
    \<and> (already = {} \<or> (\<exists>s s1 s2 resp is. conn = Some s \<and> recv_timeout s1 = (s2, Ok resp) \<and> rx s1 = rx s
         \<and> parse_query_response resp = Ok is \<and> already = set is)))"
proof -
  obtain w1 stop where lf: "load_flag w = (w1, stop)" by (metis surj_pair)
  have f1: "w_flag w1 = stop" using load_flag_simps(2) [of w] lf by simp
  consider "stop" | "\<not> stop" "conn = None" | s where "\<not> stop" "conn = Some s" by blast
  then show ?thesis
  proof cases
    case 1
    then show ?thesis using assms lf f1 by (simp add: worker_def)
  next
    case 2
    then show ?thesis using assms lf by (auto simp: worker_def)
  next
    case 3
    obtain w2 q where q: "query_received (w1\<lparr>w_stream := s\<rparr>) = (w2, q)" by (metis surj_pair)
    show ?thesis
    proof (cases q)
      case (Ok already)
      then have sc: "send_chunks B d c already w2 [] [] (wc_chunk_indices c) = (w', Ok (sent, failed))"
        using assms lf 3 q by (simp add: worker_def)
      obtain s1 s2 resp "is" where a: "send_timeout s [QUERY_MAGIC] = (s1, Ok ())" "recv_timeout s1 = (s2, Ok resp)"
        "parse_query_response resp = Ok is" "already = set is"
        using q Ok by (auto simp: query_received_def res_simps split: prod.splits res.splits)
      have "rx s1 = rx s" using send_timeout_rx [of s "[QUERY_MAGIC]"] a(1) by simp
      then have "\<exists>s s1 s2 resp is. conn = Some s \<and> recv_timeout s1 = (s2, Ok resp) \<and> rx s1 = rx s
         \<and> parse_query_response resp = Ok is \<and> already = set is" using a(2-4) 3(2) by metis
      moreover have "w_flag w' \<or> set (wc_chunk_indices c) \<subseteq> already \<union> set sent \<union> set failed"
        using send_chunks_accounted [OF sc] by simp
      ultimately show ?thesis by metis
    next
      case (Err e)
      then show ?thesis using assms lf 3 q by (auto simp: worker_def)
    next
      case Panic
      then show ?thesis using assms lf 3 q by (simp add: worker_def)
    qed
  qed
qed

lemma worker_failed_flag:
  assumes "worker B d c (Some s) w = (w', Ok (sent, failed))"
    and "query_received ((fst (load_flag w))\<lparr>w_stream := s\<rparr>) = (w1, Ok already)"
    and "i \<in> set failed" "chunk_offset c i \<noteq> None"
  shows "w_flag w'"
proof -
  obtain w0 stop where lf: "load_flag w = (w0, stop)" by (metis surj_pair)
  have "\<not> stop" using assms(1,3) lf by (auto simp: worker_def)
  then have "send_chunks B d c already w1 [] [] (wc_chunk_indices c) = (w', Ok (sent, failed))"
    using assms(1,2) lf by (simp add: worker_def)
  from send_chunks_failed [OF this] assms(3,4) show ?thesis by auto
qed

text \<open>Query and answer: the worker reads from the server's answer exactly the indices the receiver
  has recorded, in order; an answer that announces more indices than it holds makes it panic, and no
  other answer does.\<close>

theorem query_roundtrip:
  "(list_all (\<lambda>i. i < 2 ^ 32) is \<longrightarrow> length is < 2 ^ 32 \<longrightarrow> parse_query_response (query_response is) = Ok is)
   \<and> (parse_query_response resp = Panic \<longleftrightarrow>
        4 \<le> length resp \<and> length resp < 4 + 4 * unat (from_be_bytes (take 4 resp) :: u32))"
  using parse_query_response_ok parse_query_response_Panic by blast

lemma query_roundtrip_witness:
  "parse_query_response (query_response [1, 70000]) = Ok [1, 70000] \<and> parse_query_response [0, 0, 0, 1, 9] = Panic"
proof -
  have "from_be_bytes [0, 0, 0, 1] = (1 :: u32)" by code_simp
  then show ?thesis using query_roundtrip [of "[1, 70000]" "[0, 0, 0, 1, 9]"] by simp
qed

text \<open>C20: A worker believes that a chunk arrived only on the server's word: \<open>send_chunk\<close> reports success
  only when an acknowledgement frame that starts with \<open>ACK_OK\<close> is among what the server sent, or when
  the transfer is being shut down.\<close>

theorem chunk_success_trusted:
  assumes "send_chunk B d w f i off n retries = (w', Ok True)"
  shows "w_flag w' \<or>
    (\<exists>pre ack. rx (w_stream w) = pre @ frame_bytes ack @ rx (w_stream w') \<and> ack \<noteq> [] \<and> ack ! 0 = ACK_OK)"
proof -
  obtain ps tot where "send_attempts w ps tot 0 retries = (w', Ok True)"
    using assms by (auto simp: send_chunk_def Let_def res_simps)
  then show ?thesis by (rule send_attempts_trusted)
qed

text \<open>Data for the witnesses: a file of three bytes, sent in chunks of two.\<close>

definition ex_source :: disk where
  "ex_source = empty_disk\<lparr>files := [path_of ''f'' \<mapsto> [1, 2, 3]]\<rparr>"

definition ex_worker :: worker_config where
  "ex_worker = \<lparr>wc_filepath = ''f'', wc_chunk_indices = [0, 1], wc_chunk_size = 2, wc_file_size = 3, wc_retries = 2\<rparr>"

lemma chunk_success_trusted_witness:
  "rx (w_stream (fst (send_chunk toy_blake3 ex_source (worker_start (stream_of (frame_bytes [ACK_HASH_MISMATCH] @ frame_bytes [ACK_OK] @ [9]))) ''f'' 1 2 1 2))) = [9]
   \<and> \<not> w_flag (fst (send_chunk toy_blake3 ex_source (worker_start (stream_of (frame_bytes [ACK_HASH_MISMATCH] @ frame_bytes [ACK_OK] @ [9]))) ''f'' 1 2 1 2))
   \<and> (\<exists>pre ack. frame_bytes [ACK_HASH_MISMATCH] @ frame_bytes [ACK_OK] @ [9] = pre @ frame_bytes ack @ [9] \<and> ack \<noteq> [] \<and> ack ! 0 = ACK_OK)"
proof -
  let ?X = "send_chunk toy_blake3 ex_source (worker_start (stream_of (frame_bytes [ACK_HASH_MISMATCH] @ frame_bytes [ACK_OK] @ [9]))) ''f'' 1 2 1 2"
  have ok: "snd ?X = Ok True" and rx: "rx (w_stream (fst ?X)) = [9]" and fl: "\<not> w_flag (fst ?X)" by code_simp+
  then have "?X = (fst ?X, Ok True)" by (metis prod.collapse)
  from chunk_success_trusted [OF this] rx fl show ?thesis by (simp add: worker_start_def stream_of_def)
qed

text \<open>What an attempt to send a chunk puts on the wire, on a connection that takes everything: for each
  attempt, at least one and at most as many as the configured retries, one whole copy of the frame with
  the chunk's index and offset and the size, data and hash of what one read of the file delivered.\<close>

theorem chunk_on_wire:
  assumes "tx_limit (w_stream w) = None" "tx_delays (w_stream w) = []" "0 < retries"
    and "send_chunk B d w f i off n retries = (w', r)"
    and "files d (path_of f) = Some content" "\<not> open_err d (path_of f)" "\<not> read_err d (path_of f) (unat off)"
  shows "\<exists>k. 0 < k \<and> k \<le> retries \<and> tx (w_stream w') = tx (w_stream w)
    @ concat (replicate k (frame_bytes (let bs = take (read_count d (path_of f) (unat off) n) (drop (unat off) content)
        in chunk_message i off bs (b3_hash B bs))))"
  by (rule send_chunk_wire [OF assms])

lemma chunk_on_wire_witness:
  "\<exists>k. 0 < k \<and> k \<le> 2 \<and> tx (w_stream (fst (send_chunk toy_blake3 ex_source (worker_start (stream_of (frame_bytes [ACK_OK]))) ''f'' 1 2 1 2)))
     = concat (replicate k (frame_bytes (chunk_message 1 2 [3] (b3_hash toy_blake3 [3]))))"
proof -
  let ?w = "worker_start (stream_of (frame_bytes [ACK_OK]))"
  let ?X = "send_chunk toy_blake3 ex_source ?w ''f'' 1 2 1 2"
  have "tx_limit (w_stream ?w) = None" "tx_delays (w_stream ?w) = []" "tx (w_stream ?w) = []"
    by (simp_all add: worker_start_def stream_of_def)
  moreover have "files ex_source (path_of ''f'') = Some [1, 2, 3]" "\<not> open_err ex_source (path_of ''f'')"
    "\<not> read_err ex_source (path_of ''f'') (unat (2 :: u64))"
    by (simp_all add: ex_source_def empty_disk_def)
  moreover have "take (read_count ex_source (path_of ''f'') (unat (2 :: u64)) 1) (drop (unat (2 :: u64)) [1, 2, 3 :: u8]) = [3]"
    by code_simp
  ultimately show ?thesis
    using chunk_on_wire [of ?w 2 toy_blake3 ex_source "''f''" 1 2 1 "fst ?X" "snd ?X" "[1, 2, 3]"] by (simp add: Let_def del: toy_hash)
qed

text \<open>Every chunk assigned to a worker is accounted for when it returns: sent, reported as failed, or
  named by the server in its answer to the query; only a worker that has seen the shutdown flag leaves
  chunks out. When the connection or the query fails all its chunks are reported as failed.\<close>

theorem worker_accounts:
  assumes "worker B d c conn w = (w', Ok (sent, failed))"
  shows "w_flag w' \<or> (\<exists>already. set (wc_chunk_indices c) \<subseteq> already \<union> set sent \<union> set failed
    \<and> (already = {} \<or> (\<exists>s s1 s2 resp is. conn = Some s \<and> recv_timeout s1 = (s2, Ok resp) \<and> rx s1 = rx s
         \<and> parse_query_response resp = Ok is \<and> already = set is)))"
  by (rule worker_accounted_lemma [OF assms])

lemma worker_accounts_witness:
  "\<exists>w' sent failed. worker toy_blake3 ex_source ex_worker
       (Some (stream_of (frame_bytes (query_response [0]) @ frame_bytes [ACK_OK]))) (worker_start (stream_of [])) = (w', Ok (sent, failed))
     \<and> sent = [1] \<and> failed = [] \<and> (\<exists>already. {0, 1} \<subseteq> already \<union> {1} \<and> 0 \<in> already)"
proof -
  let ?X = "worker toy_blake3 ex_source ex_worker
    (Some (stream_of (frame_bytes (query_response [0]) @ frame_bytes [ACK_OK]))) (worker_start (stream_of []))"
  have ok: "snd ?X = Ok ([1], [])" and fl: "\<not> w_flag (fst ?X)" by code_simp+
  then have x: "?X = (fst ?X, Ok ([1], []))" by (metis prod.collapse)
  from worker_accounts [OF x] fl obtain already where "set (wc_chunk_indices ex_worker) \<subseteq> already \<union> {1}" by auto
  then have "{0, 1} \<subseteq> already \<union> {1}" by (simp add: ex_worker_def)
  then show ?thesis using x by blast
qed

end
