(* ===== verification/Client.thy ===== *)
theory Client
  imports Worker Handshake
begin

text \<open>
  The client (\<open>src/client/mod.rs\<close>): setup, handshake, distribution of the chunks over the workers,
  collecting their results, the server's final status, and the exit code.

  The network's choices are the record \<open>client_env\<close>: the control connection (after TLS), the data
  connection of each worker, what each worker sees of the shared shutdown flag, and whether Ctrl-C
  comes after the workers. The control stream of the environment holds what the server sends.
\<close>

section \<open>Configuration and environment\<close>

record client_config =
  c_host :: string
  c_port :: u16
  c_filepath :: string
  c_chunk_size :: usize
  c_parallel :: usize
  c_retries :: usize
  c_tls :: bool
  c_tls_no_verify :: bool
  c_verbose :: bool

record client_env =
  e_control :: "stream option"
  e_data :: "nat \<Rightarrow> u16 \<Rightarrow> stream option"
  e_flags :: "nat \<Rightarrow> bool list"
  e_interrupt :: bool

section \<open>Setup and handshake\<close>

definition setup_transfer :: "disk \<Rightarrow> client_config \<Rightarrow> (u64 \<times> usize) res" where
  "setup_transfer d c =
     (if files d (path_of (c_filepath c)) = None then Err (FileNotFound (c_filepath c)) else
      let file_size = (case stat_len d (path_of (c_filepath c)) of Ok n \<Rightarrow> n | Err e \<Rightarrow> 0 | Panic \<Rightarrow> 0) in
      res_map (\<lambda>num_chunks. (file_size, num_chunks))
        (if file_size > 0 then div_ceil (unat file_size) (c_chunk_size c) else Ok 1))"

text \<open>\<open>None\<close> is the error return with exit code 1.\<close>

definition perform_handshake ::
  "'h blake3 \<Rightarrow> disk \<Rightarrow> client_config \<Rightarrow> stream option \<Rightarrow> (stream \<times> u8 \<times> u16 list) option res" where
  "perform_handshake B d c conn =
     (case conn of None \<Rightarrow> Ok None | Some s \<Rightarrow>
      (case build_handshake B d (c_filepath c) (c_chunk_size c) of
         Err e \<Rightarrow> Ok None
       | Panic \<Rightarrow> Panic
       | Ok handshake_msg \<Rightarrow>
           (case send_timeout s handshake_msg of
              (s1, Err e) \<Rightarrow> Ok None
            | (s1, Panic) \<Rightarrow> Panic
            | (s1, Ok _) \<Rightarrow>
                (case recv_timeout s1 of
                   (s2, Err e) \<Rightarrow> Ok None
                 | (s2, Panic) \<Rightarrow> Panic
                 | (s2, Ok response) \<Rightarrow>
                     (case parse_response response of
                        Err e \<Rightarrow> Ok None
                      | Panic \<Rightarrow> Panic
                      | Ok (status, data_ports) \<Rightarrow> Ok (Some (s2, status, data_ports)))))))"

definition recv_final_status :: "stream \<Rightarrow> u64 \<Rightarrow> stream \<times> bool res" where
  "recv_final_status s file_size =
     (let timeout = timeout_for_bytes (unat file_size) in
      st_bind (recv_with_timeout s timeout) (\<lambda>s data.
        if data = [] then (s, Ok False) else (s, Ok (data ! 0 = RESP_OK))))"

section \<open>Workers\<close>

definition push_chunk :: "usize \<Rightarrow> usize list list \<Rightarrow> usize \<Rightarrow> usize list list" where
  "push_chunk num_workers assignments i =
     assignments[i mod num_workers := assignments ! (i mod num_workers) @ [i]]"

definition setup_workers :: "client_config \<Rightarrow> usize \<Rightarrow> u16 list \<Rightarrow> usize list list" where
  "setup_workers c num_chunks data_ports =
     (let num_workers = (if data_ports = [] then 0 else min (c_parallel c) (length data_ports));
          assignments = replicate (max num_workers 1) []
      in if num_workers > 0 then foldl (push_chunk num_workers) assignments [0..<num_chunks]
         else assignments)"

definition worker_config_of :: "client_config \<Rightarrow> u64 \<Rightarrow> usize list \<Rightarrow> worker_config" where
  "worker_config_of c file_size chunk_list =
     \<lparr>wc_filepath = c_filepath c, wc_chunk_indices = chunk_list, wc_chunk_size = c_chunk_size c,
      wc_file_size = file_size, wc_retries = c_retries c\<rparr>"

definition spawn_worker ::
  "'h blake3 \<Rightarrow> disk \<Rightarrow> client_config \<Rightarrow> client_env \<Rightarrow> u64 \<Rightarrow> nat \<Rightarrow> u16 \<Rightarrow> usize list
     \<Rightarrow> worker_state \<times> (usize list \<times> usize list) res" where
  "spawn_worker B d c env file_size w_idx port chunk_list =
     worker B d (worker_config_of c file_size chunk_list) (e_data env w_idx port)
       \<lparr>w_stream = stream_of [], w_flag = False, flag_env = e_flags env w_idx\<rparr>"

text \<open>Spawning: an empty list is skipped; the port is taken round-robin. A failed \<open>handle.await\<close> (the
  worker panicked) contributes no failed chunk. The flag the client reads at the end is set when any
  worker has seen it set or has set it.\<close>

fun run_workers_from ::
  "'h blake3 \<Rightarrow> disk \<Rightarrow> client_config \<Rightarrow> client_env \<Rightarrow> u64 \<Rightarrow> u16 list \<Rightarrow> nat \<Rightarrow> usize list list
     \<Rightarrow> (usize list \<times> bool) res" where
  "run_workers_from B d c env file_size data_ports w_idx [] = Ok ([], False)"
| "run_workers_from B d c env file_size data_ports w_idx (chunk_list # assignments) =
     (if chunk_list = [] then run_workers_from B d c env file_size data_ports (Suc w_idx) assignments
      else if data_ports = [] then Panic
      else
        let port = data_ports ! (w_idx mod length data_ports) in
        (case spawn_worker B d c env file_size w_idx port chunk_list of (w, r) \<Rightarrow>
         res_bind (run_workers_from B d c env file_size data_ports (Suc w_idx) assignments) (\<lambda>(failed, flag).
         Ok ((case r of Ok (ok_list, fail_list) \<Rightarrow> fail_list @ failed | Err e \<Rightarrow> failed | Panic \<Rightarrow> failed),
             w_flag w \<or> flag))))"

definition run_workers ::
  "'h blake3 \<Rightarrow> disk \<Rightarrow> client_config \<Rightarrow> client_env \<Rightarrow> usize list list \<Rightarrow> u16 list \<Rightarrow> u64
     \<Rightarrow> (usize list \<times> bool) res" where
  "run_workers B d c env assignments data_ports file_size =
     run_workers_from B d c env file_size data_ports 0 assignments"

section \<open>The client run\<close>

definition confirmation_code :: "stream \<Rightarrow> u64 \<Rightarrow> int res" where
  "confirmation_code s file_size =
     (case snd (recv_final_status s file_size) of
        Ok True \<Rightarrow> Ok 0
      | Ok False \<Rightarrow> Ok 1
      | Err e \<Rightarrow> Ok 1
      | Panic \<Rightarrow> Panic)"

text \<open>The exit code, and whether the run counts as interrupted.\<close>

definition transfer_chunks ::
  "'h blake3 \<Rightarrow> disk \<Rightarrow> client_config \<Rightarrow> client_env \<Rightarrow> stream \<Rightarrow> u64 \<Rightarrow> usize \<Rightarrow> u16 list
     \<Rightarrow> (int \<times> bool) res" where
  "transfer_chunks B d c env control_sock file_size num_chunks data_ports =
     (let worker_assignments = setup_workers c num_chunks data_ports in
      if data_ports = [] then res_map (\<lambda>code. (code, False)) (confirmation_code control_sock file_size)
      else
        res_bind (run_workers B d c env worker_assignments data_ports file_size) (\<lambda>(all_failed, flag).
        let interrupted = flag \<or> e_interrupt env in
        if interrupted then Ok (0, True)
        else if all_failed \<noteq> [] then Ok (1, False)
        else res_map (\<lambda>code. (code, False)) (confirmation_code control_sock file_size)))"

definition run_client :: "'h blake3 \<Rightarrow> disk \<Rightarrow> client_config \<Rightarrow> client_env \<Rightarrow> (int \<times> bool) res" where
  "run_client B d c env =
     (case setup_transfer d c of
        Err e \<Rightarrow> Ok (1, False)
      | Panic \<Rightarrow> Panic
      | Ok (file_size, num_chunks) \<Rightarrow>
          (case perform_handshake B d c (e_control env) of
             Panic \<Rightarrow> Panic
           | Err e \<Rightarrow> Ok (1, False)
           | Ok None \<Rightarrow> Ok (1, False)
           | Ok (Some (control_sock, status, data_ports)) \<Rightarrow>
               if status = RESP_OK then
                 transfer_chunks B d c env control_sock file_size num_chunks data_ports
               else if status = RESP_EXISTS then Ok (0, False)
               else if status = RESP_COMPLETE then
                 res_map (\<lambda>code. (code, False)) (confirmation_code control_sock file_size)
               else Ok (1, False)))"

section \<open>The distribution of the chunks\<close>

lemma push_chunks:
  assumes "0 < n"
  shows "foldl (push_chunk n) (replicate n []) [0..<k] = map (\<lambda>w. filter (\<lambda>i. i mod n = w) [0..<k]) [0..<n]"
proof (induction k)
  case 0
  then show ?case by (simp add: map_replicate_const)
next
  case (Suc k)
  then show ?case using assms
    by (auto simp: push_chunk_def intro!: nth_equalityI)
qed

lemma setup_workers_eq:
  assumes "data_ports \<noteq> []" "0 < c_parallel c"
  shows "setup_workers c n data_ports =
    map (\<lambda>w. filter (\<lambda>i. i mod min (c_parallel c) (length data_ports) = w) [0..<n])
      [0..<min (c_parallel c) (length data_ports)]"
proof -
  obtain k where k: "k = min (c_parallel c) (length data_ports)" "0 < k" using assms by simp
  have "max k 1 = k" using k(2) by simp
  then show ?thesis
    using push_chunks [OF k(2), of n] assms(1) k(2)
    unfolding setup_workers_def Let_def k(1) [symmetric] by (simp del: upt_Suc)
qed

text \<open>Every chunk goes to exactly one worker.\<close>

lemma setup_workers_partition:
  assumes "data_ports \<noteq> []" "0 < c_parallel c" "i < n"
  shows "\<exists>!w. w < length (setup_workers c n data_ports) \<and> i \<in> set (setup_workers c n data_ports ! w)"
proof -
  obtain k where k: "k = min (c_parallel c) (length data_ports)" "0 < k" using assms by simp
  have e: "setup_workers c n data_ports = map (\<lambda>w. filter (\<lambda>i. i mod k = w) [0..<n]) [0..<k]"
    using setup_workers_eq [OF assms(1,2)] k(1) by simp
  have "w < k \<and> i \<in> set (map (\<lambda>w. filter (\<lambda>i. i mod k = w) [0..<n]) [0..<k] ! w) \<longleftrightarrow> w = i mod k" for w
    using assms(3) k(2) by auto
  then show ?thesis unfolding e by simp
qed

lemma setup_workers_bounds:
  assumes "l \<in> set (setup_workers c n data_ports)"
  shows "\<forall>i \<in> set l. i < n" "distinct l"
proof -
  have "(\<forall>i \<in> set l. i < n) \<and> distinct l"
  proof (cases "data_ports \<noteq> [] \<and> 0 < c_parallel c")
    case True
    then show ?thesis using assms by (auto simp: setup_workers_eq)
  next
    case False
    then have "l = []" using assms by (auto simp: setup_workers_def Let_def split: if_splits)
    then show ?thesis by simp
  qed
  then show "\<forall>i \<in> set l. i < n" "distinct l" by simp_all
qed

section \<open>What an exit code of zero means\<close>

lemma confirmation_code_0:
  "confirmation_code s n = Ok 0 \<Longrightarrow> \<exists>data rest. rx s = frame_bytes data @ rest \<and> data \<noteq> [] \<and> data ! 0 = RESP_OK"
  by (auto simp: confirmation_code_def recv_final_status_def Let_def st_bind_def
      split: res.splits prod.splits bool.splits if_splits dest!: recv_with_timeout_shape)

lemma perform_handshake_Some:
  assumes "perform_handshake B d c conn = Ok (Some (s2, status, ports))"
  shows "\<exists>s resp. conn = Some s \<and> rx s = frame_bytes resp @ rx s2 \<and> parse_response resp = Ok (status, ports)"
proof -
  obtain s msg s1 resp where s: "conn = Some s" and snd: "send_timeout s msg = (s1, Ok ())"
    and rc: "recv_timeout s1 = (s2, Ok resp)" and pr: "parse_response resp = Ok (status, ports)"
    using assms by (auto simp: perform_handshake_def split: option.splits res.splits prod.splits)
  have "rx s1 = rx s" using send_timeout_rx [of s msg] snd by simp
  then show ?thesis using s pr recv_with_timeout_shape [OF rc [unfolded recv_timeout_def]] by metis
qed

lemma transfer_chunks_0:
  assumes "transfer_chunks B d c env s n k ports = Ok (0, False)"
  shows "confirmation_code s n = Ok 0
    \<and> (ports \<noteq> [] \<longrightarrow> run_workers B d c env (setup_workers c k ports) ports n = Ok ([], False))"
  using assms by (auto simp: transfer_chunks_def Let_def res_simps split: if_splits)

text \<open>What the server has sent on the control stream: a handshake response that the file exists, or one
  that opens or completes a transfer and then the final status of success.\<close>

definition server_confirmed :: "stream \<Rightarrow> bool" where
  "server_confirmed s \<longleftrightarrow>
     (\<exists>resp rest status ports. rx s = frame_bytes resp @ rest \<and> parse_response resp = Ok (status, ports)
        \<and> (status = RESP_EXISTS
           \<or> (status = RESP_OK \<or> status = RESP_COMPLETE)
             \<and> (\<exists>final rest'. rest = frame_bytes final @ rest' \<and> final \<noteq> [] \<and> final ! 0 = RESP_OK)))"

lemma run_client_0:
  assumes "run_client B d c env = Ok (0, False)"
  shows "\<exists>s. e_control env = Some s \<and> server_confirmed s"
proof -
  obtain n k s2 status ports where st: "setup_transfer d c = Ok (n, k)"
    and h: "perform_handshake B d c (e_control env) = Ok (Some (s2, status, ports))"
    using assms by (auto simp: run_client_def split: res.splits option.splits prod.splits)
  from perform_handshake_Some [OF h] obtain s resp where
    c: "e_control env = Some s" "rx s = frame_bytes resp @ rx s2" "parse_response resp = Ok (status, ports)" by blast
  have "status = RESP_EXISTS \<or> (status = RESP_OK \<or> status = RESP_COMPLETE) \<and> confirmation_code s2 n = Ok 0"
    using assms st h by (auto simp: run_client_def res_simps dest: transfer_chunks_0 split: if_splits)
  moreover have "confirmation_code s2 n = Ok 0 \<Longrightarrow>
      \<exists>final rest. rx s2 = frame_bytes final @ rest \<and> final \<noteq> [] \<and> final ! 0 = RESP_OK"
    by (rule confirmation_code_0)
  ultimately have "status = RESP_EXISTS \<or> (status = RESP_OK \<or> status = RESP_COMPLETE)
      \<and> (\<exists>final rest. rx s2 = frame_bytes final @ rest \<and> final \<noteq> [] \<and> final ! 0 = RESP_OK)" by blast
  then show ?thesis unfolding server_confirmed_def using c by blast
qed

text \<open>Once the flag is set the exit code is zero, whatever failed.\<close>

lemma transfer_chunks_flag:
  assumes "run_workers B d c env (setup_workers c k ports) ports n = Ok (failed, True)" "ports \<noteq> []"
  shows "transfer_chunks B d c env s n k ports = Ok (0, True)"
  using assms by (simp add: transfer_chunks_def)

lemma run_workers_from_flag:
  assumes "run_workers_from B d c env n ports w ls = Ok (failed, flag)" "i < length ls" "ls ! i \<noteq> []"
    and "w_flag (fst (spawn_worker B d c env n (w + i) (ports ! ((w + i) mod length ports)) (ls ! i)))"
  shows flag
  using assms
proof (induction ls arbitrary: w i failed flag)
  case Nil
  then show ?case by simp
next
  case (Cons l ls)
  show ?case
  proof (cases i)
    case 0
    then show ?thesis using Cons.prems by (auto simp: Let_def res_simps split: if_splits prod.splits)
  next
    case (Suc j)
    obtain f2 g2 where tl: "run_workers_from B d c env n ports (Suc w) ls = Ok (f2, g2)" and g: "g2 \<longrightarrow> flag"
      using Cons.prems(1) by (auto simp: Let_def res_simps split: if_splits prod.splits)
    from Cons.IH [OF tl, of j] Cons.prems Suc g show ?thesis by simp
  qed
qed

lemma run_workers_total: "ports \<noteq> [] \<Longrightarrow> is_ok (run_workers_from B d c env n ports w ls)"
proof (induction ls arbitrary: w)
  case Nil
  then show ?case by simp
next
  case (Cons l ls)
  obtain f where f: "run_workers_from B d c env n ports (Suc w) ls = Ok f"
    using Cons.IH [OF Cons.prems, of "Suc w"] unfolding is_ok_iff by blast
  show ?case using Cons.prems f by (simp add: Let_def split: prod.split)
qed

section \<open>Properties\<close>

text \<open>Every chunk of the file is assigned to exactly one worker, at most once, and nothing else is
  assigned, for every number of chunks, of offered ports and of parallel connections.\<close>

theorem chunks_partitioned:
  assumes "data_ports \<noteq> []" "0 < c_parallel c"
  shows "(\<forall>i < n. \<exists>!w. w < length (setup_workers c n data_ports) \<and> i \<in> set (setup_workers c n data_ports ! w))
    \<and> (\<forall>l \<in> set (setup_workers c n data_ports). distinct l \<and> (\<forall>i \<in> set l. i < n))
    \<and> length (setup_workers c n data_ports) = min (c_parallel c) (length data_ports)"
proof (intro conjI)
  show "\<forall>i < n. \<exists>!w. w < length (setup_workers c n data_ports) \<and> i \<in> set (setup_workers c n data_ports ! w)"
    using setup_workers_partition [OF assms] by blast
  show "\<forall>l \<in> set (setup_workers c n data_ports). distinct l \<and> (\<forall>i \<in> set l. i < n)"
    using setup_workers_bounds by blast
  show "length (setup_workers c n data_ports) = min (c_parallel c) (length data_ports)"
    by (simp add: setup_workers_eq [OF assms])
qed

text \<open>Data for the witnesses: a client of \<open>ex_source\<close>, and the server's side of its connections.\<close>

definition ex_client :: client_config where
  "ex_client = \<lparr>c_host = ''h'', c_port = 1, c_filepath = ''f'', c_chunk_size = 2, c_parallel = 4, c_retries = 1,
     c_tls = False, c_tls_no_verify = False, c_verbose = False\<rparr>"

definition ex_env :: "bytes \<Rightarrow> bytes \<Rightarrow> client_env" where
  "ex_env control data = \<lparr>e_control = Some (stream_of control), e_data = (\<lambda>_ _. Some (stream_of data)),
     e_flags = (\<lambda>_. []), e_interrupt = False\<rparr>"

lemma chunks_partitioned_witness:
  "setup_workers ex_client 5 [45000, 45001] = [[0, 2, 4], [1, 3]]
   \<and> (\<exists>!w. w < length (setup_workers ex_client 5 [45000, 45001]) \<and> 3 \<in> set (setup_workers ex_client 5 [45000, 45001] ! w))"
proof -
  have "setup_workers ex_client 5 [45000, 45001] = [[0, 2, 4], [1, 3]]" by code_simp
  moreover have "0 < c_parallel ex_client" by (simp add: ex_client_def)
  ultimately show ?thesis using chunks_partitioned [of "[45000, 45001]" ex_client 5] by simp
qed

text \<open>A run that exits with code 0 without having been interrupted was told so by the server: on the
  control connection the server answered that the file exists, or opened or completed the transfer and
  then sent the final status of success.\<close>

theorem exit_zero_confirmed:
  assumes "run_client B d c env = Ok (0, False)"
  shows "\<exists>s. e_control env = Some s \<and> server_confirmed s"
  by (rule run_client_0 [OF assms])

lemma exit_zero_confirmed_witness:
  "run_client toy_blake3 ex_source ex_client
     (ex_env (frame_bytes (response_bytes RESP_OK [45000]) @ frame_bytes [RESP_OK])
             (frame_bytes (query_response []) @ frame_bytes [ACK_OK] @ frame_bytes [ACK_OK])) = Ok (0, False)
   \<and> server_confirmed (stream_of (frame_bytes (response_bytes RESP_OK [45000]) @ frame_bytes [RESP_OK]))"
proof -
  let ?e = "ex_env (frame_bytes (response_bytes RESP_OK [45000]) @ frame_bytes [RESP_OK])
     (frame_bytes (query_response []) @ frame_bytes [ACK_OK] @ frame_bytes [ACK_OK])"
  have r: "run_client toy_blake3 ex_source ex_client ?e = Ok (0, False)" by code_simp
  from exit_zero_confirmed [OF r] r show ?thesis by (simp add: ex_env_def)
qed

text \<open>C23: A chunk that could not be transferred makes the run succeed: when a worker got its connection and
  the server's answer and then reports a chunk of the file as failed, it has set the shutdown flag, the
  client takes this for an interruption and exits with code 0, although chunks are missing.\<close>

theorem failed_chunk_exits_zero:
  assumes "setup_transfer d c = Ok (n, k)"
    and "perform_handshake B d c (e_control env) = Ok (Some (s, RESP_OK, ports))" "ports \<noteq> []"
    and "w < length (setup_workers c k ports)" "setup_workers c k ports ! w \<noteq> []"
    and "spawn_worker B d c env n w (ports ! (w mod length ports)) (setup_workers c k ports ! w) = (ws, Ok (sent, failed))"
    and "e_data env w (ports ! (w mod length ports)) = Some ds"
    and "query_received (fst (load_flag \<lparr>w_stream = stream_of [], w_flag = False, flag_env = e_flags env w\<rparr>)\<lparr>w_stream := ds\<rparr>)
           = (w1, Ok already)"
    and "i \<in> set failed" "chunk_offset (worker_config_of c n (setup_workers c k ports ! w)) i \<noteq> None"
  shows "run_client B d c env = Ok (0, True)"
proof -
  have fl: "w_flag ws" using assms(6,7) worker_failed_flag [OF _ assms(8-10)] by (simp add: spawn_worker_def)
  obtain all flag where rw: "run_workers_from B d c env n ports 0 (setup_workers c k ports) = Ok (all, flag)"
    using run_workers_total [OF assms(3)] is_ok_iff by (metis surj_pair)
  have "flag" using run_workers_from_flag [OF rw assms(4,5)] assms(6) fl by simp
  then have "transfer_chunks B d c env s n k ports = Ok (0, True)"
    using transfer_chunks_flag assms(3) rw by (simp add: run_workers_def)
  then show ?thesis using assms(1,2) by (simp add: run_client_def)
qed

lemma failed_chunk_exits_zero_witness:
  "run_client toy_blake3 ex_source ex_client
     (ex_env (frame_bytes (response_bytes RESP_OK [45000]) @ frame_bytes [RESP_ERR])
             (frame_bytes (query_response []) @ frame_bytes [ACK_HASH_MISMATCH])) = Ok (0, True)"
proof -
  let ?e = "ex_env (frame_bytes (response_bytes RESP_OK [45000]) @ frame_bytes [RESP_ERR])
     (frame_bytes (query_response []) @ frame_bytes [ACK_HASH_MISMATCH])"
  let ?w0 = "\<lparr>w_stream = stream_of [], w_flag = False, flag_env = e_flags ?e 0\<rparr>"
  let ?h = "perform_handshake toy_blake3 ex_source ex_client (e_control ?e)"
  let ?S = "spawn_worker toy_blake3 ex_source ex_client ?e 3 0 ([45000] ! (0 mod length [45000 :: u16])) (setup_workers ex_client 2 [45000] ! 0)"
  let ?Q = "query_received (fst (load_flag ?w0)\<lparr>w_stream := stream_of (frame_bytes (query_response []) @ frame_bytes [ACK_HASH_MISMATCH])\<rparr>)"
  have st: "setup_transfer ex_source ex_client = Ok (3, 2)" by code_simp
  have "res_map (map_option snd) ?h = Ok (Some (RESP_OK, [45000]))" by code_simp
  then obtain x where "?h = Ok x" "map_option snd x = Some (RESP_OK, [45000])" unfolding res_map_Ok_iff by metis
  then obtain s where h: "?h = Ok (Some (s, RESP_OK, [45000]))" by (cases x) auto
  have "snd ?S = Ok ([], [0])" by code_simp
  then have sp: "?S = (fst ?S, Ok ([], [0]))" by (metis prod.collapse)
  have "snd ?Q = Ok {}" by code_simp
  then have q: "?Q = (fst ?Q, Ok {})" by (metis prod.collapse)
  have "0 < length (setup_workers ex_client 2 [45000])" "setup_workers ex_client 2 [45000] ! 0 \<noteq> []"
    "chunk_offset (worker_config_of ex_client 3 (setup_workers ex_client 2 [45000] ! 0)) 0 \<noteq> None" by code_simp+
  moreover have "e_data ?e 0 ([45000] ! (0 mod length [45000 :: u16])) = Some (stream_of (frame_bytes (query_response []) @ frame_bytes [ACK_HASH_MISMATCH]))"
    by (simp add: ex_env_def)
  ultimately show ?thesis
    using failed_chunk_exits_zero [OF st h _ _ _ sp _ q, of 0] by simp
qed

end
