(* ===== verification/Exchange.thy ===== *)
theory Exchange
  imports Control Client
begin

text \<open>
  Where client and server meet: the chunks the client cuts are the chunks the server expects, the
  handshake, the query and the chunk messages of the client are what the server reads, and an honest
  transfer, its chunks in any order over any connections, delivers the file.
\<close>

section \<open>Cutting a file into chunks\<close>

definition chunk_slice :: "usize \<Rightarrow> bytes \<Rightarrow> usize \<Rightarrow> bytes" where
  "chunk_slice cs content i = take cs (drop (i * cs) content)"

definition chunk_total :: "bytes \<Rightarrow> usize \<Rightarrow> usize" where
  "chunk_total content cs = (if content = [] then 1 else (length content + cs - 1) div cs)"

lemma concat_slices: "concat (map (chunk_slice cs content) [0..<k]) = take (k * cs) content"
proof (induction k)
  case (Suc k)
  have "take (Suc k * cs) content = take (k * cs) content @ take cs (drop (k * cs) content)"
    using take_add [of "k * cs" cs content] by (simp add: add.commute)
  then show ?case using Suc by (simp add: chunk_slice_def)
qed simp

lemma chunk_total_bounds:
  assumes "content \<noteq> []" "0 < cs"
  shows "0 < chunk_total content cs" "(chunk_total content cs - 1) * cs < length content"
    "length content \<le> chunk_total content cs * cs"
  using div_ceil_bounds [OF div_ceil_Ok [OF assms(2)], of "length content"] assms(1)
  by (simp_all add: chunk_total_def)

lemma count_chunks_total:
  assumes "length content < 2 ^ 64" "0 < cs"
  shows "count_chunks (word_of_nat (length content)) cs = Ok (chunk_total content cs)"
proof -
  have u: "unat (word_of_nat (length content) :: u64) = length content" using assms(1) by (simp add: unat_of_nat)
  then have "(0 :: u64) < word_of_nat (length content) \<longleftrightarrow> content \<noteq> []"
    by (metis length_0_conv unat_0 unat_gt_0 neq0_conv word_gt_0)
  then show ?thesis using u div_ceil_Ok [OF assms(2)] by (simp add: count_chunks_def chunk_total_def)
qed

lemma concat_all_slices:
  assumes "content \<noteq> [] \<longrightarrow> 0 < cs"
  shows "concat (map (chunk_slice cs content) [0..<chunk_total content cs]) = content"
proof (cases "content = []")
  case True
  then show ?thesis by (simp add: chunk_slice_def)
next
  case False
  then show ?thesis using concat_slices chunk_total_bounds(3) [of content cs] assms by simp
qed

text \<open>What a receiver knows of the file it is promised.\<close>

definition promised :: "receiver \<Rightarrow> bytes \<Rightarrow> bool" where
  "promised rc content \<longleftrightarrow> length content < 2 ^ 64 \<and> r_file_size rc = word_of_nat (length content)
     \<and> 0 < r_chunk_size rc \<and> r_chunk_size rc < 2 ^ 32
     \<and> r_num_chunks rc = chunk_total content (r_chunk_size rc) \<and> r_num_chunks rc \<le> MAX_CHUNKS"

lemma promised_size:
  assumes "promised rc content"
  shows "unat (r_file_size rc) = length content"
proof -
  have "length content < 2 ^ 64" "r_file_size rc = word_of_nat (length content)"
    using assms by (simp_all only: promised_def)
  then show ?thesis by (simp add: unat_of_nat)
qed

lemma slice_length:
  "i * cs < length content \<Longrightarrow> length (chunk_slice cs content i) = min cs (length content - i * cs)"
  by (simp add: chunk_slice_def)

text \<open>The client's slice of a nonempty file has the size the server expects.\<close>

lemma expected_is_slice:
  assumes p: "promised rc content" and ne: "content \<noteq> []" and i: "i < r_num_chunks rc"
  shows "expected_chunk_size rc i = length (chunk_slice (r_chunk_size rc) content i)"
proof -
  let ?cs = "r_chunk_size rc" and ?k = "r_num_chunks rc" and ?n = "length content"
  have cs: "0 < ?cs" and small: "?n < 2 ^ 64" and k: "?k = chunk_total content ?cs" using p by (simp_all only: promised_def)
  have b: "0 < ?k" "(?k - 1) * ?cs < ?n" "?n \<le> ?k * ?cs" using chunk_total_bounds [OF ne cs] k by simp_all
  have le: "i * ?cs \<le> (?k - 1) * ?cs" using i by (intro mult_le_mono1) simp
  then have len: "length (chunk_slice ?cs content i) = min ?cs (?n - i * ?cs)"
    using le b(2) by (intro slice_length) linarith
  show ?thesis
  proof (cases "i = ?k - 1")
    case True
    have "?k * ?cs = (?k - 1) * ?cs + ?cs" using b(1) by (cases ?k) simp_all
    then have r: "?n - i * ?cs \<le> ?cs" "0 < ?n - i * ?cs" using b unfolding True by linarith+
    have "usize_mul (?k - 1) ?cs = i * ?cs"
      using usize_mul_exact [of "?k - 1" ?cs] b(2) small True by simp
    moreover have "usize_sub (unat (r_file_size rc)) (i * ?cs) = ?n - i * ?cs"
      using usize_sub_exact [of "i * ?cs" ?n] small r promised_size [OF p] by simp
    ultimately show ?thesis using True r len by (simp add: expected_chunk_size_def Let_def)
  next
    case False
    then have "(i + 1) * ?cs \<le> (?k - 1) * ?cs" using i by (intro mult_le_mono1) simp
    then have "?cs \<le> ?n - i * ?cs" using b(2) by simp
    then show ?thesis using False len by (simp add: expected_chunk_size_def Let_def)
  qed
qed

text \<open>For an empty file the two disagree: the client's chunk is empty, the server expects a full one.\<close>

lemma expected_empty:
  assumes "promised rc []"
  shows "expected_chunk_size rc 0 = r_chunk_size rc" "chunk_slice (r_chunk_size rc) [] i = []" "0 < r_chunk_size rc"
proof -
  have "r_num_chunks rc = 1" "unat (r_file_size rc) = 0" "r_chunk_size rc < 2 ^ 32"
    using assms promised_size [OF assms] by (simp_all add: promised_def chunk_total_def)
  then show "expected_chunk_size rc 0 = r_chunk_size rc"
    by (simp add: expected_chunk_size_def usize_sub_def usize_mul_def)
  show "chunk_slice (r_chunk_size rc) [] i = []" "0 < r_chunk_size rc"
    using assms by (simp_all add: chunk_slice_def promised_def)
qed

section \<open>The handshake the client builds, as the server reads it\<close>

definition sent_name :: "string \<Rightarrow> string option" where
  "sent_name filepath = map_option to_string_lossy (file_name filepath)"

lemma build_handshake_value:
  assumes B: "blake3_ok B" and name: "sent_name filepath = Some name"
    and fl: "files d (path_of filepath) = Some content" "healthy d (path_of filepath)"
    and sz: "length content < 2 ^ 64" "0 < cs"
  shows "build_handshake B d filepath cs =
    Ok (handshake_bytes (str_bytes name) (word_of_nat (length content)) cs (chunk_total content cs) (b3_hash B content))"
proof -
  obtain base where "file_name filepath = Some base" "name = to_string_lossy base"
    using name by (auto simp: sent_name_def)
  then show ?thesis
    using fl file_hash_healthy [OF B fl(2,1)] count_chunks_total [OF sz]
    by (simp add: build_handshake_def stat_len_def Let_def)
qed

lemma handshake_understood:
  assumes B: "blake3_ok B" and name: "sent_name filepath = Some name" "length name \<le> MAX_FILENAME_LEN"
    and fl: "files d (path_of filepath) = Some content" "healthy d (path_of filepath)"
    and sz: "length content < 2 ^ 64" "0 < cs" "cs < 2 ^ 32" "chunk_total content cs \<le> MAX_CHUNKS"
  shows "res_bind (build_handshake B d filepath cs) parse_handshake =
    Ok \<lparr>h_filename = name, h_safe_name = name, h_file_size = word_of_nat (length content),
        h_chunk_size = cs, h_num_chunks = chunk_total content cs, h_full_hash = b3_hash B content\<rparr>"
proof -
  obtain base where base: "file_name filepath = Some base" "name = to_string_lossy base"
    using name by (auto simp: sent_name_def)
  have plain: "plain_name name" using file_name_plain [OF base(1)] plain_name_lossy base(2) by simp
  have lossy: "from_utf8_lossy (str_bytes name) = name" "to_string_lossy name = name"
    using base(2) lossy_str_bytes to_string_lossy_idem by simp_all
  have h: "length (b3_hash B content) = 32" using B by (simp add: blake3_ok_def)
  have pos: "0 < chunk_total content cs" using chunk_total_bounds(1) [of content cs] sz by (cases "content = []") (auto simp: chunk_total_def)
  show ?thesis
    using parse_handshake_bytes [of "str_bytes name" name cs "chunk_total content cs" "b3_hash B content"
        "word_of_nat (length content)" "[]"] file_name_of_plain [OF plain] lossy h name(2) sz pos
      build_handshake_value [OF B name(1) fl sz(1,2)]
    by simp
qed

section \<open>The chunk messages of the client\<close>

text \<open>What a worker puts on the wire for an assigned chunk of the promised file: whole copies of the
  chunk message of the file's slice.\<close>

lemma worker_chunk_slice:
  assumes "chunk_offset c i = Some off" "i < 2 ^ 64" "wc_chunk_size c < 2 ^ 64"
    and "length content < 2 ^ 64" "wc_file_size c = word_of_nat (length content)"
  shows "take (min (wc_chunk_size c) (unat (wc_file_size c - off))) (drop (unat off) content)
    = chunk_slice (wc_chunk_size c) content i"
proof -
  note o = chunk_offset_Some [OF assms(1-3)]
  have "unat (wc_file_size c) = length content" using assms(4,5) by (simp add: unat_of_nat)
  then have "min (wc_chunk_size c) (unat (wc_file_size c - off)) = min (wc_chunk_size c) (length (drop (unat off) content))"
    using o by simp
  then show ?thesis using o(1) by (simp add: chunk_slice_def min_def)
qed

section \<open>An honest transfer delivers the file\<close>

definition slice_message :: "'h blake3 \<Rightarrow> receiver \<Rightarrow> bytes \<Rightarrow> usize \<Rightarrow> u64 \<Rightarrow> bytes" where
  "slice_message B rc content i off =
     (let bs = chunk_slice (r_chunk_size rc) content i in chunk_message i off bs (b3_hash B bs))"

text \<open>The next frame of the connection is a chunk message of the file; what follows, and whether the
  acknowledgement gets through, is open.\<close>

definition honest_turn :: "'h blake3 \<Rightarrow> receiver \<Rightarrow> bytes \<Rightarrow> stream \<Rightarrow> usize \<Rightarrow> bool" where
  "honest_turn B rc content s i \<longleftrightarrow> i < r_num_chunks rc \<and> rx_delays s = []
     \<and> (\<exists>off rest. rx s = frame_bytes (slice_message B rc content i off) @ rest)"

text \<open>The state in the middle of an honest transfer: every received chunk's part is the file's slice.\<close>

definition on_course :: "'h blake3 \<Rightarrow> bytes \<Rightarrow> receiver \<Rightarrow> disk \<Rightarrow> bool" where
  "on_course B content rc d \<longleftrightarrow> data_inv B rc d \<and> \<not> r_failed rc \<and> promised rc content
     \<and> r_chunk_size rc + 48 \<le> MAX_PAYLOAD
     \<and> (\<forall>i < r_num_chunks rc. received_chunks rc ! i \<longrightarrow>
          files d (receiver_part rc i) = Some (chunk_slice (r_chunk_size rc) content i))"

text \<open>The metadata on disk is that of the receiver; before the first chunk there is none.\<close>

definition persisted :: "receiver \<Rightarrow> disk \<Rightarrow> bool" where
  "persisted rc d \<longleftrightarrow> files d (receiver_meta rc) =
     (if chunk_hashes (r_metadata rc) = Map.empty then None else Some (meta_to_bytes (r_metadata rc)))"

lemma verify_and_write_others:
  assumes "data_inv B rc d" "i < r_num_chunks rc" "verify_and_write_chunk B rc d i bs h = ((rc', d'), r)" "j \<noteq> i"
  shows "files d' (receiver_part rc j) = files d (receiver_part rc j)"
proof (cases "calc_hash B bs = h")
  case False
  then show ?thesis using assms(3) by (auto simp: verify_and_write_chunk_def)
next
  case True
  have ok: "dirs_ok rc" and il: "i < length (received_chunks rc)"
    using assms(1,2) by (auto simp: data_inv_def receiver_wf_def)
  obtain d1 r1 where w: "fs_write d (receiver_part rc i) bs = (d1, r1)" by (cases "fs_write d (receiver_part rc i) bs")
  have ne: "receiver_part rc j \<noteq> receiver_part rc i" using ok assms(4) by (simp add: transfer_files)
  have d1: "files d1 (receiver_part rc j) = files d (receiver_part rc j)"
    using fs_write_frame [OF ne, of d bs] w by simp
  obtain rc2 d2 r2 where rec: "record_chunk rc d1 i h = ((rc2, d2), r2)" by (metis surj_pair)
  have "d' = d1 \<or> d' = d2"
    using assms(3) True w rec by (cases r1; cases r2) (auto simp: verify_and_write_chunk_def receiver_paths)
  then show ?thesis using d1 record_chunk_step(5) [OF ok il rec] by auto
qed

text \<open>A chunk message of the expected size with the hash of its data is accepted, whoever sends it.\<close>

lemma accepted_turn:
  assumes B: "blake3_ok B" and inv: "data_inv B rc d" and nf: "\<not> r_failed rc" and hl: "\<And>p. healthy d p"
    and i: "i < r_num_chunks rc" and sz: "length bs = expected_chunk_size rc i" "length bs + 48 \<le> MAX_PAYLOAD"
    and dl: "rx_delays s = []" and rxs: "rx s = frame_bytes (chunk_message i off bs (b3_hash B bs)) @ rest"
  shows "\<exists>d'. data_iteration B rc d s =
      ((recorded rc i (b3_hash B bs), d', fst (send_ack (s\<lparr>rx := rest\<rparr>) ACK_OK)), Ok Continue)
    \<and> data_inv B (recorded rc i (b3_hash B bs)) d' \<and> same_faults d d' \<and> files d' (receiver_part rc i) = Some bs
    \<and> files d' (receiver_meta rc) = Some (meta_to_bytes (r_metadata (recorded rc i (b3_hash B bs))))
    \<and> (\<forall>j. j \<noteq> i \<longrightarrow> files d' (receiver_part rc j) = files d (receiver_part rc j))"
proof -
  let ?h = "b3_hash B bs" and ?msg = "chunk_message i off bs (b3_hash B bs)"
  let ?rc' = "recorded rc i ?h"
  have h32: "length ?h = 32" using B by (simp add: blake3_ok_def)
  then have len: "length ?msg = 48 + length bs" by (simp add: length_chunk_message)
  then have fit: "length ?msg \<le> MAX_PAYLOAD" and long: "?msg \<noteq> []" "length ?msg \<noteq> 1" using sz(2) by auto
  have rcv: "recv_with_timeout s (timeout_for_bytes MAX_PAYLOAD) = (s\<lparr>rx := rest\<rparr>, Ok ?msg)"
    using recv_frame_bytes [OF fit rxs] dl by (simp add: recv_with_timeout_def)
  obtain d' where vw: "verify_and_write_chunk B rc d i bs ?h = ((?rc', d'), Ok ACK_OK)"
    using verify_and_write_healthy [OF inv hl i] by blast
  have "r_num_chunks rc \<le> 2 ^ 32" using inv unfolding data_inv_def receiver_wf_def by linarith
  moreover have "length bs < 2 ^ 32" using sz(2) by (simp add: MAX_PAYLOAD_def)
  ultimately have ck: "check_chunk rc ?msg = Ok (Some (i, bs, ?h))"
    using check_chunk_message [OF i _ sz(1) _ h32, of off "[]"] by simp
  obtain s' r where ack: "send_ack (s\<lparr>rx := rest\<rparr>) ACK_OK = (s', r)" by (metis surj_pair)
  have "r \<noteq> Panic" using send_timeout_not_Panic [of "s\<lparr>rx := rest\<rparr>" "[ACK_OK]"] ack by (simp add: send_ack_def)
  then have "data_iteration B rc d s = ((?rc', d', fst (send_ack (s\<lparr>rx := rest\<rparr>) ACK_OK)), Ok Continue)"
    using nf rcv long ck vw ack by (cases r) (simp_all add: data_iteration_def process_chunk_def)
  then show ?thesis
    using verify_and_write_inv [OF inv i h32 vw] verify_and_write_others [OF inv i vw] by (auto simp: data_step_ok_def)
qed

lemma chunk_turn_step:
  assumes B: "blake3_ok B" and oc: "on_course B content rc d" and ne: "content \<noteq> []"
    and hl: "\<And>p. healthy d p" and i: "i < r_num_chunks rc" and dl: "rx_delays s = []"
    and rxs: "rx s = frame_bytes (slice_message B rc content i off) @ rest"
  shows "\<exists>d'. data_iteration B rc d s =
      ((recorded rc i (b3_hash B (chunk_slice (r_chunk_size rc) content i)), d',
        fst (send_ack (s\<lparr>rx := rest\<rparr>) ACK_OK)), Ok Continue)
    \<and> on_course B content (recorded rc i (b3_hash B (chunk_slice (r_chunk_size rc) content i))) d'
    \<and> persisted (recorded rc i (b3_hash B (chunk_slice (r_chunk_size rc) content i))) d'
    \<and> same_faults d d' \<and> (\<forall>j. j \<noteq> i \<longrightarrow> files d' (receiver_part rc j) = files d (receiver_part rc j))"
proof -
  let ?bs = "chunk_slice (r_chunk_size rc) content i"
  let ?rc' = "recorded rc i (b3_hash B ?bs)"
  have inv: "data_inv B rc d" and nf: "\<not> r_failed rc" and pr: "promised rc content"
    and mp: "r_chunk_size rc + 48 \<le> MAX_PAYLOAD" using oc by (auto simp: on_course_def)
  have sz: "length ?bs = expected_chunk_size rc i" using expected_is_slice [OF pr ne i] by simp
  have "length ?bs + 48 \<le> MAX_PAYLOAD" using mp by (simp add: chunk_slice_def)
  from accepted_turn [OF B inv nf hl i sz this dl rxs [unfolded slice_message_def Let_def]] obtain d' where
    it: "data_iteration B rc d s = ((?rc', d', fst (send_ack (s\<lparr>rx := rest\<rparr>) ACK_OK)), Ok Continue)"
    and st: "data_inv B ?rc' d'" "same_faults d d'" "files d' (receiver_part rc i) = Some ?bs"
      "files d' (receiver_meta rc) = Some (meta_to_bytes (r_metadata ?rc'))"
    and others: "\<forall>j. j \<noteq> i \<longrightarrow> files d' (receiver_part rc j) = files d (receiver_part rc j)" by blast
  have "files d' (receiver_part rc j) = Some (chunk_slice (r_chunk_size rc) content j)"
    if "j < r_num_chunks rc" "received_chunks ?rc' ! j" for j
    using that st(3) others oc by (cases "j = i") (auto simp: recorded_def on_course_def)
  moreover have "receiver_part ?rc' = receiver_part rc" using same_transfer_paths(1) same_transfer_refl(3) by metis
  ultimately have "on_course B content ?rc' d'"
    using st(1) nf pr mp unfolding on_course_def promised_def by (simp add: recorded_def)
  moreover have "persisted ?rc' d'"
    using st(4) same_transfer_paths(2) [OF same_transfer_refl(3), of rc i "b3_hash B ?bs"]
    by (auto simp: persisted_def recorded_def add_chunk_def)
  ultimately show ?thesis using it st(2) others by blast
qed

lemma honest_turn_step:
  assumes "blake3_ok B" "on_course B content rc d" "content \<noteq> []" "\<And>p. healthy d p" "honest_turn B rc content s i"
  shows "\<exists>d' s'. data_iteration B rc d s =
      ((recorded rc i (b3_hash B (chunk_slice (r_chunk_size rc) content i)), d', s'), Ok Continue)
    \<and> on_course B content (recorded rc i (b3_hash B (chunk_slice (r_chunk_size rc) content i))) d'
    \<and> persisted (recorded rc i (b3_hash B (chunk_slice (r_chunk_size rc) content i))) d'
    \<and> same_faults d d' \<and> (\<forall>j. j \<noteq> i \<longrightarrow> files d' (receiver_part rc j) = files d (receiver_part rc j))"
proof -
  obtain off rest where "i < r_num_chunks rc" "rx_delays s = []"
    "rx s = frame_bytes (slice_message B rc content i off) @ rest"
    using assms(5) by (auto simp: honest_turn_def)
  from chunk_turn_step [OF assms(1-4) this] show ?thesis by blast
qed

text \<open>Any number of honest turns of one transfer, in any order, repeated or not.\<close>

definition honest_turns ::
  "'h blake3 \<Rightarrow> nat \<Rightarrow> receiver \<Rightarrow> bytes \<Rightarrow> (nat \<times> stream) list \<Rightarrow> usize list \<Rightarrow> bool" where
  "honest_turns B rid rc content turns is \<longleftrightarrow>
     list_all2 (\<lambda>t i. fst t = rid \<and> honest_turn B rc content (snd t) i) turns is"

lemma honest_turns_same:
  assumes "same_transfer rc rc'"
  shows "honest_turns B rid rc' = honest_turns B rid rc"
proof -
  have "honest_turn B rc' = honest_turn B rc"
    using assms by (simp add: honest_turn_def slice_message_def same_transfer_def fun_eq_iff)
  then show ?thesis by (simp add: honest_turns_def fun_eq_iff)
qed

text \<open>A transfer on a server whose disk works, and what turns of its connections add to it.\<close>

definition on_track :: "'h blake3 \<Rightarrow> bytes \<Rightarrow> nat \<Rightarrow> 'p server \<Rightarrow> bool" where
  "on_track B content rid srv \<longleftrightarrow> rid < length (receivers srv)
     \<and> on_course B content (receivers srv ! rid) (sdisk srv) \<and> (\<forall>p. healthy (sdisk srv) p)"

definition took :: "nat \<Rightarrow> 'p server \<Rightarrow> usize set \<Rightarrow> 'p server \<Rightarrow> bool" where
  "took rid srv I srv' \<longleftrightarrow> data_step_ok (receivers srv ! rid) (sdisk srv) (receivers srv' ! rid) (sdisk srv')
     \<and> (persisted (receivers srv ! rid) (sdisk srv) \<longrightarrow> persisted (receivers srv' ! rid) (sdisk srv'))
     \<and> (\<forall>j < r_num_chunks (receivers srv ! rid).
          received_chunks (receivers srv' ! rid) ! j \<longleftrightarrow> received_chunks (receivers srv ! rid) ! j \<or> j \<in> I)"

lemma on_trackD:
  assumes "on_track B content rid srv"
  shows "rid < length (receivers srv)" "on_course B content (receivers srv ! rid) (sdisk srv)"
    "healthy (sdisk srv) p" "receiver_wf (receivers srv ! rid)" "\<not> r_failed (receivers srv ! rid)"
  using assms unfolding on_track_def on_course_def data_inv_def by blast+

lemma took_refl [simp]: "took rid srv {} srv"
  by (simp add: took_def)

lemma tookD:
  assumes "took rid srv I srv'"
  shows "same_transfer (receivers srv ! rid) (receivers srv' ! rid)" "same_faults (sdisk srv) (sdisk srv')"
    "r_num_chunks (receivers srv' ! rid) = r_num_chunks (receivers srv ! rid)"
  using assms by (simp_all add: took_def data_step_ok_def same_transfer_def)

lemma took_trans: "took rid a I b \<Longrightarrow> took rid b J c \<Longrightarrow> took rid a (I \<union> J) c"
  using tookD(3) [of rid a I b] data_step_ok_trans by (fastforce simp: took_def)

lemma honest_turn_track:
  assumes B: "blake3_ok B" and ne: "content \<noteq> []" and tr: "on_track B content rid srv"
    and t: "honest_turn B (receivers srv ! rid) content s i"
  shows "on_track B content rid (data_turn B srv (rid, s)) \<and> took rid srv {i} (data_turn B srv (rid, s))"
proof -
  let ?rc = "receivers srv ! rid"
  let ?rc' = "recorded ?rc i (b3_hash B (chunk_slice (r_chunk_size ?rc) content i))"
  note tk = on_trackD [OF tr]
  have inv: "data_inv B ?rc (sdisk srv)" using tk(2) by (simp add: on_course_def)
  from honest_turn_step [OF B tk(2) ne tk(3) t] obtain d' s' where
    it: "data_iteration B ?rc (sdisk srv) s = ((?rc', d', s'), Ok Continue)"
    and oc': "on_course B content ?rc' d'" and ps: "persisted ?rc' d'" and sf: "same_faults (sdisk srv) d'" by blast
  have s1: "data_turn B srv (rid, s) = srv\<lparr>receivers := (receivers srv)[rid := ?rc'], sdisk := d'\<rparr>"
    using it tk(1) by (simp add: data_turn_def)
  have "healthy d' p" for p using same_faults_healthy [OF sf] tk(3) by simp
  then have "on_track B content rid (data_turn B srv (rid, s))" using oc' tk(1) by (simp add: s1 on_track_def)
  moreover have "length (received_chunks ?rc) = r_num_chunks ?rc" using tk(4) by (simp add: receiver_wf_def)
  then have "received_chunks ?rc' ! j \<longleftrightarrow> received_chunks ?rc ! j \<or> j = i" if "j < r_num_chunks ?rc" for j
    using that t by (auto simp: recorded_def nth_list_update honest_turn_def)
  then have "took rid srv {i} (data_turn B srv (rid, s))" using tk(1) ps data_iteration_inv [OF inv it] by (simp add: s1 took_def)
  ultimately show ?thesis by blast
qed

lemma honest_turns_run:
  assumes B: "blake3_ok B" and ne: "content \<noteq> []"
  shows "on_track B content rid srv \<Longrightarrow> honest_turns B rid (receivers srv ! rid) content turns is \<Longrightarrow>
    on_track B content rid (foldl (data_turn B) srv turns) \<and> took rid srv (set is) (foldl (data_turn B) srv turns)"
proof (induction turns arbitrary: srv "is")
  case Nil
  then show ?case by (simp add: honest_turns_def)
next
  case (Cons t turns)
  let ?rc = "receivers srv ! rid"
  obtain s i js where t: "t = (rid, s)" "is = i # js" "honest_turn B ?rc content s i" "honest_turns B rid ?rc content turns js"
    using Cons.prems(2) by (cases t) (auto simp: honest_turns_def list_all2_Cons1)
  note one = honest_turn_track [OF B ne Cons.prems(1) t(3), folded t(1)]
  have "honest_turns B rid (receivers (data_turn B srv t) ! rid) content turns js"
    using one t(4) honest_turns_same tookD(1) by metis
  with Cons.IH one have "on_track B content rid (foldl (data_turn B) (data_turn B srv t) turns)"
    "took rid (data_turn B srv t) (set js) (foldl (data_turn B) (data_turn B srv t) turns)" by blast+
  then show ?case using took_trans [of rid srv "{i}"] one t(2) by auto
qed

lemma on_course_assembles:
  assumes B: "blake3_ok B" and oc: "on_course B content rc d" and ne: "content \<noteq> []" and hl: "\<And>p. healthy d p"
    and full: "r_full_hash rc = b3_hash B content" and compl: "is_complete rc"
  shows "\<exists>d'. assemble B rc d = (d', Ok True) \<and> files d' (receiver_final rc) = Some content
    \<and> files d' (receiver_meta rc) = None \<and> (\<forall>i < r_num_chunks rc. files d' (receiver_part rc i) = None)"
proof -
  let ?cs = "r_chunk_size rc"
  have ok: "dirs_ok rc" and wf: "receiver_wf rc" and pr: "promised rc content"
    using oc by (auto simp: on_course_def data_inv_def)
  have "files d (receiver_part rc i) = Some (chunk_slice ?cs content i)" if "i < r_num_chunks rc" for i
    using that oc compl is_complete_iff [OF wf] by (simp add: on_course_def)
  from assemble_complete [OF ok B hl this] obtain d' where
    a: "assemble B rc d = (d', Ok (b3_hash B (concat (map (chunk_slice ?cs content) [0..<r_num_chunks rc])) = r_full_hash rc))"
      "files d' (receiver_final rc) = Some (concat (map (chunk_slice ?cs content) [0..<r_num_chunks rc]))"
      "files d' (receiver_meta rc) = None" "\<forall>i < r_num_chunks rc. files d' (receiver_part rc i) = None"
    by blast
  have "concat (map (chunk_slice ?cs content) [0..<r_num_chunks rc]) = content"
    using concat_all_slices [of content ?cs] pr by (simp add: promised_def)
  then show ?thesis using a full by auto
qed

section \<open>A whole connection with an honest client\<close>

text \<open>Every round lets the wait go on.\<close>

definition waiting_rounds :: "round list \<Rightarrow> bool" where
  "waiting_rounds rounds \<longleftrightarrow> list_all (\<lambda>(turns, outcome). outcome = Slept \<or> outcome = ReadByte) rounds"

definition covers :: "receiver \<Rightarrow> usize set \<Rightarrow> bool" where
  "covers rc is \<longleftrightarrow> (\<forall>j < r_num_chunks rc. received_chunks rc ! j \<or> j \<in> is)"

lemma honest_turns_append:
  "honest_turns B rid rc content (ts @ us) is \<Longrightarrow>
     \<exists>js ks. is = js @ ks \<and> honest_turns B rid rc content ts js \<and> honest_turns B rid rc content us ks"
  unfolding honest_turns_def list_all2_append1 by blast

lemma took_covers: "took rid srv (set js) srv' \<Longrightarrow> covers (receivers srv' ! rid) K \<longleftrightarrow> covers (receivers srv ! rid) (set js \<union> K)"
  using tookD(3) [of rid srv "set js" srv'] by (auto simp: took_def covers_def)

lemma complete_covers: "on_track B content rid srv \<Longrightarrow> is_complete (receivers srv ! rid) \<longleftrightarrow> covers (receivers srv ! rid) {}"
  using is_complete_iff [OF on_trackD(4)] by (simp add: covers_def)

text \<open>One round of an honest wait.\<close>

lemma wait_round:
  assumes "on_track B content rid srv" "\<not> is_complete (receivers srv ! rid)" "waiting_rounds (rnd # rounds)"
  shows "wait_for_completion B srv rid (rnd # rest) = wait_for_completion B (foldl (data_turn B) srv (fst rnd)) rid rest"
  using assms on_trackD(5) [OF assms(1)] by (cases rnd) (auto simp: waiting_rounds_def Let_def)

lemma honest_round:
  assumes B: "blake3_ok B" and ne: "content \<noteq> []" and tr: "on_track B content rid srv"
    and ts: "honest_turns B rid (receivers srv ! rid) content (fst rnd @ turns) is"
  obtains js ks where "is = js @ ks" "on_track B content rid (foldl (data_turn B) srv (fst rnd))"
    "took rid srv (set js) (foldl (data_turn B) srv (fst rnd))"
    "honest_turns B rid (receivers (foldl (data_turn B) srv (fst rnd)) ! rid) content turns ks"
proof -
  obtain js ks where j: "is = js @ ks" "honest_turns B rid (receivers srv ! rid) content (fst rnd) js"
    "honest_turns B rid (receivers srv ! rid) content turns ks"
    using honest_turns_append [OF ts] by blast
  note run = honest_turns_run [OF B ne tr j(2)]
  then have "honest_turns B rid (receivers (foldl (data_turn B) srv (fst rnd)) ! rid) content turns ks"
    using j(3) honest_turns_same tookD(1) by metis
  then show thesis using that j(1) run by blast
qed

lemma wait_honest:
  assumes B: "blake3_ok B" and ne: "content \<noteq> []"
  shows "on_track B content rid srv \<Longrightarrow> waiting_rounds rounds \<Longrightarrow>
    honest_turns B rid (receivers srv ! rid) content (concat (map fst rounds)) is \<Longrightarrow>
    covers (receivers srv ! rid) (set is) \<Longrightarrow>
    \<exists>srv'. wait_for_completion B srv rid rounds = (srv', True) \<and> on_track B content rid srv'
      \<and> same_transfer (receivers srv ! rid) (receivers srv' ! rid) \<and> is_complete (receivers srv' ! rid)"
proof (induction rounds arbitrary: srv "is")
  case Nil
  have "is = []" using Nil.prems(3) by (simp add: honest_turns_def)
  then show ?case using Nil.prems complete_covers [OF Nil.prems(1)] by simp
next
  case (Cons rnd rounds)
  show ?case
  proof (cases "is_complete (receivers srv ! rid)")
    case True
    then show ?thesis using Cons.prems(1) by (cases rnd) auto
  next
    case False
    let ?srv1 = "foldl (data_turn B) srv (fst rnd)"
    obtain js ks where ts: "is = js @ ks" "on_track B content rid ?srv1" "took rid srv (set js) ?srv1"
      "honest_turns B rid (receivers ?srv1 ! rid) content (concat (map fst rounds)) ks"
      using honest_round [OF B ne Cons.prems(1), of rnd "concat (map fst rounds)" "is"] Cons.prems(3) by auto
    have "covers (receivers ?srv1 ! rid) (set ks)" using Cons.prems(4) took_covers [OF ts(3)] ts(1) by simp
    moreover have "waiting_rounds rounds" using Cons.prems(2) by (simp add: waiting_rounds_def)
    ultimately obtain srv' where "wait_for_completion B ?srv1 rid rounds = (srv', True)" "on_track B content rid srv'"
      "same_transfer (receivers ?srv1 ! rid) (receivers srv' ! rid)" "is_complete (receivers srv' ! rid)"
      using Cons.IH [OF ts(2) _ ts(4)] by blast
    then show ?thesis
      using wait_round [OF Cons.prems(1) False Cons.prems(2)] tookD(1) [OF ts(3)] by (auto simp: same_transfer_def)
  qed
qed

lemma open_ports_disk:
  "open_ports S os_free srv s rc mp = ((srv', s'), r) \<Longrightarrow> sdisk srv' = sdisk srv"
  by (auto simp: open_ports_def allocate_sockets_def try_reserve_ports_def share_receiver_def drop_sockets_def
      register_receivers_def Let_def split: prod.splits option.splits res.splits if_splits)

lemma meta_load_None: "files d (meta_file dir f) = None \<Longrightarrow> meta_load d dir f = Ok None"
  by (simp add: meta_load_def Let_def path_exists_def)

text \<open>The receiver of an accepted handshake that finds no metadata.\<close>

definition receiver_of :: "handshake_data \<Rightarrow> string \<Rightarrow> string \<Rightarrow> receiver" where
  "receiver_of h output_dir temp_dir = create_receiver (h_safe_name h) (h_file_size h) (h_chunk_size h)
     (h_num_chunks h) (h_full_hash h) output_dir temp_dir"

lemma resume_new:
  assumes "files d (meta_file temp_dir (h_safe_name h)) = None"
  shows "resume_receiver B (receiver_of h output_dir temp_dir) d = ((receiver_of h output_dir temp_dir, d), Ok False)"
  using meta_load_None [OF assms]
  by (simp add: resume_receiver_def load_or_purge_metadata_def Let_def receiver_of_def create_receiver_def receiver_new_def)

lemma control_open_transfer:
  assumes B: "blake3_ok B" and pl: "plain_stream s" and dirs: "output_dir \<noteq> []" "temp_dir \<noteq> []"
    and hs: "recv_timeout s = (s0, Ok data)" "parse_handshake data = Ok h"
    and rr: "resume_receiver B (receiver_of h output_dir temp_dir) (sdisk srv) = ((rc, d), Ok False)"
    and o: "control_open S B os_free srv s output_dir temp_dir mp = ((srv1, s1), Ok (Waiting rid ports))"
  shows "rid < length (receivers srv1)" "receivers srv1 ! rid = rc"
    and "sdisk srv1 = d" "plain_stream s1" "tx s1 = tx s @ frame_bytes (response_bytes RESP_OK ports)"
proof -
  have data: "data \<noteq> []" using hs(2) by (auto simp: parse_handshake_def PREFIX_SIZE_def SUFFIX_SIZE_def)
  have rh: "receive_handshake s = (s0, Ok (Some h))" using hs data by (simp add: receive_handshake_def)
  note s0 = receive_handshake_outcome [OF rh pl, simplified]
  obtain s2 go where pt: "prepare_transfer B (sdisk srv) s0 h output_dir temp_dir = (s2, Ok go)"
    using o rh by (auto simp: control_open_def split: prod.splits res.splits)
  have go: "go" using o rh pt by (cases go) (simp_all add: control_open_def)
  then have s2: "s2 = s0" using prepare_transfer_outcome [OF B _ pt] s0 by simp
  have op: "open_ports S os_free (srv\<lparr>sdisk := d\<rparr>) s0 rc mp = ((srv1, s1), Ok (Waiting rid ports))"
    using o rh pt go s2 rr by (simp add: control_open_def receiver_of_def Let_def)
  show "sdisk srv1 = d" using open_ports_disk [OF op] by simp
  show "rid < length (receivers srv1)" "receivers srv1 ! rid = rc" "plain_stream s1"
    "tx s1 = tx s @ frame_bytes (response_bytes RESP_OK ports)"
    using open_ports_outcome [OF op] s0 by simp_all
qed

text \<open>What the handshake says of the file is true, and its chunks fit into frames.\<close>

definition describes :: "'h blake3 \<Rightarrow> handshake_data \<Rightarrow> bytes \<Rightarrow> bool" where
  "describes B h content \<longleftrightarrow> h_file_size h = word_of_nat (length content) \<and> length content < 2 ^ 64
     \<and> h_num_chunks h = chunk_total content (h_chunk_size h) \<and> h_full_hash h = b3_hash B content
     \<and> h_chunk_size h + 48 \<le> MAX_PAYLOAD"

lemma describes_on_course:
  assumes "handshake_ok h" "describes B h content" "output_dir \<noteq> []" "temp_dir \<noteq> []"
  shows "on_course B content (receiver_of h output_dir temp_dir) d"
    and "r_full_hash (receiver_of h output_dir temp_dir) = b3_hash B content"
proof -
  let ?rc = "receiver_of h output_dir temp_dir"
  have fr: "fresh ?rc" unfolding receiver_of_def by (rule create_receiver_fresh [OF assms(1,3,4)])
  have "promised ?rc content"
    using assms(1,2) by (simp add: promised_def describes_def handshake_ok_def receiver_of_def create_receiver_def receiver_new_def)
  moreover have "data_inv B ?rc d" using fr by (simp add: fresh_def data_inv_def parts_match_def)
  moreover have "r_chunk_size ?rc + 48 \<le> MAX_PAYLOAD"
    using assms(2) by (simp add: describes_def receiver_of_def create_receiver_def receiver_new_def)
  ultimately show "on_course B content ?rc d"
    using fr fresh_flags [OF fr] by (auto simp: on_course_def fresh_def)
  show "r_full_hash ?rc = b3_hash B content"
    using assms(2) by (simp add: describes_def receiver_of_def create_receiver_def receiver_new_def)
qed

lemma receiver_of_final: "receiver_final (receiver_of h output_dir temp_dir) = path_of (output_dir @ ''/'' @ h_safe_name h)"
  by (simp add: receiver_final_def final_path_def receiver_of_def create_receiver_def receiver_new_def)

lemma close_honest:
  assumes B: "blake3_ok B" and ne: "content \<noteq> []" and oc: "on_course B content (receivers srv ! rid) (sdisk srv)"
    and hl: "\<And>p. healthy (sdisk srv) p" and fh: "r_full_hash (receivers srv ! rid) = b3_hash B content"
    and compl: "is_complete (receivers srv ! rid)" and pl: "plain_stream s"
  shows "\<exists>srv' s'. control_close S B srv s rid ports = ((srv', s'), Ok ())
    \<and> tx s' = tx s @ frame_bytes [RESP_OK] \<and> files (sdisk srv') (receiver_final (receivers srv ! rid)) = Some content"
proof -
  from on_course_assembles [OF B oc ne hl fh compl] obtain d' where
    a: "assemble B (receivers srv ! rid) (sdisk srv) = (d', Ok True)"
      "files d' (receiver_final (receivers srv ! rid)) = Some content" by blast
  have "\<not> r_failed (receivers srv ! rid)" using oc by (simp add: on_course_def)
  then show ?thesis
    using a compl pl
    by (simp add: control_close_def assemble_file_def succeeded_def final_status_def send_timeout_plain
        cleanup_def Let_def foldl_remove release_ports_def)
qed

text \<open>A session that starts with a receiver on course and gets the missing chunks.\<close>

lemma session_delivers:
  assumes B: "blake3_ok B" and ne: "content \<noteq> []" and pl: "plain_stream s"
    and dirs: "output_dir \<noteq> []" "temp_dir \<noteq> []" and hl: "\<And>p. healthy d p"
    and hs: "recv_timeout s = (s0, Ok data)" "parse_handshake data = Ok h" and ds: "describes B h content"
    and rr: "resume_receiver B (receiver_of h output_dir temp_dir) (sdisk srv) = ((rc, d), Ok False)"
    and same: "same_transfer (receiver_of h output_dir temp_dir) rc" and oc: "on_course B content rc d"
    and o: "control_open S B os_free srv s output_dir temp_dir mp = ((srv1, s1), Ok (Waiting rid ports))"
    and rounds: "waiting_rounds rounds"
    and honest: "honest_turns B rid (receiver_of h output_dir temp_dir) content (concat (map fst rounds)) is"
    and cov: "covers rc (set is)"
  shows "\<exists>srv' s'. handle_control_connection S B os_free srv s output_dir temp_dir mp rounds = ((srv', s'), Ok True)
    \<and> tx s' = tx s @ frame_bytes (response_bytes RESP_OK ports) @ frame_bytes [RESP_OK]
    \<and> files (sdisk srv') (path_of (output_dir @ ''/'' @ h_safe_name h)) = Some content"
proof -
  let ?rc = "receiver_of h output_dir temp_dir"
  note op = control_open_transfer [OF B pl dirs hs rr o]
  have tr: "on_track B content rid srv1" using op hl oc unfolding on_track_def by blast
  have honest1: "honest_turns B rid (receivers srv1 ! rid) content (concat (map fst rounds)) is"
    unfolding op(2) honest_turns_same [OF same] by (rule honest)
  from wait_honest [OF B ne tr rounds honest1] cov obtain srv2 where
    w: "wait_for_completion B srv1 rid rounds = (srv2, True)" "on_track B content rid srv2"
      "same_transfer rc (receivers srv2 ! rid)" "is_complete (receivers srv2 ! rid)"
    unfolding op(2) by blast
  have same2: "same_transfer ?rc (receivers srv2 ! rid)" using same w(3) by (simp add: same_transfer_def)
  have fh: "r_full_hash (receivers srv2 ! rid) = b3_hash B content"
    using same2 describes_on_course(2) [OF parse_handshake_sound [OF hs(2)] ds dirs] by (simp add: same_transfer_def)
  from close_honest [OF B ne on_trackD(2,3) [OF w(2)] fh w(4) op(4)] obtain srv' s' where
    "control_close S B srv2 s1 rid ports = ((srv', s'), Ok ())" "tx s' = tx s1 @ frame_bytes [RESP_OK]"
    "files (sdisk srv') (receiver_final (receivers srv2 ! rid)) = Some content" by blast
  moreover have "receiver_final (receivers srv2 ! rid) = path_of (output_dir @ ''/'' @ h_safe_name h)"
    using same_transfer_paths(3) [OF same2] receiver_of_final by simp
  ultimately show ?thesis using o w(1) op(5) by (simp add: handle_control_connection_def)
qed

lemma honest_session:
  assumes B: "blake3_ok B" and ne: "content \<noteq> []" and pl: "plain_stream s"
    and dirs: "output_dir \<noteq> []" "temp_dir \<noteq> []" and hl: "\<And>p. healthy (sdisk srv) p"
    and hs: "recv_timeout s = (s0, Ok data)" "parse_handshake data = Ok h" and ds: "describes B h content"
    and nometa: "files (sdisk srv) (meta_file temp_dir (h_safe_name h)) = None"
    and o: "control_open S B os_free srv s output_dir temp_dir mp = ((srv1, s1), Ok (Waiting rid ports))"
    and rounds: "waiting_rounds rounds"
    and honest: "honest_turns B rid (receiver_of h output_dir temp_dir) content (concat (map fst rounds)) is"
    and all: "{..<h_num_chunks h} \<subseteq> set is"
  shows "\<exists>srv' s'. handle_control_connection S B os_free srv s output_dir temp_dir mp rounds = ((srv', s'), Ok True)
    \<and> tx s' = tx s @ frame_bytes (response_bytes RESP_OK ports) @ frame_bytes [RESP_OK]
    \<and> files (sdisk srv') (path_of (output_dir @ ''/'' @ h_safe_name h)) = Some content"
proof -
  have "r_num_chunks (receiver_of h output_dir temp_dir) = h_num_chunks h"
    by (simp add: receiver_of_def create_receiver_def receiver_new_def)
  then have "covers (receiver_of h output_dir temp_dir) (set is)" using all by (auto simp: covers_def)
  then show ?thesis
    using session_delivers [OF B ne pl dirs hl hs ds resume_new [OF nometa] same_transfer_refl(1)
        describes_on_course(1) [OF parse_handshake_sound [OF hs(2)] ds dirs] o rounds honest] by blast
qed

section \<open>Properties\<close>

text \<open>C21: What the client writes into the handshake, the server reads: name, size, chunk size, number of
  chunks and hash of the file, and the name it stores the file under is the client's.\<close>

theorem handshake_agreed:
  assumes "blake3_ok B" "sent_name filepath = Some name" "length name \<le> MAX_FILENAME_LEN"
    and "files d (path_of filepath) = Some content" "healthy d (path_of filepath)"
    and "length content < 2 ^ 64" "0 < cs" "cs < 2 ^ 32" "chunk_total content cs \<le> MAX_CHUNKS"
  shows "res_bind (build_handshake B d filepath cs) parse_handshake =
    Ok \<lparr>h_filename = name, h_safe_name = name, h_file_size = word_of_nat (length content),
        h_chunk_size = cs, h_num_chunks = chunk_total content cs, h_full_hash = b3_hash B content\<rparr>"
  by (rule handshake_understood [OF assms])

lemma handshake_agreed_witness:
  "res_bind (build_handshake toy_blake3 ex_source ''f'' 2) parse_handshake =
    Ok \<lparr>h_filename = ''f'', h_safe_name = ''f'', h_file_size = word_of_nat (length [1, 2, 3 :: u8]), h_chunk_size = 2,
        h_num_chunks = chunk_total [1, 2, 3] 2, h_full_hash = b3_hash toy_blake3 [1, 2, 3]\<rparr>"
proof (rule handshake_agreed [OF toy_blake3_ok])
  show "sent_name ''f'' = Some ''f''" "length ''f'' \<le> MAX_FILENAME_LEN" "chunk_total [1, 2, 3] 2 \<le> MAX_CHUNKS" by code_simp+
  show "files ex_source (path_of ''f'') = Some [1, 2, 3]" by (simp add: ex_source_def)
  show "healthy ex_source (path_of ''f'')" by (simp add: ex_source_def)
qed simp_all

text \<open>C22: Client and server cut a nonempty file in the same way: each chunk has the size the server
  expects, the chunks in order are the file, and the data the worker reads for a chunk is that chunk.\<close>

theorem chunks_agree:
  assumes "promised rc content" "content \<noteq> []"
  shows "(\<forall>i < r_num_chunks rc. expected_chunk_size rc i = length (chunk_slice (r_chunk_size rc) content i))
    \<and> concat (map (chunk_slice (r_chunk_size rc) content) [0..<r_num_chunks rc]) = content
    \<and> (\<forall>c i off. wc_chunk_size c = r_chunk_size rc \<longrightarrow> wc_file_size c = r_file_size rc \<longrightarrow> i < r_num_chunks rc \<longrightarrow>
         chunk_offset c i = Some off \<longrightarrow>
         take (min (wc_chunk_size c) (unat (wc_file_size c - off))) (drop (unat off) content)
           = chunk_slice (r_chunk_size rc) content i)"
proof (intro conjI allI impI)
  show "expected_chunk_size rc i = length (chunk_slice (r_chunk_size rc) content i)" if "i < r_num_chunks rc" for i
    using expected_is_slice [OF assms that] .
  show "concat (map (chunk_slice (r_chunk_size rc) content) [0..<r_num_chunks rc]) = content"
    using concat_all_slices [of content "r_chunk_size rc"] assms(1) by (simp add: promised_def)
  fix c i off
  assume c: "wc_chunk_size c = r_chunk_size rc" "wc_file_size c = r_file_size rc" "i < r_num_chunks rc"
    "chunk_offset c i = Some off"
  have "r_num_chunks rc \<le> MAX_CHUNKS" "r_chunk_size rc < 2 ^ 32" "length content < 2 ^ 64"
    "r_file_size rc = word_of_nat (length content)"
    using assms(1) unfolding promised_def by blast+
  moreover then have "i < 2 ^ 64" "r_chunk_size rc < 2 ^ 64" using c(3) unfolding MAX_CHUNKS_def by simp_all
  ultimately show "take (min (wc_chunk_size c) (unat (wc_file_size c - off))) (drop (unat off) content)
      = chunk_slice (r_chunk_size rc) content i"
    using worker_chunk_slice [OF c(4)] c by simp
qed

lemma ex_promised: "promised ex_receiver ex_content"
proof -
  have "chunk_total ex_content 2 = 2" "r_num_chunks ex_receiver \<le> MAX_CHUNKS" by code_simp+
  then show ?thesis by (simp add: promised_def ex_receiver_def receiver_new_def ex_content_def)
qed

lemma chunks_agree_witness:
  "expected_chunk_size ex_receiver 1 = length (chunk_slice (r_chunk_size ex_receiver) ex_content 1)
   \<and> chunk_slice (r_chunk_size ex_receiver) ex_content 1 = [3]"
proof -
  have "1 < r_num_chunks ex_receiver" "ex_content \<noteq> []" by (simp_all add: ex_content_def)
  then show ?thesis
    using chunks_agree [OF ex_promised] by (simp add: chunk_slice_def ex_receiver_def receiver_new_def ex_content_def)
qed

text \<open>C40: An empty file cannot be transferred: its one chunk is empty, the server expects a full one, and
  drops the client's message without recording it and without an acknowledgement.\<close>

theorem empty_file_never_accepted:
  assumes "promised rc []" "length (b3_hash B []) = 32"
  shows "process_chunk B rc d s (slice_message B rc [] 0 off) = ((rc, d, s), Ok ())"
proof -
  have "expected_chunk_size rc 0 \<noteq> 0" "chunk_slice (r_chunk_size rc) [] 0 = []"
    using expected_empty [OF assms(1)] by simp_all
  then have "check_chunk rc (slice_message B rc [] 0 off) = Ok None"
    using assms(2) promised_size [OF assms(1)]
    by (simp add: check_chunk_def chunk_header_def slice_message_def chunk_message_def Let_def res_simps
        read_word_append read_word_append [of "[]", simplified] CHUNK_HEADER_SIZE_def CHUNK_HASH_SIZE_def)
  then show ?thesis by (simp add: process_chunk_def)
qed

lemma empty_file_never_accepted_witness:
  "process_chunk toy_blake3 (receiver_new ''f'' 0 2 1 (b3_hash toy_blake3 []) ''out'' ''tmp'') empty_disk (stream_of [])
     (slice_message toy_blake3 (receiver_new ''f'' 0 2 1 (b3_hash toy_blake3 []) ''out'' ''tmp'') [] 0 0)
   = ((receiver_new ''f'' 0 2 1 (b3_hash toy_blake3 []) ''out'' ''tmp'', empty_disk, stream_of []), Ok ())"
proof (rule empty_file_never_accepted)
  have "(1 :: nat) \<le> MAX_CHUNKS" by code_simp
  then show "promised (receiver_new ''f'' 0 2 1 (b3_hash toy_blake3 []) ''out'' ''tmp'') []"
    by (simp add: promised_def receiver_new_def chunk_total_def)
qed simp

text \<open>C4: An honest transfer delivers the file: when the handshake describes a nonempty file, no earlier
  metadata exists, disk and network work, and the rounds of the wait hold chunk messages of the file, in
  any order, over any connections, repeated or not, that cover all chunks, then the connection ends
  having told the client success, and the file under the announced name has exactly the content.\<close>

theorem honest_session_delivers:
  assumes "blake3_ok B" "content \<noteq> []" "plain_stream s"
    and "output_dir \<noteq> []" "temp_dir \<noteq> []" "\<And>p. healthy (sdisk srv) p"
    and "recv_timeout s = (s0, Ok data)" "parse_handshake data = Ok h" "describes B h content"
    and "files (sdisk srv) (meta_file temp_dir (h_safe_name h)) = None"
    and "control_open S B os_free srv s output_dir temp_dir mp = ((srv1, s1), Ok (Waiting rid ports))"
    and "waiting_rounds rounds"
    and "honest_turns B rid (receiver_of h output_dir temp_dir) content (concat (map fst rounds)) is"
    and "{..<h_num_chunks h} \<subseteq> set is"
  shows "\<exists>srv' s'. handle_control_connection S B os_free srv s output_dir temp_dir mp rounds = ((srv', s'), Ok True)
    \<and> tx s' = tx s @ frame_bytes (response_bytes RESP_OK ports) @ frame_bytes [RESP_OK]
    \<and> files (sdisk srv') (path_of (output_dir @ ''/'' @ h_safe_name h)) = Some content"
  by (rule honest_session [OF assms])

definition ex_turn :: "usize \<Rightarrow> nat \<times> stream" where
  "ex_turn i = (0, stream_of (frame_bytes (slice_message toy_blake3 (receiver_of ex_request ''out'' ''tmp'') ex_content i 0)))"

lemma ex_handshake_read: "\<exists>s0 data. recv_timeout ex_handshake = (s0, Ok data) \<and> parse_handshake data = Ok ex_request"
proof -
  let ?m = "handshake_bytes (str_bytes ''f'') 3 2 2 (b3_hash toy_blake3 ex_content)"
  have "snd (recv_timeout ex_handshake) = Ok ?m" "parse_handshake ?m = Ok ex_request" by code_simp+
  then show ?thesis by (metis prod.collapse)
qed

lemma ex_describes: "describes toy_blake3 ex_request ex_content"
proof -
  have "chunk_total ex_content 2 = 2" "2 + 48 \<le> MAX_PAYLOAD" by code_simp+
  then show ?thesis by (simp add: describes_def ex_request_def ex_content_def)
qed

lemma ex_turn_honest:
  assumes "i < 2"
  shows "honest_turn toy_blake3 (receiver_of ex_request ''out'' ''tmp'') ex_content (snd (ex_turn i)) i"
proof -
  have "r_num_chunks (receiver_of ex_request ''out'' ''tmp'') = 2"
    by (simp add: receiver_of_def create_receiver_def receiver_new_def ex_request_def)
  then show ?thesis using assms unfolding honest_turn_def ex_turn_def stream_of_def
    by (metis append_Nil2 snd_conv stream.select_convs(1,2))
qed

lemma ex_plain: "plain_stream ex_handshake" "tx ex_handshake = []"
  by (simp_all add: ex_handshake_def, simp add: stream_of_def)

lemma honest_session_delivers_witness:
  "\<exists>srv' s'. handle_control_connection counter toy_blake3 (\<lambda>_. True) (server_new counter empty_disk) ex_handshake ''out'' ''tmp'' 100
       [([ex_turn 1], Slept), ([ex_turn 0], ReadByte)] = ((srv', s'), Ok True)
    \<and> tx s' = frame_bytes (response_bytes RESP_OK [45000, 45001]) @ frame_bytes [RESP_OK]
    \<and> files (sdisk srv') (path_of ''out/f'') = Some ex_content"
proof -
  let ?S = "server_new counter empty_disk"
  let ?X = "control_open counter toy_blake3 (\<lambda>_. True) ?S ex_handshake ''out'' ''tmp'' 100"
  have "snd ?X = Ok (Waiting 0 [45000, 45001])" by code_simp
  then obtain srv1 s1 where o: "?X = ((srv1, s1), Ok (Waiting 0 [45000, 45001]))" by (metis prod.collapse)
  obtain s0 data where hs: "recv_timeout ex_handshake = (s0, Ok data)" "parse_handshake data = Ok ex_request"
    using ex_handshake_read by blast
  have "honest_turns toy_blake3 0 (receiver_of ex_request ''out'' ''tmp'') ex_content [ex_turn 1, ex_turn 0] [1, 0]"
    using ex_turn_honest [of 0] ex_turn_honest [of 1] by (simp add: honest_turns_def ex_turn_def)
  moreover have "waiting_rounds [([ex_turn 1], Slept), ([ex_turn 0], ReadByte)]" by (simp add: waiting_rounds_def)
  moreover have "{..<h_num_chunks ex_request} \<subseteq> set [1, 0]" by (auto simp: ex_request_def)
  moreover have "ex_content \<noteq> []" "h_safe_name ex_request = ''f''" by (simp_all add: ex_content_def ex_request_def)
  moreover have "files (sdisk ?S) q = None" "sdisk ?S = empty_disk" for q by (simp_all add: server_new_def empty_disk_def)
  ultimately show ?thesis
    using honest_session_delivers [OF toy_blake3_ok, of ex_content ex_handshake "''out''" "''tmp''" ?S s0 data ex_request
        counter "\<lambda>_. True" 100 srv1 s1 0 "[45000, 45001]" "[([ex_turn 1], Slept), ([ex_turn 0], ReadByte)]" "[1, 0]"]
      hs ex_describes ex_plain o by simp
qed

end
