(* ===== verification/Resume.thy ===== *)
theory Resume
  imports Exchange
begin

text \<open>
  An interrupted transfer and its resumption, end to end: the first connection is closed when some
  chunks have arrived, a second one with the same handshake (on the same server or a restarted one)
  starts with exactly those chunks and needs only the others.
\<close>

section \<open>Resuming from what an interrupted transfer left\<close>

lemma check_parts_all:
  "(\<And>i. i \<in> set is \<Longrightarrow> verify_part B m d i (r_parts_dir rc) (r_filename rc)) \<Longrightarrow> check_parts B rc m d is = (d, is, 0)"
  by (induction "is") simp_all

lemma metadata_no_chunks:
  assumes "chunk_hashes m = Map.empty" "chunk_hashes m' = Map.empty"
    and "params_match m cs n fs fh" "params_match m' cs n fs fh"
  shows "m = m'"
proof -
  have "hash_table m = hash_table m'" using assms(1,2) by (intro mapping_eqI) (simp only: chunk_hashes_def)
  then show ?thesis using assms(3,4) by (cases m; cases m') (simp add: params_match_def)
qed

lemma flags_of_metadata:
  assumes "receiver_wf rc"
  shows "received_chunks rc = map (\<lambda>i. i \<in> dom (chunk_hashes (r_metadata rc))) [0..<r_num_chunks rc]"
  using assms by (intro nth_equalityI) (auto simp: receiver_wf_def)

text \<open>A receiver of the same transfer is determined by its metadata.\<close>

lemma receiver_restored:
  assumes "fresh rc0" "same_transfer rc0 rc" "receiver_wf rc" "\<not> r_failed rc"
  shows "rc0\<lparr>received_chunks := received_chunks rc, r_metadata := r_metadata rc\<rparr> = rc"
  using assms by (cases rc0; cases rc) (simp add: same_transfer_def fresh_def)

lemma resume_nothing:
  assumes fr: "fresh rc0" and same: "same_transfer rc0 rc" and wf: "receiver_wf rc" "\<not> r_failed rc"
    and none: "chunk_hashes (r_metadata rc) = Map.empty" and ps: "persisted rc d"
  shows "resume_receiver B rc0 d = ((rc, d), Ok False)"
proof -
  have wf0: "receiver_wf rc0" "chunk_hashes (r_metadata rc0) = Map.empty" using fr by (simp_all add: fresh_def)
  have n: "r_num_chunks rc = r_num_chunks rc0" using same by (simp add: same_transfer_def)
  have "r_metadata rc = r_metadata rc0"
    using wf(1) wf0 none same by (intro metadata_no_chunks) (auto simp: receiver_wf_def same_transfer_def)
  moreover have "received_chunks rc = received_chunks rc0"
    unfolding flags_of_metadata [OF wf(1)] flags_of_metadata [OF wf0(1)] using none wf0(2) n by simp
  ultimately have rc: "rc = rc0" using receiver_restored [OF fr same wf] by simp
  have "meta_load d (r_parts_dir rc0) (r_filename rc0) = Ok None"
    using ps none by (intro meta_load_None) (simp add: persisted_def rc receiver_meta_def)
  then show ?thesis unfolding rc by (simp add: resume_receiver_def load_or_purge_metadata_def Let_def)
qed

lemma resume_persisted:
  assumes fr: "fresh rc0" and same: "same_transfer rc0 rc" and inv: "data_inv B rc d" and nf: "\<not> r_failed rc"
    and ps: "persisted rc d" and hl: "\<And>p. healthy d p"
  shows "resume_receiver B rc0 d = ((rc, d), Ok (is_complete rc))"
proof (cases "chunk_hashes (r_metadata rc) = Map.empty")
  case True
  have wf: "receiver_wf rc" and n: "0 < r_num_chunks rc"
    using inv fr same by (auto simp: data_inv_def fresh_def same_transfer_def)
  then have "\<not> is_complete rc" using True is_complete_iff [OF wf] by (auto simp: receiver_wf_def)
  then show ?thesis using resume_nothing [OF fr same wf nf True ps] by simp
next
  case False
  let ?m = "r_metadata rc" and ?dir = "r_parts_dir rc0" and ?f = "r_filename rc0"
  let ?D = "dom (chunk_hashes ?m)" and ?is = "Mapping.ordered_keys (hash_table ?m)"
  have wf: "receiver_wf rc" and pm: "parts_match B rc d" using inv nf by (auto simp: data_inv_def)
  note mw = receiver_wf_meta_wf [OF wf]
  have eqs: "r_parts_dir rc = ?dir" "r_filename rc = ?f" "r_num_chunks rc = r_num_chunks rc0"
    using same by (simp_all add: same_transfer_def)
  have "files d (meta_file ?dir ?f) = Some (meta_to_bytes ?m)"
    using ps False by (simp add: persisted_def receiver_meta_def eqs)
  then have load: "meta_load d ?dir ?f = Ok (Some ?m)" by (rule meta_load_saved [OF mw _ hl])
  have pmatch: "params_match ?m (r_chunk_size rc0) (r_num_chunks rc0) (r_file_size rc0) (r_full_hash rc0)"
    using wf same by (simp add: receiver_wf_def same_transfer_def)
  have fin: "finite ?D" using mw by (simp add: meta_wf_def)
  then have set_is: "set ?is = ?D" by (simp add: ordered_keys_hash_table)
  have "verify_part B ?m d i ?dir ?f" if "i \<in> set ?is" for i
    using that pm unfolding verify_part_healthy [OF hl] set_is
    by (fastforce simp: parts_match_def receiver_part_def eqs)
  then have chk: "check_parts B rc0 ?m d ?is = (d, ?is, 0)" by (rule check_parts_all)
  have lp: "load_or_purge_metadata B rc0 d = (d, Ok (Some ?m))"
    using load pmatch chk by (simp add: load_or_purge_metadata_def Let_def)
  have "?D \<subseteq> {..<r_num_chunks rc0}" using wf eqs(3) by (auto simp: receiver_wf_def)
  moreover have "length (received_chunks rc0) = r_num_chunks rc0" using fr by (simp add: fresh_def receiver_wf_def)
  ultimately have mk: "mark_received (received_chunks rc0) ?is = Ok (received_chunks rc)"
    using fresh_flags [OF fr] unfolding mark_received_spec set_is flags_of_metadata [OF wf] eqs(3) by auto
  have "length (received_chunks rc) = r_num_chunks rc" using wf by (simp add: receiver_wf_def)
  then have "length (filter (\<lambda>c. c) (received_chunks rc)) = r_num_chunks rc0 \<longleftrightarrow> is_complete rc"
    using count_all_flags [of "received_chunks rc"] eqs(3) by (simp add: is_complete_def)
  then show ?thesis
    using lp mk receiver_restored [OF fr same wf nf] by (simp add: resume_receiver_def Let_def eqs(3))
qed

text \<open>The disk holds what a receiver of this transfer with the chunks of \<open>K\<close> keeps there.\<close>

definition half_done ::
  "'h blake3 \<Rightarrow> bytes \<Rightarrow> handshake_data \<Rightarrow> string \<Rightarrow> string \<Rightarrow> usize set \<Rightarrow> disk \<Rightarrow> bool" where
  "half_done B content h output_dir temp_dir K d \<longleftrightarrow> (\<exists>rc. on_course B content rc d \<and> persisted rc d
     \<and> same_transfer (receiver_of h output_dir temp_dir) rc \<and> (\<forall>j < h_num_chunks h. received_chunks rc ! j \<longleftrightarrow> j \<in> K))"

lemma receiver_of_simps [simp]:
  "r_num_chunks (receiver_of h output_dir temp_dir) = h_num_chunks h"
  "r_chunk_size (receiver_of h output_dir temp_dir) = h_chunk_size h"
  "receiver_meta (receiver_of h output_dir temp_dir) = meta_file temp_dir (h_safe_name h)"
  by (simp_all add: receiver_meta_def receiver_of_def create_receiver_def receiver_new_def)

lemma half_done_none:
  assumes "handshake_ok h" "describes B h content" "output_dir \<noteq> []" "temp_dir \<noteq> []"
    and "files d (meta_file temp_dir (h_safe_name h)) = None"
  shows "half_done B content h output_dir temp_dir {} d"
proof -
  let ?rc = "receiver_of h output_dir temp_dir"
  have fr: "fresh ?rc" unfolding receiver_of_def by (rule create_receiver_fresh [OF assms(1,3,4)])
  then have "persisted ?rc d" using assms(5) by (simp add: persisted_def fresh_def)
  then show ?thesis using describes_on_course(1) [OF assms(1-4)] fresh_flags [OF fr]
    unfolding half_done_def by (intro exI [of _ ?rc]) (simp add: same_transfer_def)
qed

lemma resume_half_done:
  assumes hd: "half_done B content h output_dir temp_dir K d" and hl: "\<And>p. healthy d p"
    and ok: "handshake_ok h" "output_dir \<noteq> []" "temp_dir \<noteq> []" and missing: "\<not> {..<h_num_chunks h} \<subseteq> K"
  obtains rc where "resume_receiver B (receiver_of h output_dir temp_dir) d = ((rc, d), Ok False)"
    and "on_course B content rc d" and "persisted rc d" and "same_transfer (receiver_of h output_dir temp_dir) rc"
    and "\<And>j. j < h_num_chunks h \<Longrightarrow> received_chunks rc ! j \<longleftrightarrow> j \<in> K"
proof -
  let ?rc0 = "receiver_of h output_dir temp_dir"
  obtain rc where rc: "on_course B content rc d" "persisted rc d" "same_transfer ?rc0 rc"
    "\<And>j. j < h_num_chunks h \<Longrightarrow> received_chunks rc ! j \<longleftrightarrow> j \<in> K" using hd unfolding half_done_def by blast
  have fr: "fresh ?rc0" unfolding receiver_of_def by (rule create_receiver_fresh [OF ok])
  have wf: "receiver_wf rc" "data_inv B rc d" "\<not> r_failed rc" using rc(1) by (auto simp: on_course_def data_inv_def)
  have "r_num_chunks rc = h_num_chunks h" using rc(3) by (simp add: same_transfer_def)
  then have "\<not> is_complete rc" using missing rc(4) is_complete_iff [OF wf(1)] by auto
  then show thesis using that [OF _ rc] resume_persisted [OF fr rc(3) wf(2,3) rc(2) hl] by simp
qed

section \<open>An interrupted connection\<close>

text \<open>While chunks are missing the wait goes on, until the client is gone.\<close>

lemma wait_interrupted:
  assumes B: "blake3_ok B" and ne: "content \<noteq> []" and closed: "outcome = ReadClosed \<or> outcome = ReadFailed"
  shows "on_track B content rid srv \<Longrightarrow> waiting_rounds rounds \<Longrightarrow>
    honest_turns B rid (receivers srv ! rid) content (concat (map fst rounds) @ turns) is \<Longrightarrow>
    \<not> covers (receivers srv ! rid) (set is) \<Longrightarrow>
    wait_for_completion B srv rid (rounds @ [(turns, outcome)])
      = (foldl (data_turn B) srv (concat (map fst rounds) @ turns), True)"
proof (induction rounds arbitrary: srv "is")
  case Nil
  have "\<not> is_complete (receivers srv ! rid)"
    using Nil.prems(4) complete_covers [OF Nil.prems(1)] by (auto simp: covers_def)
  then show ?case using on_trackD(5) [OF Nil.prems(1)] closed by (auto simp: Let_def)
next
  case (Cons rnd rounds)
  let ?srv1 = "foldl (data_turn B) srv (fst rnd)"
  have nc: "\<not> is_complete (receivers srv ! rid)"
    using Cons.prems(4) complete_covers [OF Cons.prems(1)] by (auto simp: covers_def)
  obtain js ks where ts: "is = js @ ks" "on_track B content rid ?srv1" "took rid srv (set js) ?srv1"
    "honest_turns B rid (receivers ?srv1 ! rid) content (concat (map fst rounds) @ turns) ks"
    using honest_round [OF B ne Cons.prems(1), of rnd "concat (map fst rounds) @ turns" "is"] Cons.prems(3) by auto
  have "\<not> covers (receivers ?srv1 ! rid) (set ks)" using Cons.prems(4) took_covers [OF ts(3)] ts(1) by simp
  moreover have "waiting_rounds rounds" using Cons.prems(2) by (simp add: waiting_rounds_def)
  ultimately show ?case
    using Cons.IH [OF ts(2) _ ts(4)] wait_round [OF Cons.prems(1) nc Cons.prems(2)] by simp
qed

lemma close_incomplete:
  assumes "\<not> is_complete (receivers srv ! rid)" "plain_stream s"
  shows "\<exists>srv' s'. control_close S B srv s rid ports = ((srv', s'), Ok ())
    \<and> sdisk srv' = sdisk srv \<and> tx s' = tx s @ frame_bytes [RESP_ERR]"
  using assms
  by (auto simp: control_close_def succeeded_def final_status_def send_timeout_plain cleanup_def Let_def
      foldl_remove release_ports_def)

lemma interrupted_session:
  assumes B: "blake3_ok B" and ne: "content \<noteq> []" and pl: "plain_stream s"
    and dirs: "output_dir \<noteq> []" "temp_dir \<noteq> []" and hl: "\<And>p. healthy (sdisk srv) p"
    and hs: "recv_timeout s = (s0, Ok data)" "parse_handshake data = Ok h" and ds: "describes B h content"
    and nometa: "files (sdisk srv) (meta_file temp_dir (h_safe_name h)) = None"
    and o: "control_open S B os_free srv s output_dir temp_dir mp = ((srv1, s1), Ok (Waiting rid ports))"
    and rounds: "waiting_rounds rounds" and closed: "outcome = ReadClosed \<or> outcome = ReadFailed"
    and honest: "honest_turns B rid (receiver_of h output_dir temp_dir) content (concat (map fst rounds) @ turns) is"
    and missing: "\<not> {..<h_num_chunks h} \<subseteq> set is"
  shows "\<exists>srv2 s2. handle_control_connection S B os_free srv s output_dir temp_dir mp (rounds @ [(turns, outcome)])
      = ((srv2, s2), Ok True)
    \<and> half_done B content h output_dir temp_dir (set is) (sdisk srv2) \<and> same_faults (sdisk srv) (sdisk srv2)
    \<and> files (sdisk srv2) (path_of (output_dir @ ''/'' @ h_safe_name h)) = files (sdisk srv) (path_of (output_dir @ ''/'' @ h_safe_name h))"
proof -
  let ?rc = "receiver_of h output_dir temp_dir"
  note ok = parse_handshake_sound [OF hs(2)]
  have fr: "fresh ?rc" unfolding receiver_of_def by (rule create_receiver_fresh [OF ok dirs])
  have n: "r_num_chunks ?rc = h_num_chunks h" by simp
  note op = control_open_transfer [OF B pl dirs hs resume_new [OF nometa] o]
  have tr: "on_track B content rid srv1"
    using op(1) hl describes_on_course(1) [OF ok ds dirs, where d = "sdisk srv1"] unfolding on_track_def op(2)
    unfolding op(3) by blast
  have ps: "persisted (receivers srv1 ! rid) (sdisk srv1)"
    using nometa fr unfolding op(2,3) persisted_def by (simp add: fresh_def)
  have nc: "\<not> covers (receivers srv1 ! rid) (set is)"
    using missing fresh_flags [OF fr] n unfolding op(2) covers_def by auto
  let ?srv2 = "foldl (data_turn B) srv1 (concat (map fst rounds) @ turns)"
  have honest1: "honest_turns B rid (receivers srv1 ! rid) content (concat (map fst rounds) @ turns) is"
    unfolding op(2) by (rule honest)
  note w = wait_interrupted [OF B ne closed tr rounds honest1 nc]
  have run: "on_track B content rid ?srv2" "took rid srv1 (set is) ?srv2"
    using honest_turns_run [OF B ne tr honest1] by blast+
  have same: "same_transfer ?rc (receivers ?srv2 ! rid)" and ps2: "persisted (receivers ?srv2 ! rid) (sdisk ?srv2)"
    and rcv: "\<forall>j < h_num_chunks h. received_chunks (receivers ?srv2 ! rid) ! j \<longleftrightarrow> j \<in> set is"
    using tookD(1) [OF run(2)] run(2) ps fresh_flags [OF fr] n unfolding took_def op(2) by simp_all
  have "\<not> is_complete (receivers ?srv2 ! rid)"
    using nc took_covers [OF run(2), of "{}"] complete_covers [OF run(1)] by simp
  from close_incomplete [OF this op(4)] obtain srv3 s3 where
    c: "control_close S B ?srv2 s1 rid ports = ((srv3, s3), Ok ())" "sdisk srv3 = sdisk ?srv2" by blast
  have "handle_control_connection S B os_free srv s output_dir temp_dir mp (rounds @ [(turns, outcome)]) = ((srv3, s3), Ok True)"
    using o w c(1) by (simp add: handle_control_connection_def)
  moreover have "half_done B content h output_dir temp_dir (set is) (sdisk srv3)"
    using on_trackD(2) [OF run(1)] same ps2 rcv unfolding half_done_def c(2) by blast
  moreover have "same_faults (sdisk srv) (sdisk srv3)" using tookD(2) [OF run(2)] unfolding c(2) op(3) .
  moreover have "dirs_ok ?rc" using fr by (simp add: fresh_def)
  then have "files (sdisk srv3) (receiver_final ?rc) = files (sdisk srv) (receiver_final ?rc)"
    using data_step_final run(2) unfolding c(2) took_def op(2,3) by blast
  ultimately show ?thesis unfolding receiver_of_final by blast
qed

section \<open>Properties\<close>

text \<open>An interrupted transfer is resumed: an honest client's control connection is closed after some
  chunks have arrived; when it connects again with the same handshake, to the same server or to one
  restarted on the same disk, the new receiver has exactly the chunks of the first connection, and once
  the missing ones have arrived, in any order over any connections, the server answers success and the
  final file has the content.\<close>

theorem interrupted_transfer_resumes:
  assumes "blake3_ok B" "content \<noteq> []" "output_dir \<noteq> []" "temp_dir \<noteq> []" "describes B h content"
    and "\<And>p. healthy (sdisk srv) p" "files (sdisk srv) (meta_file temp_dir (h_safe_name h)) = None"
    and "plain_stream s" "recv_timeout s = (s0, Ok data)" "parse_handshake data = Ok h"
    and "control_open S B os_free srv s output_dir temp_dir mp = ((srv1, s1), Ok (Waiting rid ports))"
    and "waiting_rounds rounds" "outcome = ReadClosed \<or> outcome = ReadFailed"
    and "honest_turns B rid (receiver_of h output_dir temp_dir) content (concat (map fst rounds) @ turns) is"
    and "\<not> {..<h_num_chunks h} \<subseteq> set is"
    and "handle_control_connection S B os_free srv s output_dir temp_dir mp (rounds @ [(turns, outcome)]) = ((srv2, s2), r)"
    and "sdisk srv' = sdisk srv2" "plain_stream t" "recv_timeout t = (t0, Ok data')" "parse_handshake data' = Ok h"
    and "control_open S B os_free' srv' t output_dir temp_dir mp' = ((srv3, t1), Ok (Waiting rid' ports'))"
    and "waiting_rounds rounds'"
    and "honest_turns B rid' (receiver_of h output_dir temp_dir) content (concat (map fst rounds')) js"
    and "{..<h_num_chunks h} \<subseteq> set is \<union> set js"
  shows "r = Ok True \<and> (\<forall>j < h_num_chunks h. received_chunks (receivers srv3 ! rid') ! j \<longleftrightarrow> j \<in> set is)
    \<and> (\<exists>srv4 t2. handle_control_connection S B os_free' srv' t output_dir temp_dir mp' rounds' = ((srv4, t2), Ok True)
         \<and> tx t2 = tx t @ frame_bytes (response_bytes RESP_OK ports') @ frame_bytes [RESP_OK]
         \<and> files (sdisk srv4) (path_of (output_dir @ ''/'' @ h_safe_name h)) = Some content)"
proof -
  let ?rc = "receiver_of h output_dir temp_dir"
  have f: "r = Ok True" "half_done B content h output_dir temp_dir (set is) (sdisk srv2)" "same_faults (sdisk srv) (sdisk srv2)"
    using interrupted_session [OF assms(1,2,8,3,4,6,9,10,5,7,11-15)] assms(16) by auto
  have hl: "\<And>p. healthy (sdisk srv2) p" using same_faults_healthy [OF f(3)] assms(6) by blast
  from resume_half_done [OF f(2) hl parse_handshake_sound [OF assms(10)] assms(3,4,15)] obtain rc where
    rc: "resume_receiver B ?rc (sdisk srv2) = ((rc, sdisk srv2), Ok False)" "on_course B content rc (sdisk srv2)"
      "same_transfer ?rc rc" "\<And>j. j < h_num_chunks h \<Longrightarrow> received_chunks rc ! j \<longleftrightarrow> j \<in> set is" by metis
  have rr: "resume_receiver B ?rc (sdisk srv') = ((rc, sdisk srv2), Ok False)" using rc(1) assms(17) by simp
  have n: "r_num_chunks rc = h_num_chunks h" using rc(3) by (simp add: same_transfer_def)
  have cov: "covers rc (set js)" using assms(24) rc(4) n by (auto simp: covers_def)
  note op = control_open_transfer [OF assms(1,18,3,4,19,20) rr assms(21)]
  from session_delivers [OF assms(1,2,18,3,4) hl assms(19,20,5) rr rc(3,2) assms(21,22,23) cov]
  show ?thesis using f(1) rc(4) op(2) by simp
qed

lemma interrupted_transfer_resumes_witness:
  "\<exists>srv2 s2 srv4 t2.
     handle_control_connection counter toy_blake3 (\<lambda>_. True) (server_new counter empty_disk) ex_handshake ''out'' ''tmp'' 100
       [([ex_turn 1], Slept), ([], ReadClosed)] = ((srv2, s2), Ok True)
   \<and> handle_control_connection counter toy_blake3 (\<lambda>_. True) (server_new counter (sdisk srv2)) ex_handshake ''out'' ''tmp'' 100
       [([ex_turn 0], ReadByte)] = ((srv4, t2), Ok True)
   \<and> files (sdisk srv4) (path_of ''out/f'') = Some ex_content"
proof -
  let ?S = "server_new counter empty_disk" and ?os = "\<lambda>_ :: u16. True" and ?rounds = "[([ex_turn 1], Slept)]"
  let ?X = "control_open counter toy_blake3 ?os ?S ex_handshake ''out'' ''tmp'' 100"
  let ?H = "handle_control_connection counter toy_blake3 ?os ?S ex_handshake ''out'' ''tmp'' 100 (?rounds @ [([], ReadClosed)])"
  let ?S' = "server_new counter (sdisk (fst (fst ?H)))"
  let ?Y = "control_open counter toy_blake3 ?os ?S' ex_handshake ''out'' ''tmp'' 100"
  have "snd ?X = Ok (Waiting 0 [45000, 45001])" by code_simp
  then obtain srv1 s1 where X: "?X = ((srv1, s1), Ok (Waiting 0 [45000, 45001]))" by (metis prod.collapse)
  have "snd ?Y = Ok (Waiting 0 [45000, 45001])" by code_simp
  then obtain srv3 t1 where Y: "?Y = ((srv3, t1), Ok (Waiting 0 [45000, 45001]))" by (metis prod.collapse)
  obtain srv2 s2 r where H: "?H = ((srv2, s2), r)" by (metis surj_pair)
  obtain s0 data where hs: "recv_timeout ex_handshake = (s0, Ok data)" "parse_handshake data = Ok ex_request"
    using ex_handshake_read by blast
  have ts: "honest_turns toy_blake3 0 (receiver_of ex_request ''out'' ''tmp'') ex_content (concat (map fst ?rounds) @ []) [1]"
    "honest_turns toy_blake3 0 (receiver_of ex_request ''out'' ''tmp'') ex_content (concat (map fst [([ex_turn 0], ReadByte)])) [0]"
    using ex_turn_honest [of 0] ex_turn_honest [of 1] by (simp_all add: honest_turns_def ex_turn_def)
  have w: "waiting_rounds ?rounds" "waiting_rounds [([ex_turn 0], ReadByte)]" by (simp_all add: waiting_rounds_def)
  have n: "\<not> {..<h_num_chunks ex_request} \<subseteq> set [1]" "{..<h_num_chunks ex_request} \<subseteq> set [1] \<union> set [0]"
    using subsetD [of "{..<2}" "{Suc 0}" 0] by (auto simp: ex_request_def)
  have e: "ex_content \<noteq> []" "''out'' \<noteq> []" "''tmp'' \<noteq> []" by (simp_all add: ex_content_def)
  have d: "\<And>p. healthy (sdisk ?S) p" "files (sdisk ?S) (meta_file ''tmp'' (h_safe_name ex_request)) = None"
    by (simp_all add: server_new_def, simp add: empty_disk_def)
  have cl: "ReadClosed = ReadClosed \<or> ReadClosed = ReadFailed" by simp
  have sd: "sdisk ?S' = sdisk srv2" using H by (simp add: server_new_def)
  note res = interrupted_transfer_resumes [OF toy_blake3_ok e ex_describes d ex_plain(1) hs X w(1) cl ts(1) n(1) H sd
      ex_plain(1) hs Y w(2) ts(2) n(2)]
  have S': "?S' = server_new counter (sdisk srv2)" using H by simp
  show ?thesis using res H unfolding S' by (simp add: ex_request_def) metis
qed

end
