(* ===== verification/End_To_End.thy ===== *)
theory End_To_End
  imports Resume
begin

text \<open>
  A client and a server on one network: the whole client (\<open>run_client\<close> with all its workers) reads what
  the whole server (\<open>handle_control_connection\<close> with all its data connections) writes, and the server
  reads what the client writes. The data connections are served in any order the scheduler likes, one
  iteration of \<open>handle_data_connection\<close>'s loop at a time.
\<close>

section \<open>The bytes of a data connection\<close>

definition chunk_frame :: "'h blake3 \<Rightarrow> usize \<Rightarrow> bytes \<Rightarrow> usize \<Rightarrow> bytes" where
  "chunk_frame B cs content i =
     (let bs = chunk_slice cs content i in frame_bytes (chunk_message i (word_of_nat (i * cs)) bs (b3_hash B bs)))"

definition client_bytes :: "'h blake3 \<Rightarrow> usize \<Rightarrow> bytes \<Rightarrow> usize list \<Rightarrow> bytes" where
  "client_bytes B cs content is = frame_bytes [QUERY_MAGIC] @ concat (map (chunk_frame B cs content) is)"

definition server_bytes :: "usize list \<Rightarrow> nat \<Rightarrow> bytes" where
  "server_bytes received n = frame_bytes (query_response received) @ concat (replicate n (frame_bytes [ACK_OK]))"

text \<open>An answer to a query that fits into a frame.\<close>

definition answerable :: "usize list \<Rightarrow> bool" where
  "answerable received \<longleftrightarrow> list_all (\<lambda>i. i < 2 ^ 32) received \<and> length received < 2 ^ 32
     \<and> length (query_response received) \<le> MAX_PAYLOAD"

lemma short_frames [simp]: "Suc 0 \<le> MAX_PAYLOAD"
  by (simp add: MAX_PAYLOAD_def)

lemma recv_frame_plain:
  assumes "rx_delays s = []" "rx s = frame_bytes d @ rest" "length d \<le> MAX_PAYLOAD"
  shows "recv_with_timeout s T = (s\<lparr>rx := rest\<rparr>, Ok d)"
  using recv_frame_bytes [OF assms(3,2)] assms(1) by (simp add: recv_with_timeout_def)

section \<open>A worker whose chunks are all acknowledged\<close>

definition quiet :: "worker_state \<Rightarrow> bool" where
  "quiet w \<longleftrightarrow> \<not> w_flag w \<and> flag_env w = [] \<and> plain_stream (w_stream w) \<and> rx_delays (w_stream w) = []"

definition advance :: "worker_state \<Rightarrow> bytes \<Rightarrow> bytes \<Rightarrow> worker_state" where
  "advance w out rest = w\<lparr>w_stream := (w_stream w)\<lparr>tx := tx (w_stream w) @ out, rx := rest\<rparr>\<rparr>"

lemma advance_simps [simp]:
  "advance (advance w a r) b r' = advance w (a @ b) r'" "quiet (advance w a r) = quiet w"
  "rx (w_stream (advance w a r)) = r" "tx (w_stream (advance w a r)) = tx (w_stream w) @ a"
  "w_flag (advance w a r) = w_flag w"
  by (simp_all add: advance_def quiet_def plain_stream_def)

lemma advance_none [simp]: "rx (w_stream w) = r \<Longrightarrow> advance w [] r = w"
  by (cases w; cases "w_stream w") (simp add: advance_def)

lemma load_flag_quiet: "quiet w \<Longrightarrow> load_flag w = (w, False)"
  by (cases w) (simp add: quiet_def load_flag_def)

lemma send_attempts_acked:
  assumes q: "quiet w" and rxw: "rx (w_stream w) = frame_bytes [ACK_OK] @ rest"
  shows "send_attempts w ps tot a (Suc n) = (advance w (frame_bytes (concat ps)) rest, Ok True)"
proof -
  let ?s = "w_stream w" and ?T = "attempt_timeout tot a"
  let ?s1 = "?s\<lparr>tx := tx ?s @ frame_bytes (concat ps)\<rparr>"
  have s1: "send_parts_within ?s ?T ps = (?s1, Ok ())"
    using q by (simp add: quiet_def plain_stream_def send_parts_within_def send_within_plain send_parts_concat send_frame)
  have "quiet (w\<lparr>w_stream := ?s1\<rparr>)" using q by (simp add: quiet_def)
  note lf = load_flag_quiet [OF this]
  have "recv_with_timeout ?s1 ?T = (?s1\<lparr>rx := rest\<rparr>, Ok [ACK_OK])"
    using q rxw by (intro recv_frame_plain) (simp_all add: quiet_def)
  then show ?thesis using s1 lf by (simp add: advance_def Let_def)
qed

lemma send_chunk_acked:
  assumes q: "quiet w" and rxw: "rx (w_stream w) = frame_bytes [ACK_OK] @ rest"
    and fl: "files d (path_of f) = Some content" "healthy d (path_of f)"
    and bs: "bs = take n (drop (unat off) content)" and r: "0 < retries"
  shows "send_chunk B d w f i off n retries =
    (advance w (frame_bytes (chunk_message i off bs (b3_hash B bs))) rest, Ok True)"
proof -
  obtain k where k: "retries = Suc k" using r gr0_implies_Suc by blast
  have "file_open d (path_of f) = Ok ()" "contents d (path_of f) = content"
    using fl by (simp_all add: file_open_def healthy_def contents_def)
  moreover then have "file_read_at d (path_of f) (unat off) n = Ok bs"
    using fl(2) bs by (simp add: file_read_at_full healthy_def)
  ultimately show ?thesis
    using send_attempts_acked [OF q rxw] chunk_parts [of i off bs] k
    by (simp add: send_chunk_def calc_hash_def Let_def)
qed

text \<open>The client's side of a transfer: what the worker's configuration says of the file.\<close>

definition sends_file :: "disk \<Rightarrow> worker_config \<Rightarrow> bytes \<Rightarrow> bool" where
  "sends_file d c content \<longleftrightarrow> files d (path_of (wc_filepath c)) = Some content
     \<and> healthy d (path_of (wc_filepath c)) \<and> length content < 2 ^ 64 \<and> wc_file_size c = word_of_nat (length content)
     \<and> 0 < wc_chunk_size c \<and> wc_chunk_size c < 2 ^ 64 \<and> 0 < wc_retries c"

lemma chunk_offset_inside:
  assumes "sends_file d c content" "i * wc_chunk_size c < length content"
  shows "chunk_offset c i = Some (word_of_nat (i * wc_chunk_size c))" "i < 2 ^ 64"
proof -
  let ?cs = "wc_chunk_size c"
  have f: "length content < 2 ^ 64" "wc_file_size c = word_of_nat (length content)" "0 < ?cs" "?cs < 2 ^ 64"
    using assms(1) by (simp_all only: sends_file_def)
  have "i * 1 \<le> i * ?cs" using f(3) by (intro mult_le_mono) simp_all
  then show i: "i < 2 ^ 64" using assms(2) f(1) by linarith
  have o: "i * ?cs < 2 ^ 64" using assms(2) f(1) by linarith
  have "unat (word_of_nat i :: u64) = i" "unat (word_of_nat ?cs :: u64) = ?cs"
    "unat (word_of_nat (i * ?cs) :: u64) = i * ?cs" "unat (wc_file_size c) = length content"
    using i f o by (simp_all add: unat_of_nat del: of_nat_mult)
  then show "chunk_offset c i = Some (word_of_nat (i * ?cs))"
    using o assms(2) by (simp add: chunk_offset_def Let_def word_le_nat_alt del: of_nat_mult)
qed

lemma send_chunks_acked:
  assumes sf: "sends_file d c content"
  shows "quiet w \<Longrightarrow> \<forall>i \<in> set is. i * wc_chunk_size c < length content \<Longrightarrow>
    sent = filter (\<lambda>i. i \<notin> already) is \<Longrightarrow>
    rx (w_stream w) = concat (replicate (length sent) (frame_bytes [ACK_OK])) @ rest \<Longrightarrow>
    send_chunks B d c already w ok fl is =
      (advance w (concat (map (chunk_frame B (wc_chunk_size c) content) sent)) rest, Ok (ok @ sent, fl))"
proof (induction "is" arbitrary: w ok sent)
  case Nil
  then show ?case by simp
next
  case (Cons i rest_is)
  note lf = load_flag_quiet [OF Cons.prems(1)]
  show ?case
  proof (cases "i \<in> already")
    case True
    then show ?thesis using Cons.IH [of w sent ok] Cons.prems lf by simp
  next
    case False
    let ?cs = "wc_chunk_size c" and ?sent = "filter (\<lambda>i. i \<notin> already) rest_is"
    let ?off = "word_of_nat (i * ?cs) :: u64" and ?acks = "concat (replicate (length ?sent) (frame_bytes [ACK_OK])) @ rest"
    have in_file: "i * ?cs < length content" using Cons.prems(2) by simp
    note off = chunk_offset_inside [OF sf in_file]
    have f: "files d (path_of (wc_filepath c)) = Some content" "healthy d (path_of (wc_filepath c))"
      "length content < 2 ^ 64" "wc_file_size c = word_of_nat (length content)" "?cs < 2 ^ 64" "0 < wc_retries c"
      using sf by (simp_all only: sends_file_def)
    note slice = worker_chunk_slice [OF off(1,2) f(5,3,4)]
    have rxw: "rx (w_stream w) = frame_bytes [ACK_OK] @ ?acks" using Cons.prems(3,4) False by simp
    have sc: "send_chunk B d w (wc_filepath c) i ?off (min ?cs (unat (wc_file_size c - ?off))) (wc_retries c) =
        (advance w (chunk_frame B ?cs content i) ?acks, Ok True)"
      using send_chunk_acked [OF Cons.prems(1) rxw f(1,2) slice [symmetric] f(6)]
      by (simp add: chunk_frame_def Let_def)
    have "send_chunks B d c already (advance w (chunk_frame B ?cs content i) ?acks) (ok @ [i]) fl rest_is =
        (advance (advance w (chunk_frame B ?cs content i) ?acks) (concat (map (chunk_frame B ?cs content) ?sent)) rest,
         Ok ((ok @ [i]) @ ?sent, fl))"
      by (rule Cons.IH) (use Cons.prems(1,2) in simp_all)
    then show ?thesis using lf False off(1) sc Cons.prems(3) by (simp add: Let_def)
  qed
qed

text \<open>A worker that reads the server's answers writes its query and the chunks the server has not got.\<close>

lemma worker_acked:
  assumes sf: "sends_file d c content" and inside: "\<forall>i \<in> set (wc_chunk_indices c). i * wc_chunk_size c < length content"
    and R: "answerable R" and sent: "sent = filter (\<lambda>i. i \<notin> set R) (wc_chunk_indices c)"
    and q: "\<not> w_flag w" "flag_env w = []"
  shows "\<exists>w'. worker B d c (Some (stream_of (server_bytes R (length sent)))) w = (w', Ok (sent, []))
    \<and> tx (w_stream w') = client_bytes B (wc_chunk_size c) content sent \<and> \<not> w_flag w'"
proof -
  let ?s = "stream_of (server_bytes R (length sent))" and ?acks = "concat (replicate (length sent) (frame_bytes [ACK_OK]))"
  let ?w = "w\<lparr>w_stream := ?s\<rparr>"
  have qw: "quiet ?w" using q by (simp add: quiet_def) (simp add: stream_of_def)
  have w: "load_flag w = (w, False)" using q by (cases w) (simp add: load_flag_def)
  have snd: "send_timeout ?s [QUERY_MAGIC] = (?s\<lparr>tx := tx ?s @ frame_bytes [QUERY_MAGIC]\<rparr>, Ok ())"
    by (rule send_timeout_plain) simp
  have rcv: "recv_timeout (?s\<lparr>tx := tx ?s @ frame_bytes [QUERY_MAGIC]\<rparr>) =
      (?s\<lparr>tx := tx ?s @ frame_bytes [QUERY_MAGIC]\<rparr>\<lparr>rx := ?acks\<rparr>, Ok (query_response R))"
    unfolding recv_timeout_def using R
    by (intro recv_frame_plain) (simp_all add: stream_of_def server_bytes_def answerable_def)
  have "parse_query_response (query_response R) = Ok R"
    using R by (intro parse_query_response_ok) (simp_all add: answerable_def)
  then have qr: "query_received ?w = (advance ?w (frame_bytes [QUERY_MAGIC]) ?acks, Ok (set R))"
    using snd rcv by (simp add: query_received_def advance_def)
  have "send_chunks B d c (set R) (advance ?w (frame_bytes [QUERY_MAGIC]) ?acks) [] [] (wc_chunk_indices c) =
      (advance (advance ?w (frame_bytes [QUERY_MAGIC]) ?acks) (concat (map (chunk_frame B (wc_chunk_size c) content) sent)) [],
       Ok ([] @ sent, []))"
    by (rule send_chunks_acked [OF sf]) (use qw inside sent in simp_all)
  then have "worker B d c (Some ?s) w = (advance ?w (client_bytes B (wc_chunk_size c) content sent) [], Ok (sent, []))"
    using w qr by (simp add: worker_def client_bytes_def)
  then show ?thesis using q(1) by (auto simp: stream_of_def)
qed

section \<open>The server's side of a data connection\<close>

text \<open>One iteration of the loop of connection \<open>w\<close>, with the stream it leaves.\<close>

definition serve ::
  "'h blake3 \<Rightarrow> nat \<Rightarrow> 'p server \<times> (nat \<Rightarrow> stream) \<Rightarrow> nat \<Rightarrow> 'p server \<times> (nat \<Rightarrow> stream)" where
  "serve B rid sc w =
     (case sc of (srv, conns) \<Rightarrow>
      (case data_iteration B (receivers srv ! rid) (sdisk srv) (conns w) of
         ((rc', d', s'), r) \<Rightarrow> (srv\<lparr>receivers := (receivers srv)[rid := rc'], sdisk := d'\<rparr>, conns(w := s'))))"

fun turns_of ::
  "'h blake3 \<Rightarrow> nat \<Rightarrow> 'p server \<times> (nat \<Rightarrow> stream) \<Rightarrow> nat list \<Rightarrow> (nat \<times> stream) list" where
  "turns_of B rid sc [] = []"
| "turns_of B rid sc (w # ws) = (rid, snd sc w) # turns_of B rid (serve B rid sc w) ws"

text \<open>A schedule says which connection is served next; it is cut into the rounds of the waiting loop.\<close>

type_synonym schedule = "(nat list \<times> select_outcome) list"

fun rounds_of :: "'h blake3 \<Rightarrow> nat \<Rightarrow> 'p server \<times> (nat \<Rightarrow> stream) \<Rightarrow> schedule \<Rightarrow> round list" where
  "rounds_of B rid sc [] = []"
| "rounds_of B rid sc ((ws, outcome) # sched) =
     (turns_of B rid sc ws, outcome) # rounds_of B rid (foldl (serve B rid) sc ws) sched"

definition all_turns :: "schedule \<Rightarrow> nat list" where
  "all_turns sched = concat (map fst sched)"

lemma serve_turn:
  assumes "rid < length (receivers (fst sc))"
  shows "fst (serve B rid sc w) = data_turn B (fst sc) (rid, snd sc w)"
    and "length (receivers (fst (serve B rid sc w))) = length (receivers (fst sc))"
  using assms by (simp_all add: serve_def data_turn_def split: prod.splits)

lemma turns_fold:
  "rid < length (receivers (fst sc)) \<Longrightarrow>
     foldl (data_turn B) (fst sc) (turns_of B rid sc ws) = fst (foldl (serve B rid) sc ws)"
  by (induction ws arbitrary: sc) (simp_all flip: serve_turn(1) add: serve_turn(2))

lemma query_turn_step:
  assumes "\<not> r_failed rc" "plain_stream s" "rx_delays s = []" "rx s = frame_bytes [QUERY_MAGIC] @ rest"
  shows "data_iteration B rc d s =
    ((rc, d, s\<lparr>rx := rest, tx := tx s @ frame_bytes (query_response (received_indices rc))\<rparr>), Ok Continue)"
proof -
  have "recv_with_timeout s (timeout_for_bytes MAX_PAYLOAD) = (s\<lparr>rx := rest\<rparr>, Ok [QUERY_MAGIC])"
    using assms by (intro recv_frame_plain) simp_all
  moreover have "plain_stream (s\<lparr>rx := rest\<rparr>)" using assms(2) by (simp add: plain_stream_def)
  ultimately show ?thesis
    using assms(1) by (simp add: data_iteration_def handle_query_def send_timeout_plain)
qed

lemma drained_turn_step:
  assumes "plain_stream s" "rx_delays s = []" "rx s = []"
  shows "data_iteration B rc d s = ((rc, d, s), Ok Break)"
proof -
  have "s\<lparr>rx := []\<rparr> = s" using assms(3) by (cases s) simp
  then show ?thesis
    using assms by (simp add: data_iteration_def recv_with_timeout_def recv_def read_exact_def FRAME_HEADER_SIZE_def)
qed

text \<open>The chunks that are missing, those not in \<open>K\<close>, are distributed: nothing twice, nothing forgotten.\<close>

definition distributed :: "usize \<Rightarrow> usize set \<Rightarrow> usize list list \<Rightarrow> bool" where
  "distributed n K A \<longleftrightarrow> K \<subseteq> {..<n} \<and> (\<forall>i < n. i \<notin> K \<longrightarrow> (\<exists>w < length A. i \<in> set (A ! w)))
     \<and> (\<forall>w < length A. \<forall>i \<in> set (A ! w). i < n \<and> i \<notin> K)
     \<and> (\<forall>w < length A. \<forall>v < length A. w \<noteq> v \<longrightarrow> set (A ! w) \<inter> set (A ! v) = {})"

definition missing :: "usize set \<Rightarrow> usize list list \<Rightarrow> usize list list" where
  "missing K A = map (filter (\<lambda>i. i \<notin> K)) A"

lemma missing_simps [simp]:
  "length (missing K A) = length A" "missing {} A = A"
  "w < length A \<Longrightarrow> missing K A ! w = filter (\<lambda>i. i \<notin> K) (A ! w)"
  by (simp_all add: missing_def map_idI)

lemma missing_distributed:
  assumes "distributed n {} A" "K \<subseteq> {..<n}"
  shows "distributed n K (missing K A)"
proof -
  have "\<exists>w < length (missing K A). i \<in> set (missing K A ! w)" if i: "i < n" "i \<notin> K" for i
  proof -
    obtain w where "w < length A" "i \<in> set (A ! w)" using assms(1) i(1) by (auto simp: distributed_def)
    then have "w < length (missing K A) \<and> i \<in> set (missing K A ! w)" using i(2) by simp
    then show ?thesis by blast
  qed
  then show ?thesis using assms unfolding distributed_def by (auto simp: disjoint_iff)
qed

text \<open>An answer to the query of a worker that has the chunks \<open>is\<close> to send: it lists the chunks of \<open>K\<close>, none of these.\<close>

definition answers :: "usize set \<Rightarrow> usize list \<Rightarrow> usize list \<Rightarrow> bool" where
  "answers K is R \<longleftrightarrow> K \<subseteq> set R \<and> set R \<inter> set is = {} \<and> answerable R"

text \<open>A connection that has been served \<open>n\<close> times: first the query, then chunk after chunk.\<close>

definition conn_ok :: "'h blake3 \<Rightarrow> usize \<Rightarrow> bytes \<Rightarrow> usize set \<Rightarrow> usize list \<Rightarrow> nat \<Rightarrow> stream \<Rightarrow> bool" where
  "conn_ok B cs content K is n s \<longleftrightarrow> plain_stream s \<and> rx_delays s = [] \<and>
     (case n of
        0 \<Rightarrow> rx s = client_bytes B cs content is \<and> tx s = []
      | Suc k \<Rightarrow> rx s = concat (map (chunk_frame B cs content) (drop k is))
          \<and> (\<exists>R. answers K is R \<and> tx s = server_bytes R (min k (length is))))"

definition link_ok ::
  "'h blake3 \<Rightarrow> bytes \<Rightarrow> usize set \<Rightarrow> usize list list \<Rightarrow> nat \<Rightarrow> receiver \<Rightarrow> (nat \<Rightarrow> nat) \<Rightarrow> 'p server \<times> (nat \<Rightarrow> stream) \<Rightarrow> bool" where
  "link_ok B content K A rid rc0 n sc \<longleftrightarrow>
     (case sc of (srv, conns) \<Rightarrow> rid < length (receivers srv)
        \<and> on_course B content (receivers srv ! rid) (sdisk srv) \<and> (\<forall>p. healthy (sdisk srv) p)
        \<and> same_transfer rc0 (receivers srv ! rid)
        \<and> (\<forall>i < r_num_chunks rc0. received_chunks (receivers srv ! rid) ! i
             \<longleftrightarrow> i \<in> K \<or> (\<exists>w < length A. i \<in> set (take (n w - 1) (A ! w))))
        \<and> (\<forall>w < length A. conn_ok B (r_chunk_size rc0) content K (A ! w) (n w) (conns w)))"

lemma received_answerable:
  assumes "receiver_wf rc" "r_num_chunks rc \<le> MAX_CHUNKS"
  shows "answerable (received_indices rc)"
proof -
  let ?R = "received_indices rc"
  have "length ?R \<le> length (received_chunks rc)" unfolding received_indices_def
    by (metis length_filter_le length_upt minus_nat.diff_0)
  then have le: "length ?R \<le> 1000000" using assms by (simp add: receiver_wf_def MAX_CHUNKS_def)
  have "length (query_response ?R) = 4 + 4 * length ?R"
    unfolding query_response_def length_append length_concat map_map o_def by (simp add: sum_list_triv)
  moreover have "list_all (\<lambda>i. i < 2 ^ 32) ?R"
    using assms by (auto simp: list_all_iff received_indices_def receiver_wf_def MAX_CHUNKS_def)
  ultimately show ?thesis using le by (simp add: answerable_def MAX_PAYLOAD_def)
qed

lemma not_yet_received:
  assumes A: "distributed n K A" and w: "w < length A" "k w = 0"
    and rcv: "\<forall>i < n. received_chunks rc ! i \<longleftrightarrow> i \<in> K \<or> (\<exists>w < length A. i \<in> set (take (k w - 1) (A ! w)))"
    and len: "length (received_chunks rc) = n"
  shows "K \<subseteq> set (received_indices rc)" "set (received_indices rc) \<inter> set (A ! w) = {}"
proof -
  have r: "i \<in> set (received_indices rc) \<longleftrightarrow> i < n \<and> received_chunks rc ! i" for i
    using len by (auto simp: received_indices_def)
  show "K \<subseteq> set (received_indices rc)" using A rcv r by (auto simp: distributed_def)
  have False if i: "i < n" "received_chunks rc ! i" "i \<in> set (A ! w)" for i
  proof -
    have "i \<notin> K" using A w(1) i(3) by (simp add: distributed_def)
    then obtain v where v: "v < length A" "i \<in> set (take (k v - 1) (A ! v))" using rcv i by blast
    then have "i \<in> set (A ! v)" by (meson in_set_takeD)
    then have "v = w" using A v(1) w(1) i(3) unfolding distributed_def by (meson disjoint_iff)
    then show False using v(2) w(2) by simp
  qed
  then show "set (received_indices rc) \<inter> set (A ! w) = {}" using r by blast
qed

lemma link_okD:
  assumes "link_ok B content K A rid rc0 n (srv, conns)"
  shows "rid < length (receivers srv)" "on_course B content (receivers srv ! rid) (sdisk srv)" "healthy (sdisk srv) p"
    "\<not> r_failed (receivers srv ! rid)" "receiver_wf (receivers srv ! rid)" "r_num_chunks (receivers srv ! rid) \<le> MAX_CHUNKS"
    "same_transfer rc0 (receivers srv ! rid)" "length (received_chunks (receivers srv ! rid)) = r_num_chunks rc0"
    "\<forall>i < r_num_chunks rc0. received_chunks (receivers srv ! rid) ! i \<longleftrightarrow> i \<in> K \<or> (\<exists>w < length A. i \<in> set (take (n w - 1) (A ! w)))"
    "\<And>v. v < length A \<Longrightarrow> conn_ok B (r_chunk_size rc0) content K (A ! v) (n v) (conns v)"
proof -
  let ?rc = "receivers srv ! rid"
  note ln = assms [unfolded link_ok_def split]
  then show "rid < length (receivers srv)" and oc: "on_course B content ?rc (sdisk srv)" and "healthy (sdisk srv) p"
    and same: "same_transfer rc0 ?rc"
    and "\<And>v. v < length A \<Longrightarrow> conn_ok B (r_chunk_size rc0) content K (A ! v) (n v) (conns v)"
    and "\<forall>i < r_num_chunks rc0. received_chunks ?rc ! i \<longleftrightarrow> i \<in> K \<or> (\<exists>w < length A. i \<in> set (take (n w - 1) (A ! w)))"
    by blast+
  show "\<not> r_failed ?rc" and wf: "receiver_wf ?rc" and "r_num_chunks ?rc \<le> MAX_CHUNKS"
    using oc by (simp_all add: on_course_def data_inv_def promised_def)
  show "length (received_chunks ?rc) = r_num_chunks rc0" using wf same by (simp add: receiver_wf_def same_transfer_def)
qed

lemma conn_served:
  assumes "conn_ok B cs content K is n s" "n = Suc k" "k < length is"
    and "s' = s\<lparr>rx := concat (map (chunk_frame B cs content) (drop (Suc k) is)), tx := tx s @ frame_bytes [ACK_OK]\<rparr>"
  shows "conn_ok B cs content K is (Suc n) s'"
proof -
  have "server_bytes R (min k (length is)) @ frame_bytes [ACK_OK] = server_bytes R (min (Suc k) (length is))" for R
    using assms(3) by (simp add: server_bytes_def flip: replicate_append_same) 
  then show ?thesis using assms by (auto simp: conn_ok_def plain_stream_def)
qed

lemma conn_drained:
  assumes "conn_ok B cs content K is n s" "length is < n"
  shows "rx s = []" "conn_ok B cs content K is (Suc n) s"
  using assms by (auto simp: conn_ok_def split: nat.splits)

text \<open>The flags after chunk \<open>k\<close> of worker \<open>w\<close> is recorded, and after a turn that takes no chunk.\<close>

lemma recorded_taken:
  assumes "n w = Suc k" "k < length (A ! w)" "w < length A" "A ! w ! k < N" "length (received_chunks rc) = N"
    and "\<forall>i < N. received_chunks rc ! i \<longleftrightarrow> i \<in> K \<or> (\<exists>v < length A. i \<in> set (take (n v - 1) (A ! v)))" "j < N"
  shows "received_chunks (recorded rc (A ! w ! k) h) ! j
    \<longleftrightarrow> j \<in> K \<or> (\<exists>v < length A. j \<in> set (take ((n(w := Suc (n w))) v - 1) (A ! v)))"
proof -
  have "received_chunks (recorded rc (A ! w ! k) h) ! j \<longleftrightarrow> received_chunks rc ! j \<or> j = A ! w ! k"
    using assms(4,5,7) by (auto simp: recorded_def nth_list_update keep_flag)
  moreover have "j \<in> set (take ((n(w := Suc (n w))) v - 1) (A ! v))
      \<longleftrightarrow> j \<in> set (take (n v - 1) (A ! v)) \<or> v = w \<and> j = A ! w ! k" for v
    using assms(1,2) by (auto simp: take_Suc_conv_app_nth)
  ultimately show ?thesis using assms(3,6,7) by auto
qed

lemma idle_taken: "n w = 0 \<or> length (A ! w) < n w \<Longrightarrow> take ((n(w := Suc (n w))) v - 1) (A ! v) = take (n v - 1) (A ! v)"
  by auto

text \<open>The server's side of a worker's next chunk.\<close>

lemma chunk_served:
  assumes B: "blake3_ok B" and ne: "content \<noteq> []" and oc: "on_course B content rc d" and hl: "\<And>p. healthy d p"
    and s: "plain_stream s" "rx_delays s = []" and i: "i < r_num_chunks rc"
    and rxs: "rx s = chunk_frame B (r_chunk_size rc) content i @ rest"
  shows "\<exists>d'. data_iteration B rc d s = ((recorded rc i (b3_hash B (chunk_slice (r_chunk_size rc) content i)), d',
        s\<lparr>rx := rest, tx := tx s @ frame_bytes [ACK_OK]\<rparr>), Ok Continue)
    \<and> on_course B content (recorded rc i (b3_hash B (chunk_slice (r_chunk_size rc) content i))) d' \<and> same_faults d d'"
proof -
  have "rx s = frame_bytes (slice_message B rc content i (word_of_nat (i * r_chunk_size rc))) @ rest"
    using rxs by (simp add: chunk_frame_def slice_message_def Let_def)
  from chunk_turn_step [OF B oc ne hl _ s(2) this] i obtain d' where
    "data_iteration B rc d s = ((recorded rc i (b3_hash B (chunk_slice (r_chunk_size rc) content i)), d',
       fst (send_ack (s\<lparr>rx := rest\<rparr>) ACK_OK)), Ok Continue)"
    "on_course B content (recorded rc i (b3_hash B (chunk_slice (r_chunk_size rc) content i))) d'" "same_faults d d'" by auto
  moreover have "fst (send_ack (s\<lparr>rx := rest\<rparr>) ACK_OK) = s\<lparr>rx := rest, tx := tx s @ frame_bytes [ACK_OK]\<rparr>"
    using s(1) by (simp add: send_ack_def send_timeout_plain plain_stream_def)
  ultimately show ?thesis by simp
qed

text \<open>A turn that takes no chunk leaves the link as it was.\<close>

lemma link_idle:
  assumes ln: "link_ok B content K A rid rc0 n (srv, conns)" and w: "w < length A"
    and idle: "n w = 0 \<or> length (A ! w) < n w"
    and it: "data_iteration B (receivers srv ! rid) (sdisk srv) (conns w) = ((receivers srv ! rid, sdisk srv, s'), r)"
    and c: "conn_ok B (r_chunk_size rc0) content K (A ! w) (Suc (n w)) s'"
  shows "link_ok B content K A rid rc0 (n(w := Suc (n w))) (serve B rid (srv, conns) w)"
proof -
  have "take ((n(w := Suc (n w))) v - 1) (A ! v) = take (n v - 1) (A ! v)" for v by (rule idle_taken) (rule idle)
  moreover have "(receivers srv)[rid := receivers srv ! rid] = receivers srv" by simp
  ultimately show ?thesis using ln it c by (simp add: serve_def link_ok_def)
qed

lemma link_query:
  assumes A: "distributed (r_num_chunks rc0) K A"
    and ln: "link_ok B content K A rid rc0 n (srv, conns)" and w: "w < length A" and query: "n w = 0"
  shows "link_ok B content K A rid rc0 (n(w := Suc (n w))) (serve B rid (srv, conns) w)"
proof -
  let ?rc = "receivers srv ! rid" and ?cs = "r_chunk_size rc0" and ?s = "conns w" and ?is = "A ! w"
  let ?rest = "concat (map (chunk_frame B ?cs content) ?is)"
  let ?s' = "?s\<lparr>rx := ?rest, tx := tx ?s @ frame_bytes (query_response (received_indices ?rc))\<rparr>"
  note lk = link_okD [OF ln]
  have pl: "plain_stream ?s" "rx_delays ?s = []" using lk(10) [OF w] by (simp_all add: conn_ok_def)
  have rxs: "rx ?s = frame_bytes [QUERY_MAGIC] @ ?rest" "tx ?s = []"
    using lk(10) [OF w] query by (simp_all add: conn_ok_def client_bytes_def)
  note it = query_turn_step [OF lk(4) pl rxs(1)]
  have "answers K ?is (received_indices ?rc)"
    using not_yet_received [OF A w query lk(9,8)] received_answerable [OF lk(5,6)] by (simp add: answers_def)
  moreover have "tx ?s' = server_bytes (received_indices ?rc) (min 0 (length ?is))" using rxs(2) by (simp add: server_bytes_def)
  ultimately have "\<exists>R. answers K ?is R \<and> tx ?s' = server_bytes R (min 0 (length ?is))" by blast
  then have "conn_ok B ?cs content K ?is (Suc (n w)) ?s'" using pl query by (simp add: conn_ok_def plain_stream_def)
  then show ?thesis by (rule link_idle [OF ln w disjI1 [OF query] it])
qed

lemma link_chunk:
  assumes B: "blake3_ok B" and ne: "content \<noteq> []" and A: "distributed (r_num_chunks rc0) K A"
    and ln: "link_ok B content K A rid rc0 n (srv, conns)" and w: "w < length A"
    and chunk: "n w = Suc k" "k < length (A ! w)"
  shows "link_ok B content K A rid rc0 (n(w := Suc (n w))) (serve B rid (srv, conns) w)"
proof -
  let ?rc = "receivers srv ! rid" and ?cs = "r_chunk_size rc0" and ?s = "conns w" and ?is = "A ! w" and ?N = "r_num_chunks rc0"
  let ?i = "?is ! k" and ?rest = "concat (map (chunk_frame B ?cs content) (drop (Suc k) ?is))"
  let ?rc' = "recorded ?rc ?i (b3_hash B (chunk_slice ?cs content ?i))"
  let ?s' = "?s\<lparr>rx := ?rest, tx := tx ?s @ frame_bytes [ACK_OK]\<rparr>"
  note lk = link_okD [OF ln]
  have pl: "plain_stream ?s" "rx_delays ?s = []" using lk(10) [OF w] by (simp_all add: conn_ok_def)
  have eqs: "r_num_chunks ?rc = ?N" "r_chunk_size ?rc = ?cs" using lk(7) by (simp_all add: same_transfer_def)
  have i: "?i < ?N" "?i \<in> set ?is" using A w chunk(2) by (auto simp: distributed_def)
  have "rx ?s = concat (map (chunk_frame B ?cs content) (drop k ?is))" using lk(10) [OF w] chunk by (simp add: conn_ok_def)
  then have "rx ?s = chunk_frame B (r_chunk_size ?rc) content ?i @ ?rest"
    using chunk(2) eqs(2) by (simp flip: Cons_nth_drop_Suc)
  from chunk_served [OF B ne lk(2,3) pl _ this] i eqs obtain d' where
    it: "data_iteration B ?rc (sdisk srv) ?s = ((?rc', d', ?s'), Ok Continue)"
    and oc': "on_course B content ?rc' d'" and sf: "same_faults (sdisk srv) d'" by auto
  have c: "conn_ok B ?cs content K ?is (Suc (n w)) ?s'" by (rule conn_served [OF lk(10) [OF w] chunk]) simp
  note recorded_taken [of n w k A ?N ?rc K, OF chunk w i(1) lk(8,9)]
  moreover have "same_transfer rc0 ?rc'" using lk(7) same_transfer_refl(3) [of ?rc ?i] by (simp add: same_transfer_def recorded_def)
  ultimately show ?thesis
    using it lk(1,10) oc' c same_faults_healthy [OF sf] lk(3) by (simp add: serve_def link_ok_def)
qed

lemma link_step:
  assumes B: "blake3_ok B" and ne: "content \<noteq> []" and A: "distributed (r_num_chunks rc0) K A"
    and ln: "link_ok B content K A rid rc0 n (srv, conns)" and w: "w < length A"
  shows "link_ok B content K A rid rc0 (n(w := Suc (n w))) (serve B rid (srv, conns) w)"
proof -
  note lk = link_okD [OF ln]
  consider (query) "n w = 0" | (chunk) k where "n w = Suc k" "k < length (A ! w)" | (drained) "length (A ! w) < n w"
    by (metis Suc_lessI not_less_eq old.nat.exhaust linorder_neqE_nat lessI)
  then show ?thesis
  proof cases
    case query
    then show ?thesis by (rule link_query [OF A ln w])
  next
    case (chunk k)
    then show ?thesis by (rule link_chunk [OF B ne A ln w])
  next
    case drained
    note c = conn_drained [OF lk(10) [OF w] drained]
    have pl: "plain_stream (conns w)" "rx_delays (conns w) = []" using lk(10) [OF w] by (simp_all add: conn_ok_def)
    show ?thesis by (rule link_idle [OF ln w disjI2 [OF drained] drained_turn_step [OF pl c(1)] c(2)])
  qed
qed

lemma link_run:
  assumes B: "blake3_ok B" and ne: "content \<noteq> []" and A: "distributed (r_num_chunks rc0) K A"
  shows "link_ok B content K A rid rc0 n sc \<Longrightarrow> list_all (\<lambda>w. w < length A) ws \<Longrightarrow>
    link_ok B content K A rid rc0 (\<lambda>w. n w + count_list ws w) (foldl (serve B rid) sc ws)"
proof (induction ws arbitrary: n sc)
  case Nil
  then show ?case by simp
next
  case (Cons w ws)
  obtain srv conns where sc: "sc = (srv, conns)" by (cases sc)
  have "link_ok B content K A rid rc0 (n(w := Suc (n w))) (serve B rid sc w)"
    unfolding sc by (rule link_step [OF B ne A]) (use Cons.prems sc in simp_all)
  from Cons.IH [OF this] Cons.prems(2) have
    "link_ok B content K A rid rc0 (\<lambda>v. (n(w := Suc (n w))) v + count_list ws v) (foldl (serve B rid) (serve B rid sc w) ws)" by simp
  moreover have "(\<lambda>v. (n(w := Suc (n w))) v + count_list ws v) = (\<lambda>v. n v + count_list (w # ws) v)" by auto
  ultimately show ?case by (simp only: foldl_Cons)
qed

section \<open>The waiting server\<close>

definition served_all :: "usize list list \<Rightarrow> (nat \<Rightarrow> nat) \<Rightarrow> bool" where
  "served_all A n \<longleftrightarrow> (\<forall>w < length A. length (A ! w) < n w)"

definition waits_on :: "schedule \<Rightarrow> bool" where
  "waits_on sched \<longleftrightarrow> list_all (\<lambda>(ws, outcome). outcome = Slept \<or> outcome = ReadByte) sched"

lemma link_complete:
  assumes "link_ok B content K A rid rc0 n (srv, conns)" "distributed (r_num_chunks rc0) K A" "served_all A n"
  shows "is_complete (receivers srv ! rid)"
proof -
  let ?rc = "receivers srv ! rid"
  have wf: "receiver_wf ?rc" and N: "r_num_chunks ?rc = r_num_chunks rc0"
    using assms(1) by (auto simp: link_ok_def on_course_def data_inv_def same_transfer_def)
  have "received_chunks ?rc ! i" if "i < r_num_chunks rc0" for i
  proof -
    have "i \<in> set (take (n w - 1) (A ! w))" if w: "w < length A" "i \<in> set (A ! w)" for w
    proof -
      have "length (A ! w) \<le> n w - 1" using assms(3) w(1) unfolding served_all_def by fastforce
      then show ?thesis using w(2) by simp
    qed
    moreover have "i \<in> K \<or> (\<exists>w < length A. i \<in> set (A ! w))" using assms(2) that by (auto simp: distributed_def)
    ultimately show ?thesis using assms(1) that unfolding link_ok_def by blast
  qed
  then show ?thesis using is_complete_iff [OF wf] N by simp
qed

lemma link_wait:
  assumes B: "blake3_ok B" and ne: "content \<noteq> []" and A: "distributed (r_num_chunks rc0) K A"
  shows "link_ok B content K A rid rc0 n sc \<Longrightarrow> waits_on sched \<Longrightarrow>
    list_all (\<lambda>w. w < length A) (all_turns sched) \<Longrightarrow>
    served_all A (\<lambda>w. n w + count_list (all_turns sched) w) \<Longrightarrow>
    \<exists>n' srv' conns'. wait_for_completion B (fst sc) rid (rounds_of B rid sc sched) = (srv', True)
      \<and> link_ok B content K A rid rc0 n' (srv', conns') \<and> is_complete (receivers srv' ! rid)"
proof (induction sched arbitrary: n sc)
  case Nil
  obtain srv conns where sc: "sc = (srv, conns)" by (cases sc)
  have "is_complete (receivers srv ! rid)"
    using link_complete [OF Nil.prems(1) [unfolded sc] A] Nil.prems(4) by (simp add: all_turns_def)
  then show ?case using Nil.prems(1) sc by auto
next
  case (Cons rnd sched)
  obtain ws outcome where rnd: "rnd = (ws, outcome)" by (cases rnd)
  obtain srv conns where sc: "sc = (srv, conns)" by (cases sc)
  have rid: "rid < length (receivers srv)" and nf: "\<not> r_failed (receivers srv ! rid)"
    using Cons.prems(1) sc by (auto simp: link_ok_def on_course_def)
  show ?case
  proof (cases "is_complete (receivers srv ! rid)")
    case True
    then show ?thesis using Cons.prems(1) sc rnd by auto
  next
    case False
    let ?sc = "foldl (serve B rid) sc ws"
    have ws: "list_all (\<lambda>w. w < length A) ws" "list_all (\<lambda>w. w < length A) (all_turns sched)" "waits_on sched"
      and cnt: "served_all A (\<lambda>w. (n w + count_list ws w) + count_list (all_turns sched) w)"
      using Cons.prems(2-4) rnd by (simp_all add: all_turns_def waits_on_def add.assoc)
    have "link_ok B content K A rid rc0 (\<lambda>w. n w + count_list ws w) ?sc"
      by (rule link_run [OF B ne A Cons.prems(1) ws(1)])
    from Cons.IH [OF this ws(3,2) cnt] obtain n' srv' conns' where
      IH: "wait_for_completion B (fst ?sc) rid (rounds_of B rid ?sc sched) = (srv', True)"
        "link_ok B content K A rid rc0 n' (srv', conns')" "is_complete (receivers srv' ! rid)" by blast
    have "wait_for_completion B srv rid (rounds_of B rid sc (rnd # sched))
        = wait_for_completion B (fst ?sc) rid (rounds_of B rid ?sc sched)"
      using False nf rnd Cons.prems(2) turns_fold [of rid sc B ws] rid sc
      by (auto simp: Let_def waits_on_def)
    then show ?thesis using IH sc by auto
  qed
qed

text \<open>What each connection has carried once it has been served often enough.\<close>

lemma link_carried:
  assumes "link_ok B content K A rid rc0 n (srv, conns)" "served_all A n" "w < length A"
  shows "\<exists>R. answers K (A ! w) R \<and> tx (conns w) = server_bytes R (length (A ! w))"
proof -
  have c: "conn_ok B (r_chunk_size rc0) content K (A ! w) (n w) (conns w)" using assms(1,3) by (simp add: link_ok_def)
  obtain k where k: "n w = Suc k" "length (A ! w) \<le> k"
    using assms(2,3) by (metis less_Suc_eq_le not0_implies_Suc not_less0 served_all_def)
  then show ?thesis using c by (auto simp: conn_ok_def min_absorb2)
qed

lemma link_start:
  assumes "rid < length (receivers srv)" "on_course B content (receivers srv ! rid) (sdisk srv)"
    and "\<And>p. healthy (sdisk srv) p" "same_transfer rc0 (receivers srv ! rid)"
    and "\<And>i. i < r_num_chunks rc0 \<Longrightarrow> received_chunks (receivers srv ! rid) ! i \<longleftrightarrow> i \<in> K"
  shows "link_ok B content K A rid rc0 (\<lambda>_. 0) (srv, \<lambda>w. stream_of (client_bytes B (r_chunk_size rc0) content (A ! w)))"
  using assms by (simp add: link_ok_def conn_ok_def) (simp add: stream_of_def)

section \<open>The client\<close>

definition client_ready :: "disk \<Rightarrow> client_config \<Rightarrow> bytes \<Rightarrow> string \<Rightarrow> bool" where
  "client_ready d c content name \<longleftrightarrow> files d (path_of (c_filepath c)) = Some content
     \<and> healthy d (path_of (c_filepath c)) \<and> sent_name (c_filepath c) = Some name \<and> length name \<le> MAX_FILENAME_LEN
     \<and> content \<noteq> [] \<and> length content < 2 ^ 64 \<and> 0 < c_chunk_size c \<and> c_chunk_size c + 48 \<le> MAX_PAYLOAD
     \<and> chunk_total content (c_chunk_size c) \<le> MAX_CHUNKS \<and> 0 < c_parallel c \<and> 0 < c_retries c"

definition offer :: "client_config \<Rightarrow> bytes \<Rightarrow> u16 list \<Rightarrow> usize list list" where
  "offer c content ports = setup_workers c (chunk_total content (c_chunk_size c)) ports"

lemma offer_distributed:
  assumes "client_ready d c content name" "ports \<noteq> []"
  shows "distributed (chunk_total content (c_chunk_size c)) {} (offer c content ports)"
proof -
  let ?n = "chunk_total content (c_chunk_size c)" and ?A = "offer c content ports"
  have par: "0 < c_parallel c" using assms(1) by (simp add: client_ready_def)
  have part: "\<exists>!w. w < length ?A \<and> i \<in> set (?A ! w)" if "i < ?n" for i
    using setup_workers_partition [OF assms(2) par that] by (simp add: offer_def)
  have bnd: "i < ?n" if "w < length ?A" "i \<in> set (?A ! w)" for w i
    using setup_workers_bounds(1) [of "?A ! w" c ?n ports] that by (simp add: offer_def)
  have "set (?A ! w) \<inter> set (?A ! v) = {}" if "w < length ?A" "v < length ?A" "w \<noteq> v" for w v
  proof -
    have False if i: "i \<in> set (?A ! w)" "i \<in> set (?A ! v)" for i
      using part [OF bnd [OF \<open>w < length ?A\<close> i(1)]] i \<open>w < length ?A\<close> \<open>v < length ?A\<close> \<open>w \<noteq> v\<close> by blast
    then show ?thesis by blast
  qed
  moreover have "\<exists>w < length ?A. i \<in> set (?A ! w)" if "i < ?n" for i using part [OF that] by blast
  ultimately show ?thesis using bnd by (simp add: distributed_def)
qed

lemma spawned_worker:
  assumes cr: "client_ready d c content name" and l: "\<forall>i \<in> set l. i < chunk_total content (c_chunk_size c)"
    and R: "answerable R" "sent = filter (\<lambda>i. i \<notin> set R) l" and env: "e_flags env w = []"
    and data: "e_data env w port = Some (stream_of (server_bytes R (length sent)))"
  shows "\<exists>w'. spawn_worker B d c env (word_of_nat (length content)) w port l = (w', Ok (sent, []))
    \<and> tx (w_stream w') = client_bytes B (c_chunk_size c) content sent \<and> \<not> w_flag w'"
proof -
  let ?wc = "worker_config_of c (word_of_nat (length content)) l"
  have sf: "sends_file d ?wc content"
    using cr by (simp add: sends_file_def client_ready_def worker_config_of_def MAX_PAYLOAD_def)
  have "content \<noteq> []" "0 < c_chunk_size c" using cr by (simp_all add: client_ready_def)
  note b = chunk_total_bounds(2) [OF this]
  have "i * c_chunk_size c < length content" if "i \<in> set l" for i
  proof -
    have "i \<le> chunk_total content (c_chunk_size c) - 1" using l that by fastforce
    then have "i * c_chunk_size c \<le> (chunk_total content (c_chunk_size c) - 1) * c_chunk_size c" by (rule mult_le_mono1)
    then show ?thesis using b by linarith
  qed
  then show ?thesis
    using R(2) worker_acked [OF sf _ R(1), of sent "\<lparr>w_stream = stream_of [], w_flag = False, flag_env = e_flags env w\<rparr>" B] env data
    by (simp add: spawn_worker_def worker_config_of_def)
qed

lemma run_workers_acked:
  assumes "\<And>w. w < length ls \<Longrightarrow> \<exists>w'. spawn_worker B d c env fs (k + w) (ports ! ((k + w) mod length ports)) (ls ! w)
      = (w', Ok (sent (k + w), [])) \<and> \<not> w_flag w'"
    and "ports \<noteq> []"
  shows "run_workers_from B d c env fs ports k ls = Ok ([], False)"
  using assms
proof (induction ls arbitrary: k)
  case Nil
  then show ?case by simp
next
  case (Cons l ls)
  have "\<exists>w'. spawn_worker B d c env fs (Suc k + w) (ports ! ((Suc k + w) mod length ports)) (ls ! w) = (w', Ok (sent (Suc k + w), []))
      \<and> \<not> w_flag w'" if "w < length ls" for w
    using Cons.prems(1) [of "Suc w"] that by simp
  from Cons.IH [OF this Cons.prems(2)] have "run_workers_from B d c env fs ports (Suc k) ls = Ok ([], False)" .
  moreover obtain w' where "spawn_worker B d c env fs k (ports ! (k mod length ports)) l = (w', Ok (sent k, []))" "\<not> w_flag w'"
    using Cons.prems(1) [of 0] by auto
  ultimately show ?case using Cons.prems(2) by (simp add: Let_def)
qed

lemma setup_transfer_ready:
  assumes "client_ready d c content name"
  shows "setup_transfer d c = Ok (word_of_nat (length content), chunk_total content (c_chunk_size c))"
proof -
  have f: "files d (path_of (c_filepath c)) = Some content" "length content < 2 ^ 64" "0 < c_chunk_size c"
    using assms by (simp_all only: client_ready_def)
  then show ?thesis
    using count_chunks_total [OF f(2,3)] by (simp add: setup_transfer_def stat_len_def count_chunks_def)
qed

section \<open>Opening the transfer\<close>

definition server_accepts ::
  "'p semaphore \<Rightarrow> (u16 \<Rightarrow> bool) \<Rightarrow> 'p server \<Rightarrow> string \<Rightarrow> string \<Rightarrow> usize \<Rightarrow> string \<Rightarrow> usize \<Rightarrow> bool" where
  "server_accepts S os_free srv output_dir temp_dir mp name n \<longleftrightarrow> sem_ok S \<and> output_dir \<noteq> [] \<and> temp_dir \<noteq> []
     \<and> (\<forall>p. healthy (sdisk srv) p) \<and> (\<forall>p. \<not> mkdir_err (sdisk srv) p)
     \<and> files (sdisk srv) (path_of (output_dir @ ''/'' @ name)) = None \<and> 0 < mp \<and> mp < 256
     \<and> min n mp \<le> available S srv \<and> min n mp \<le> length (free_ports os_free srv)"

definition server_ready ::
  "'p semaphore \<Rightarrow> (u16 \<Rightarrow> bool) \<Rightarrow> 'p server \<Rightarrow> string \<Rightarrow> string \<Rightarrow> usize \<Rightarrow> string \<Rightarrow> usize \<Rightarrow> bool" where
  "server_ready S os_free srv output_dir temp_dir mp name n \<longleftrightarrow> server_accepts S os_free srv output_dir temp_dir mp name n
     \<and> files (sdisk srv) (meta_file temp_dir name) = None"

lemma server_acceptsD:
  assumes "server_accepts S os_free srv output_dir temp_dir mp name n"
  shows "sem_ok S" "output_dir \<noteq> []" "temp_dir \<noteq> []" "healthy (sdisk srv) p" "\<not> mkdir_err (sdisk srv) p"
    "files (sdisk srv) (path_of (output_dir @ ''/'' @ name)) = None" "0 < mp" "mp < 256"
    "min n mp \<le> available S srv" "min n mp \<le> length (free_ports os_free srv)"
  using assms unfolding server_accepts_def by blast+

definition offered_ports :: "(u16 \<Rightarrow> bool) \<Rightarrow> 'p server \<Rightarrow> usize \<Rightarrow> usize \<Rightarrow> u16 list" where
  "offered_ports os_free srv n mp = take (min n mp) (free_ports os_free srv)"

lemma open_ports_ready:
  assumes S: "sem_ok S" and n: "min (r_num_chunks rc) mp < 2 ^ 32" and pl: "plain_stream s"
    and av: "min (r_num_chunks rc) mp \<le> available S srv" "min (r_num_chunks rc) mp \<le> length (free_ports os_free srv)"
  shows "\<exists>srv1 s1. open_ports S os_free srv s rc mp =
    ((srv1, s1), Ok (Waiting (length (receivers srv)) (offered_ports os_free srv (r_num_chunks rc) mp)))
    \<and> (\<forall>p \<in> set (offered_ports os_free srv (r_num_chunks rc) mp). get_receiver srv1 p = Some (length (receivers srv)))"
proof -
  let ?k = "min (r_num_chunks rc) mp"
  obtain srv' r where a: "allocate_sockets S os_free srv (r_num_chunks rc) mp = (srv', r)" by (metis surj_pair)
  from allocate_sockets_cases(3) [OF S refl n a av] obtain socks where so: "r = Ok socks"
    "sockets_to_ports socks = take ?k (free_ports os_free srv)"
    "srv'\<lparr>pool := pool srv\<rparr> = srv\<lparr>bound := bound srv \<union> set (take ?k (free_ports os_free srv))\<rparr>" by blast
  have "receivers srv' = receivers srv" using arg_cong [OF so(3), of receivers] by simp
  then obtain srv1 s1 where
    o: "open_ports S os_free srv s rc mp = ((srv1, s1), Ok (Waiting (length (receivers srv)) (offered_ports os_free srv (r_num_chunks rc) mp)))"
    using a so pl by (simp add: open_ports_def share_receiver_def send_handshake_response_def send_timeout_plain
        offered_ports_def Let_def)
  then show ?thesis using open_ports_Waiting(5) [OF S n o] by (simp add: get_receiver_def)
qed

lemma control_open_ready:
  assumes B: "blake3_ok B" and hs: "recv_timeout s = (s0, Ok data)" "parse_handshake data = Ok h" and pl: "plain_stream s"
    and sa: "server_accepts S os_free srv output_dir temp_dir mp (h_safe_name h) (h_num_chunks h)"
    and rr: "resume_receiver B (receiver_of h output_dir temp_dir) (sdisk srv) = ((rc, sdisk srv), Ok False)"
      "r_num_chunks rc = h_num_chunks h"
  shows "\<exists>srv1 s1. control_open S B os_free srv s output_dir temp_dir mp =
    ((srv1, s1), Ok (Waiting (length (receivers srv)) (offered_ports os_free srv (h_num_chunks h) mp)))
    \<and> (\<forall>p \<in> set (offered_ports os_free srv (h_num_chunks h) mp). get_receiver srv1 p = Some (length (receivers srv)))"
proof -
  note sad = server_acceptsD [OF sa]
  have data: "data \<noteq> []" using hs(2) by (auto simp: parse_handshake_def PREFIX_SIZE_def SUFFIX_SIZE_def)
  have rh: "receive_handshake s = (s0, Ok (Some h))" using hs data by (simp add: receive_handshake_def)
  have pl0: "plain_stream s0" using recv_timeout_tx [OF hs(1)] pl by simp
  have "\<not> exists_err (sdisk srv) p" for p using sad(4) [of p] by (simp add: healthy_def)
  then have "check_existing_file B (sdisk srv) output_dir (h_safe_name h) (h_full_hash h) = Ok False"
    using sad(6) by (simp add: check_existing_file_def fs_exists_def Let_def)
  then have pt: "prepare_transfer B (sdisk srv) s0 h output_dir temp_dir = (s0, Ok True)"
    using sad(5) by (simp add: prepare_transfer_def create_dir_all_def)
  have "min (r_num_chunks rc) mp < 2 ^ 32" using sad(8) by simp
  from open_ports_ready [OF sad(1) this pl0, of srv os_free] sad(9,10) rr(2) obtain srv1 s1 where
    "open_ports S os_free srv s0 rc mp = ((srv1, s1), Ok (Waiting (length (receivers srv)) (offered_ports os_free srv (h_num_chunks h) mp)))"
    "\<forall>p \<in> set (offered_ports os_free srv (h_num_chunks h) mp). get_receiver srv1 p = Some (length (receivers srv))"
    by auto
  then show ?thesis using rh pt rr(1) by (simp add: control_open_def receiver_of_def Let_def)
qed

text \<open>What the server reads in the client's handshake.\<close>

definition request_of :: "'h blake3 \<Rightarrow> client_config \<Rightarrow> bytes \<Rightarrow> string \<Rightarrow> handshake_data" where
  "request_of B c content name = \<lparr>h_filename = name, h_safe_name = name, h_file_size = word_of_nat (length content),
     h_chunk_size = c_chunk_size c, h_num_chunks = chunk_total content (c_chunk_size c), h_full_hash = b3_hash B content\<rparr>"

lemma request_of_simps [simp]:
  "h_safe_name (request_of B c content name) = name" "h_chunk_size (request_of B c content name) = c_chunk_size c"
  "h_num_chunks (request_of B c content name) = chunk_total content (c_chunk_size c)"
  by (simp_all add: request_of_def)

lemma request_describes: "client_ready d c content name \<Longrightarrow> describes B (request_of B c content name) content"
  by (simp add: describes_def client_ready_def request_of_def)

lemma client_handshake:
  assumes B: "blake3_ok B" and cr: "client_ready d c content name"
  obtains hs s where "build_handshake B d (c_filepath c) (c_chunk_size c) = Ok hs"
    and "parse_handshake hs = Ok (request_of B c content name)" and "recv_timeout (stream_of (frame_bytes hs)) = (s, Ok hs)"
proof -
  have f: "sent_name (c_filepath c) = Some name" "length name \<le> MAX_FILENAME_LEN"
    "files d (path_of (c_filepath c)) = Some content" "healthy d (path_of (c_filepath c))" "length content < 2 ^ 64"
    "0 < c_chunk_size c" "c_chunk_size c + 48 \<le> MAX_PAYLOAD" "chunk_total content (c_chunk_size c) \<le> MAX_CHUNKS"
    using cr by (simp_all only: client_ready_def)
  have cs: "c_chunk_size c < 2 ^ 32" using f(7) by (simp add: MAX_PAYLOAD_def)
  note bh = build_handshake_value [OF B f(1,3,4,5,6)]
  let ?hs = "handshake_bytes (str_bytes name) (word_of_nat (length content)) (c_chunk_size c)
      (chunk_total content (c_chunk_size c)) (b3_hash B content)"
  have "length (b3_hash B content) = 32" using B by (simp add: blake3_ok_def)
  then have "length ?hs \<le> MAX_PAYLOAD" using f(2) by (simp add: handshake_bytes_def MAX_FILENAME_LEN_def MAX_PAYLOAD_def)
  then have "recv_timeout (stream_of (frame_bytes ?hs)) = ((stream_of (frame_bytes ?hs))\<lparr>rx := []\<rparr>, Ok ?hs)"
    unfolding recv_timeout_def by (intro recv_frame_plain) (simp_all add: stream_of_def)
  moreover have "parse_handshake ?hs = Ok (request_of B c content name)"
    using handshake_understood [OF B f(1-6) cs f(8)] bh unfolding request_of_def by (metis res_bind.simps(1))
  ultimately show thesis using that bh by blast
qed

section \<open>Both together\<close>

text \<open>The client's environment: what the server has written on the control connection and on the data
  connections, nobody else setting the flag, no Ctrl-C.\<close>

definition network_of :: "stream \<Rightarrow> (nat \<Rightarrow> stream) \<Rightarrow> client_env" where
  "network_of s conns = \<lparr>e_control = Some (stream_of (tx s)), e_data = (\<lambda>w port. Some (stream_of (tx (conns w)))),
     e_flags = (\<lambda>_. []), e_interrupt = False\<rparr>"

lemma network_of_simps [simp]:
  "e_control (network_of s conns) = Some (stream_of (tx s))" "e_data (network_of s conns) w port = Some (stream_of (tx (conns w)))"
  "e_flags (network_of s conns) w = []" "\<not> e_interrupt (network_of s conns)"
  by (simp_all add: network_of_def)

lemma client_workers:
  assumes cr: "client_ready d c content name" and ports: "ports \<noteq> []" and A: "A = missing K (offer c content ports)"
    and dat: "\<forall>w < length A. \<exists>R. answers K (A ! w) R \<and> tx (conns w) = server_bytes R (length (A ! w))" and w: "w < length A"
  shows "\<exists>w'. spawn_worker B d c (network_of s conns) (word_of_nat (length content)) w (ports ! (w mod length ports)) (offer c content ports ! w)
      = (w', Ok (A ! w, [])) \<and> tx (w_stream w') = client_bytes B (c_chunk_size c) content (A ! w) \<and> \<not> w_flag w'"
proof -
  let ?O = "offer c content ports" and ?env = "network_of s conns"
  have wO: "w < length ?O" using w A by simp
  obtain R where R: "answers K (A ! w) R" "tx (conns w) = server_bytes R (length (A ! w))" using dat w by auto
  have "\<forall>i \<in> set (?O ! w). i < chunk_total content (c_chunk_size c)"
    using offer_distributed [OF cr ports] wO by (simp add: distributed_def)
  moreover have "A ! w = filter (\<lambda>i. i \<notin> set R) (?O ! w)"
    using R(1) wO unfolding A by (auto simp: answers_def disjoint_iff intro!: filter_cong)
  ultimately show ?thesis using R spawned_worker [OF cr, of "?O ! w" R "A ! w" ?env w "ports ! (w mod length ports)" B]
    by (simp add: answers_def)
qed

lemma client_completes:
  assumes B: "blake3_ok B" and cr: "client_ready d c content name"
    and ports: "ports \<noteq> []" "length ports < 256"
    and ctl: "tx s = frame_bytes (response_bytes RESP_OK ports) @ frame_bytes [RESP_OK]"
    and A: "A = missing K (offer c content ports)"
    and dat: "\<forall>w < length A. \<exists>R. answers K (A ! w) R \<and> tx (conns w) = server_bytes R (length (A ! w))"
  shows "run_client B d c (network_of s conns) = Ok (0, False)"
proof -
  let ?O = "offer c content ports" and ?env = "network_of s conns" and ?fs = "word_of_nat (length content) :: u64"
  let ?c = "stream_of (frame_bytes (response_bytes RESP_OK ports) @ frame_bytes [RESP_OK])"
  have "\<exists>w'. spawn_worker B d c ?env ?fs (0 + w) (ports ! ((0 + w) mod length ports)) (?O ! w) = (w', Ok (A ! (0 + w), []))
      \<and> \<not> w_flag w'" if "w < length ?O" for w
    using client_workers [OF cr ports(1) A dat, of w B s] that A by auto
  from run_workers_acked [OF this ports(1)] have
    rw: "run_workers B d c ?env (setup_workers c (chunk_total content (c_chunk_size c)) ports) ports ?fs = Ok ([], False)"
    by (simp add: run_workers_def offer_def)
  obtain hs where hs: "build_handshake B d (c_filepath c) (c_chunk_size c) = Ok hs" by (rule client_handshake [OF B cr])
  let ?s1 = "?c\<lparr>tx := tx ?c @ frame_bytes hs\<rparr>"
  have "length (response_bytes RESP_OK ports) \<le> MAX_PAYLOAD" using ports(2) by (simp add: response_length MAX_PAYLOAD_def)
  then have "recv_timeout ?s1 = (?s1\<lparr>rx := frame_bytes [RESP_OK]\<rparr>, Ok (response_bytes RESP_OK ports))"
    unfolding recv_timeout_def by (intro recv_frame_plain) (simp_all add: stream_of_def)
  then have h: "perform_handshake B d c (e_control ?env) = Ok (Some (?s1\<lparr>rx := frame_bytes [RESP_OK]\<rparr>, RESP_OK, ports))"
    using hs ctl parse_response_bytes [OF ports(2)] by (simp add: perform_handshake_def send_timeout_plain)
  have "recv_with_timeout (?s1\<lparr>rx := frame_bytes [RESP_OK]\<rparr>) T = (?s1\<lparr>rx := frame_bytes [RESP_OK]\<rparr>\<lparr>rx := []\<rparr>, Ok [RESP_OK])" for T
    by (intro recv_frame_plain) (simp_all add: stream_of_def)
  then have "confirmation_code (?s1\<lparr>rx := frame_bytes [RESP_OK]\<rparr>) ?fs = Ok 0"
    by (simp add: confirmation_code_def recv_final_status_def Let_def)
  then show ?thesis
    using setup_transfer_ready [OF cr] h rw ports(1) by (simp add: run_client_def transfer_chunks_def)
qed

lemma link_session:
  assumes B: "blake3_ok B" and ne: "content \<noteq> []" and A: "distributed (r_num_chunks rc0) K A"
    and l0: "link_ok B content K A rid rc0 (\<lambda>_. 0) sc" and fh: "r_full_hash rc0 = b3_hash B content" and pl: "plain_stream s1"
    and sched: "waits_on sched" "list_all (\<lambda>w. w < length A) (all_turns sched)" "served_all A (count_list (all_turns sched))"
  shows "\<exists>srv2 srv3 s3. wait_for_completion B (fst sc) rid (rounds_of B rid sc sched) = (srv2, True)
    \<and> control_close S B srv2 s1 rid ports = ((srv3, s3), Ok ()) \<and> tx s3 = tx s1 @ frame_bytes [RESP_OK]
    \<and> files (sdisk srv3) (receiver_final rc0) = Some content"
    and "\<forall>w < length A. \<exists>R. answers K (A ! w) R
      \<and> tx (snd (foldl (serve B rid) sc (all_turns sched)) w) = server_bytes R (length (A ! w))"
proof -
  have srvd: "served_all A (\<lambda>w. 0 + count_list (all_turns sched) w)" using sched(3) by simp
  obtain srvx conns where run: "foldl (serve B rid) sc (all_turns sched) = (srvx, conns)" by (metis surj_pair)
  have "link_ok B content K A rid rc0 (\<lambda>w. 0 + count_list (all_turns sched) w) (srvx, conns)"
    using link_run [OF B ne A l0 sched(2)] run by simp
  from link_carried [OF this srvd] run show "\<forall>w < length A. \<exists>R. answers K (A ! w) R
      \<and> tx (snd (foldl (serve B rid) sc (all_turns sched)) w) = server_bytes R (length (A ! w))" by simp
  from link_wait [OF B ne A l0 sched(1,2) srvd] obtain n' srv2 conns' where
    w: "wait_for_completion B (fst sc) rid (rounds_of B rid sc sched) = (srv2, True)"
    and l2: "link_ok B content K A rid rc0 n' (srv2, conns')" and compl: "is_complete (receivers srv2 ! rid)" by auto
  have oc2: "on_course B content (receivers srv2 ! rid) (sdisk srv2)" and hl2: "\<And>p. healthy (sdisk srv2) p"
    and same2: "same_transfer rc0 (receivers srv2 ! rid)" using l2 by (auto simp: link_ok_def)
  have "r_full_hash (receivers srv2 ! rid) = b3_hash B content" using same2 fh by (simp add: same_transfer_def)
  from close_honest [OF B ne oc2 hl2 this compl pl] obtain srv3 s3 where
    "control_close S B srv2 s1 rid ports = ((srv3, s3), Ok ())" "tx s3 = tx s1 @ frame_bytes [RESP_OK]"
    "files (sdisk srv3) (receiver_final (receivers srv2 ! rid)) = Some content" by blast
  then show "\<exists>srv2 srv3 s3. wait_for_completion B (fst sc) rid (rounds_of B rid sc sched) = (srv2, True)
    \<and> control_close S B srv2 s1 rid ports = ((srv3, s3), Ok ()) \<and> tx s3 = tx s1 @ frame_bytes [RESP_OK]
    \<and> files (sdisk srv3) (receiver_final rc0) = Some content"
    using w same_transfer_paths(3) [OF same2] by (intro exI conjI) simp_all
qed

text \<open>The handshake of a ready client opens the transfer on a server that has the chunks of \<open>K\<close>.\<close>

lemma transfer_opens:
  assumes B: "blake3_ok B" and cr: "client_ready cd c content name" and n: "n = chunk_total content (c_chunk_size c)"
    and sa: "server_accepts S os_free srv output_dir temp_dir mp name n"
    and K: "\<not> {..<n} \<subseteq> K" and hd: "half_done B content (request_of B c content name) output_dir temp_dir K (sdisk srv)"
    and ports: "ports = offered_ports os_free srv n mp" "rid = length (receivers srv)"
  obtains hs srv1 s1 rc0 where "build_handshake B cd (c_filepath c) (c_chunk_size c) = Ok hs"
    and "control_open S B os_free srv (stream_of (frame_bytes hs)) output_dir temp_dir mp = ((srv1, s1), Ok (Waiting rid ports))"
    and "\<forall>p \<in> set ports. get_receiver srv1 p = Some rid"
    and "plain_stream s1" "tx s1 = frame_bytes (response_bytes RESP_OK ports)"
    and "r_num_chunks rc0 = n" "r_full_hash rc0 = b3_hash B content" "receiver_final rc0 = path_of (output_dir @ ''/'' @ name)"
    and "\<forall>A. link_ok B content K A rid rc0 (\<lambda>_. 0) (srv1, \<lambda>w. stream_of (client_bytes B (c_chunk_size c) content (A ! w)))"
proof -
  let ?h = "request_of B c content name"
  let ?rc = "receiver_of ?h output_dir temp_dir"
  obtain hs s where hs: "build_handshake B cd (c_filepath c) (c_chunk_size c) = Ok hs" "parse_handshake hs = Ok ?h"
    "recv_timeout (stream_of (frame_bytes hs)) = (s, Ok hs)" using client_handshake [OF B cr] by blast
  note sad = server_acceptsD [OF sa]
  note ok = parse_handshake_sound [OF hs(2)] and ds = request_describes [OF cr, of B]
  have "\<not> {..<h_num_chunks ?h} \<subseteq> K" using K n by simp
  from resume_half_done [OF hd sad(4) ok sad(2,3) this] obtain rc where
    rc: "resume_receiver B ?rc (sdisk srv) = ((rc, sdisk srv), Ok False)" "on_course B content rc (sdisk srv)" "same_transfer ?rc rc"
      "\<And>j. j < n \<Longrightarrow> received_chunks rc ! j \<longleftrightarrow> j \<in> K" unfolding request_of_simps n by metis
  have rn: "r_num_chunks rc = h_num_chunks ?h" using rc(3) by (simp add: same_transfer_def)
  have "server_accepts S os_free srv output_dir temp_dir mp (h_safe_name ?h) (h_num_chunks ?h)" using sa n by simp
  from control_open_ready [OF B hs(3,2) plain_stream_of this rc(1) rn] obtain srv1 s1 where
    o: "control_open S B os_free srv (stream_of (frame_bytes hs)) output_dir temp_dir mp = ((srv1, s1), Ok (Waiting rid ports))"
    and route: "\<forall>p \<in> set ports. get_receiver srv1 p = Some rid" unfolding request_of_simps ports n by blast
  note op = control_open_transfer [OF B plain_stream_of sad(2,3) hs(3,2) rc(1) o]
  have hl: "healthy (sdisk srv1) p" for p using sad(4) unfolding op(3) .
  have "link_ok B content K A rid ?rc (\<lambda>_. 0) (srv1, \<lambda>w. stream_of (client_bytes B (c_chunk_size c) content (A ! w)))" for A
    using link_start [OF op(1) _ hl, of B content ?rc K A] rc op(2,3) n by simp
  note link = this
  have s1: "tx s1 = frame_bytes (response_bytes RESP_OK ports)" using op(5) by (simp add: stream_of_def)
  have rcs: "r_num_chunks ?rc = n" "receiver_final ?rc = path_of (output_dir @ ''/'' @ name)"
    using n receiver_of_final [of ?h output_dir temp_dir] by simp_all
  show thesis
    by (rule that [OF hs(1) o route op(4) s1 rcs(1) describes_on_course(2) [OF ok ds sad(2,3)] rcs(2)]) (rule allI, rule link)
qed

text \<open>The run of a client whose file the server has in part: \<open>A\<close> are the chunks that each worker sends.\<close>

lemma missing_chunks_run:
  assumes B: "blake3_ok B" and cr: "client_ready cd c content name" and n: "n = chunk_total content (c_chunk_size c)"
    and sa: "server_accepts S os_free srv output_dir temp_dir mp name n"
    and K: "K \<subset> {..<n}" and hd: "half_done B content (request_of B c content name) output_dir temp_dir K (sdisk srv)"
    and ports: "ports = offered_ports os_free srv n mp" "A = missing K (setup_workers c n ports)" "rid = length (receivers srv)"
    and sched: "waits_on sched" "list_all (\<lambda>w. w < length A) (all_turns sched)"
      "\<forall>w < length A. length (A ! w) < count_list (all_turns sched) w"
  shows "\<exists>hs srv1 s1 start conns srv2 s2. build_handshake B cd (c_filepath c) (c_chunk_size c) = Ok hs
    \<and> control_open S B os_free srv (stream_of (frame_bytes hs)) output_dir temp_dir mp = ((srv1, s1), Ok (Waiting rid ports))
    \<and> (\<forall>w < length A. get_receiver srv1 (ports ! (w mod length ports)) = Some rid)
    \<and> start = (srv1, \<lambda>w. stream_of (client_bytes B (c_chunk_size c) content (A ! w)))
    \<and> conns = snd (foldl (serve B rid) start (all_turns sched))
    \<and> handle_control_connection S B os_free srv (stream_of (frame_bytes hs)) output_dir temp_dir mp (rounds_of B rid start sched)
        = ((srv2, s2), Ok True)
    \<and> files (sdisk srv2) (path_of (output_dir @ ''/'' @ name)) = Some content
    \<and> run_client B cd c (network_of s2 conns) = Ok (0, False)
    \<and> (\<forall>w < length A. tx (w_stream (fst (spawn_worker B cd c (network_of s2 conns) (word_of_nat (length content)) w
          (ports ! (w mod length ports)) (setup_workers c n ports ! w)))) = client_bytes B (c_chunk_size c) content (A ! w))"
proof -
  have nK: "\<not> {..<n} \<subseteq> K" using K by blast
  obtain hs srv1 s1 rc0 where
    hs: "build_handshake B cd (c_filepath c) (c_chunk_size c) = Ok hs"
    and o: "control_open S B os_free srv (stream_of (frame_bytes hs)) output_dir temp_dir mp = ((srv1, s1), Ok (Waiting rid ports))"
    and s1: "\<forall>p \<in> set ports. get_receiver srv1 p = Some rid" "plain_stream s1" "tx s1 = frame_bytes (response_bytes RESP_OK ports)"
    and rc0: "r_num_chunks rc0 = n" "r_full_hash rc0 = b3_hash B content" "receiver_final rc0 = path_of (output_dir @ ''/'' @ name)"
    and l0: "\<forall>A. link_ok B content K A rid rc0 (\<lambda>_. 0) (srv1, \<lambda>w. stream_of (client_bytes B (c_chunk_size c) content (A ! w)))"
    by (rule transfer_opens [OF B cr n sa nK hd ports(1,3)])
  have ne: "content \<noteq> []" "0 < n" using cr chunk_total_bounds(1) by (simp_all add: client_ready_def n)
  have len: "ports \<noteq> []" "length ports < 256"
    using server_acceptsD(7,8,10) [OF sa] ne(2) by (auto simp: ports(1) offered_ports_def)
  have of: "setup_workers c n ports = offer c content ports" by (simp add: offer_def n)
  have A: "distributed (r_num_chunks rc0) K A"
    using missing_distributed [OF offer_distributed [OF cr len(1), folded n] psubset_imp_subset [OF K]] rc0(1) ports(2) of by simp
  have srvd: "served_all A (count_list (all_turns sched))" using sched(3) by (simp add: served_all_def)
  let ?start = "(srv1, \<lambda>w. stream_of (client_bytes B (c_chunk_size c) content (A ! w)))"
  note ls = link_session [OF B ne(1) A spec [OF l0] rc0(2) s1(2) sched(1,2) srvd]
  from ls(1) [of S ports] obtain srv2 srv3 s3 where
    w: "wait_for_completion B srv1 rid (rounds_of B rid ?start sched) = (srv2, True)"
    and cl: "control_close S B srv2 s1 rid ports = ((srv3, s3), Ok ())" "tx s3 = tx s1 @ frame_bytes [RESP_OK]"
      "files (sdisk srv3) (path_of (output_dir @ ''/'' @ name)) = Some content" unfolding rc0(3) by auto
  have h: "handle_control_connection S B os_free srv (stream_of (frame_bytes hs)) output_dir temp_dir mp
      (rounds_of B rid ?start sched) = ((srv3, s3), Ok True)"
    using o w cl(1) by (simp add: handle_control_connection_def)
  note client = client_completes [OF B cr len cl(2) [unfolded s1(3)] ports(2) [unfolded of] ls(2)]
  have "tx (w_stream (fst (spawn_worker B cd c (network_of s3 (snd (foldl (serve B rid) ?start (all_turns sched))))
      (word_of_nat (length content)) w (ports ! (w mod length ports)) (setup_workers c n ports ! w))))
      = client_bytes B (c_chunk_size c) content (A ! w)" if "w < length A" for w
    using client_workers [OF cr len(1) ports(2) [unfolded of] ls(2) that, of B s3] unfolding of by (metis fst_conv)
  then have "\<forall>w < length A. tx (w_stream (fst (spawn_worker B cd c (network_of s3 (snd (foldl (serve B rid) ?start (all_turns sched))))
      (word_of_nat (length content)) w (ports ! (w mod length ports)) (setup_workers c n ports ! w))))
      = client_bytes B (c_chunk_size c) content (A ! w)" by blast
  then show ?thesis using hs o h cl(3) client s1(1) len(1) by (intro exI conjI) simp_all
qed

section \<open>Properties\<close>

text \<open>C3: The whole program on one network: a client with a nonempty file and a server that has neither the
  file nor metadata of it run to the end, in whatever order the server's data connections are served. Each
  side reads exactly the bytes the other one writes, on the control connection and on every data
  connection; every data port leads to the transfer; the server ends with the client's file under the
  announced name, and the client, which has sent every chunk exactly once, exits with code 0.\<close>

theorem client_server_transfer:
  assumes B: "blake3_ok B" and cr: "client_ready cd c content name"
    and n: "n = chunk_total content (c_chunk_size c)" and sr: "server_ready S os_free srv output_dir temp_dir mp name n"
    and ports: "ports = offered_ports os_free srv n mp" "A = setup_workers c n ports" "rid = length (receivers srv)"
    and sched: "waits_on sched" "list_all (\<lambda>w. w < length A) (all_turns sched)"
      "\<forall>w < length A. length (A ! w) < count_list (all_turns sched) w"
  shows "\<exists>hs srv1 s1 start conns srv2 s2. build_handshake B cd (c_filepath c) (c_chunk_size c) = Ok hs
    \<and> control_open S B os_free srv (stream_of (frame_bytes hs)) output_dir temp_dir mp = ((srv1, s1), Ok (Waiting rid ports))
    \<and> (\<forall>w < length A. get_receiver srv1 (ports ! (w mod length ports)) = Some rid)
    \<and> start = (srv1, \<lambda>w. stream_of (client_bytes B (c_chunk_size c) content (A ! w)))
    \<and> conns = snd (foldl (serve B rid) start (all_turns sched))
    \<and> handle_control_connection S B os_free srv (stream_of (frame_bytes hs)) output_dir temp_dir mp (rounds_of B rid start sched)
        = ((srv2, s2), Ok True)
    \<and> files (sdisk srv2) (path_of (output_dir @ ''/'' @ name)) = Some content
    \<and> run_client B cd c (network_of s2 conns) = Ok (0, False)
    \<and> (\<forall>w < length A. tx (w_stream (fst (spawn_worker B cd c (network_of s2 conns) (word_of_nat (length content)) w
          (ports ! (w mod length ports)) (A ! w)))) = client_bytes B (c_chunk_size c) content (A ! w))"
proof -
  have sa: "server_accepts S os_free srv output_dir temp_dir mp name n" and
    nometa: "files (sdisk srv) (meta_file temp_dir name) = None" using sr by (simp_all add: server_ready_def)
  obtain hs s where hs: "build_handshake B cd (c_filepath c) (c_chunk_size c) = Ok hs"
    "parse_handshake hs = Ok (request_of B c content name)" using client_handshake [OF B cr] by blast
  have hd: "half_done B content (request_of B c content name) output_dir temp_dir {} (sdisk srv)"
    using half_done_none [OF parse_handshake_sound [OF hs(2)] request_describes [OF cr] server_acceptsD(2,3) [OF sa]] nometa by simp
  have "0 < n" using cr chunk_total_bounds(1) by (simp add: client_ready_def n)
  then have K: "{} \<subset> {..<n}" by blast
  have "A = missing {} (setup_workers c n ports)" using ports(2) by simp
  from missing_chunks_run [OF B cr n sa K hd ports(1) this ports(3) sched] show ?thesis unfolding ports(2) .
qed

text \<open>A schedule of two workers with one chunk each, both connections served alternately.\<close>

definition ex_schedule :: schedule where
  "ex_schedule = [([0, 1, 0], Slept), ([1], ReadByte)]"

lemma ex_client_ready: "client_ready ex_source ex_client [1, 2, 3] ''f''"
proof -
  have "sent_name ''f'' = Some ''f''" "length ''f'' \<le> MAX_FILENAME_LEN" "2 + 48 \<le> MAX_PAYLOAD"
    "chunk_total [1, 2, 3 :: u8] 2 \<le> MAX_CHUNKS" by code_simp+
  then show ?thesis by (simp add: client_ready_def ex_client_def ex_source_def)
qed

lemma ex_ports:
  "take 2 (free_ports (\<lambda>_. True) (server_new counter empty_disk)) = [45000, 45001]"
  "2 \<le> length (free_ports (\<lambda>_. True) (server_new counter empty_disk))"
proof -
  let ?S = "server_new counter empty_disk"
  have "sockets_to_ports (bind_loop (can_bind (\<lambda>_. True) ?S) 2 DATA_PORT_START) = [45000, 45001]" by code_simp
  then show two: "take 2 (free_ports (\<lambda>_. True) ?S) = [45000, 45001]" by (simp add: bind_loop_ports)
  show "2 \<le> length (free_ports (\<lambda>_. True) ?S)" using arg_cong [OF two, of length] by simp
qed

lemma ex_server_ready: "server_ready counter (\<lambda>_. True) (server_new counter empty_disk) ''out'' ''tmp'' 100 ''f'' 2"
proof -
  have "available counter (server_new counter empty_disk) = 1001" by code_simp
  then show ?thesis using ex_ports(2) counter_ok
    by (simp add: server_ready_def server_accepts_def) (simp add: server_new_def, simp add: empty_disk_def)
qed

lemma client_server_transfer_witness:
  "\<exists>hs srv2 s2 conns rounds. handle_control_connection counter toy_blake3 (\<lambda>_. True) (server_new counter empty_disk)
       (stream_of (frame_bytes hs)) ''out'' ''tmp'' 100 rounds = ((srv2, s2), Ok True)
     \<and> files (sdisk srv2) (path_of ''out/f'') = Some [1, 2, 3]
     \<and> run_client toy_blake3 ex_source ex_client (network_of s2 conns) = Ok (0, False)"
proof -
  let ?S = "server_new counter empty_disk"
  have A: "setup_workers ex_client 2 [45000, 45001] = [[0], [1]]" and n: "2 = chunk_total [1, 2, 3 :: u8] (c_chunk_size ex_client)"
    by code_simp+
  have p: "[45000, 45001] = offered_ports (\<lambda>_. True) ?S 2 100" by (simp add: offered_ports_def ex_ports(1))
  have s: "waits_on ex_schedule" "list_all (\<lambda>w. w < length [[0], [1 :: nat]]) (all_turns ex_schedule)"
    "\<forall>w < length [[0], [1 :: nat]]. length ([[0], [1]] ! w) < count_list (all_turns ex_schedule) w"
    by (simp_all add: waits_on_def all_turns_def ex_schedule_def less_Suc_eq)
  have r: "0 = length (receivers ?S)" by (simp add: server_new_def)
  show ?thesis
    using client_server_transfer [OF toy_blake3_ok ex_client_ready n ex_server_ready p A [symmetric] r s] by fastforce
qed

end
