(* ===== verification/Transfers.thy ===== *)
theory Transfers
  imports Control
begin

text \<open>
  Many transfers on one server: the task that serves a data port (\<open>spawn_data_servers\<close>), and the steps
  by which control connections open and close transfers while data connections run. The ports of live
  transfers, the permits and the registry are related by an invariant as long as no port task dies.
\<close>

section \<open>The task of a data port\<close>

text \<open>The task owns the listener; when the loop ends or a connection panics, the listener is dropped.\<close>

definition drop_listener :: "'p server \<Rightarrow> u16 \<Rightarrow> 'p server" where
  "drop_listener srv port = srv\<lparr>bound := bound srv - {port}\<rparr>"

text \<open>One list element per \<open>accept\<close>: a connection, or \<open>None\<close> for an error.\<close>

fun serve_port :: "'h blake3 \<Rightarrow> 'p server \<Rightarrow> u16 \<Rightarrow> stream option list \<Rightarrow> 'p server" where
  "serve_port B srv port [] = srv"
| "serve_port B srv port (None # accepts) = drop_listener srv port"
| "serve_port B srv port (Some s # accepts) =
     (case handle_data_connection B srv s port of
        ((srv', s'), Panic) \<Rightarrow> drop_listener srv' port
      | ((srv', s'), _) \<Rightarrow> serve_port B srv' port accepts)"

section \<open>Opening and closing transfers\<close>

record 'p transfers =
  t_server :: "'p server"
  t_live :: "(nat \<times> u16 list) list"
  t_leaked :: nat
  t_opened :: nat

definition held :: "'p transfers \<Rightarrow> u16 list" where
  "held t = concat (map snd (t_live t))"

text \<open>
  \<open>opens\<close>: a control connection has sent its ports and waits. \<open>refuses\<close>: it ends without having come
  that far; what it has taken from the pool is lost. Two counters that no code has keep
  account: \<open>t_leaked\<close> of the permits lost, \<open>t_opened\<close> of the ports handed out so far. The environment chooses the free ports
  and the streams anew at every step.
\<close>

inductive transfer_step :: "'p semaphore \<Rightarrow> 'h blake3 \<Rightarrow> 'p transfers \<Rightarrow> 'p transfers \<Rightarrow> bool"
  for S :: "'p semaphore" and B :: "'h blake3" where
  opens: "transfer_step S B t (t\<lparr>t_server := srv', t_live := (rid, ports) # t_live t, t_opened := t_opened t + length ports\<rparr>)"
    if "open_ports S os_free (t_server t) s rc mp = ((srv', s'), Ok (Waiting rid ports))"
    and "min (r_num_chunks rc) mp < 2 ^ 32"
| refuses: "transfer_step S B t (t\<lparr>t_server := srv', t_leaked := t_leaked t + (available S (t_server t) - available S srv')\<rparr>)"
    if "open_ports S os_free (t_server t) s rc mp = ((srv', s'), r)" and "r = Ok Finished \<or> r = Err e"
    and "min (r_num_chunks rc) mp < 2 ^ 32"
| turns: "transfer_step S B t (t\<lparr>t_server := data_turn B (t_server t) (rid, s)\<rparr>)"
| serves: "transfer_step S B t (t\<lparr>t_server := serve_port B (t_server t) port accepts\<rparr>)"
| closes: "transfer_step S B t (t\<lparr>t_server := srv', t_live := remove1 (rid, ports) (t_live t)\<rparr>)"
    if "(rid, ports) \<in> set (t_live t)"
    and "control_close S B (t_server t) s rid ports = ((srv', s'), Ok u)"

text \<open>Steps in which no port task dies.\<close>

definition lively_step :: "'p semaphore \<Rightarrow> 'h blake3 \<Rightarrow> 'p transfers \<Rightarrow> 'p transfers \<Rightarrow> bool" where
  "lively_step S B t t' \<longleftrightarrow> transfer_step S B t t' \<and> bound (t_server t) \<subseteq> bound (t_server t')"

definition transfers_start :: "'p semaphore \<Rightarrow> disk \<Rightarrow> 'p transfers" where
  "transfers_start S d = \<lparr>t_server = server_new S d, t_live = [], t_leaked = 0, t_opened = 0\<rparr>"

definition data_ports :: "u16 set" where
  "data_ports = {DATA_PORT_START..DATA_PORT_END}"

definition transfers_inv :: "'p semaphore \<Rightarrow> 'p transfers \<Rightarrow> bool" where
  "transfers_inv S t \<longleftrightarrow>
     distinct (held t) \<and> set (held t) \<subseteq> bound (t_server t) \<and> distinct (map fst (t_live t))
   \<and> (\<forall>(rid, ports) \<in> set (t_live t). rid < length (receivers (t_server t))
        \<and> (\<forall>p \<in> set ports. get_receiver (t_server t) p = Some rid))
   \<and> available S (t_server t) + length (held t) + t_leaked t = TOTAL_DATA_PORTS
   \<and> bound (t_server t) \<subseteq> data_ports \<and> t_opened t \<le> card (bound (t_server t))"

lemma data_ports_card: "finite data_ports" "card data_ports = TOTAL_DATA_PORTS"
proof -
  have e: "data_ports = set (ports_from 45000)"
    by (auto simp: data_ports_def set_ports_from DATA_PORT_START_def DATA_PORT_END_def word_le_nat_alt)
  show "finite data_ports" unfolding e by simp
  have "length (ports_from 45000) = 1001" by (simp add: ports_from_def)
  then show "card data_ports = TOTAL_DATA_PORTS"
    unfolding e TOTAL_DATA_PORTS_value distinct_card [OF distinct_ports] .
qed

section \<open>What the steps leave alone\<close>

definition same_shared :: "'p server \<Rightarrow> 'p server \<Rightarrow> bool" where
  "same_shared srv srv' \<longleftrightarrow> pool srv' = pool srv \<and> registry srv' = registry srv
     \<and> length (receivers srv') = length (receivers srv)"

lemma same_shared_trans: "same_shared a b \<Longrightarrow> same_shared b c \<Longrightarrow> same_shared a c"
  by (simp add: same_shared_def)

lemma connection_shared:
  "handle_data_connection B srv s port = ((srv', s'), r) \<Longrightarrow> same_shared srv srv' \<and> bound srv' = bound srv"
  by (auto simp: handle_data_connection_def same_shared_def split: option.splits res.splits prod.splits)

lemma serve_port_shared:
  "same_shared srv (serve_port B srv port accepts)
   \<and> (bound (serve_port B srv port accepts) = bound srv \<or> bound (serve_port B srv port accepts) = bound srv - {port})"
proof (induction B srv port accepts rule: serve_port.induct)
  case (3 B srv port s accepts)
  obtain srv' s' r where h: "handle_data_connection B srv s port = ((srv', s'), r)" by (metis surj_pair)
  note c = connection_shared [OF h]
  show ?case
  proof (cases r)
    case Panic
    then show ?thesis using c h by (simp add: drop_listener_def same_shared_def)
  next
    case (Ok u)
    then show ?thesis using "3.IH"(1) [OF h [symmetric] refl Ok] c h same_shared_trans [of srv srv'] by auto
  next
    case (Err e)
    then show ?thesis using "3.IH"(2) [OF h [symmetric] refl Err] c h same_shared_trans [of srv srv'] by auto
  qed
qed (simp_all add: same_shared_def drop_listener_def)

lemma turn_shared: "same_shared srv (data_turn B srv x) \<and> bound (data_turn B srv x) = bound srv"
  using data_turn_shared [of B srv x] data_turn_same [of srv 0 B x] by (simp add: same_shared_def)

lemma open_ports_facts:
  assumes S: "sem_ok S" and n: "min (r_num_chunks rc) mp < 2 ^ 32"
    and o: "open_ports S os_free srv s rc mp = ((srv', s'), Ok (Waiting rid ports))"
  shows "distinct ports" "set ports \<inter> bound srv = {}" "set ports \<subseteq> data_ports" "bound srv' = bound srv \<union> set ports"
    and "available S srv' + length ports = available S srv"
    and "get_receiver srv' p = (if p \<in> set ports then Some rid else get_receiver srv p)"
    and "rid = length (receivers srv)" "length (receivers srv') = Suc (length (receivers srv))"
proof -
  note op = open_ports_Waiting [OF S n o]
  show "distinct ports" "set ports \<inter> bound srv = {}" "set ports \<subseteq> data_ports"
    unfolding data_ports_def using op(1) free_ports_facts(1) [of os_free srv] free_ports_facts(2) [of _ os_free srv]
    by (auto dest!: in_set_takeD)
  show "bound srv' = bound srv \<union> set ports" "available S srv' + length ports = available S srv"
    "rid = length (receivers srv)" "length (receivers srv') = Suc (length (receivers srv))"
    using op by simp_all
  show "get_receiver srv' p = (if p \<in> set ports then Some rid else get_receiver srv p)"
    using op(5) by (simp add: get_receiver_def)
qed

lemma allocate_failed:
  assumes S: "sem_ok S" and n: "num = min count mp" "num < 2 ^ 32"
    and al: "allocate_sockets S os_free srv count mp = (srv', r)" and r: "\<not> is_ok r"
  shows "available S srv' \<le> available S srv \<and> srv'\<lparr>pool := pool srv\<rparr> = srv"
proof -
  note cs = allocate_sockets_cases [OF S n al]
  consider "available S srv < num" | "num \<le> available S srv" "length (free_ports os_free srv) < num"
    | "num \<le> available S srv" "num \<le> length (free_ports os_free srv)" by linarith
  then show ?thesis using cs r by cases auto
qed

lemma open_ports_taken:
  assumes S: "sem_ok S" and n: "min (r_num_chunks rc) mp < 2 ^ 32"
    and o: "open_ports S os_free srv s rc mp = ((srv', s'), r)"
  shows "available S srv' \<le> available S srv \<and> bound srv \<subseteq> bound srv' \<and> bound srv' \<subseteq> bound srv \<union> data_ports
    \<and> (\<forall>p \<in> bound srv. get_receiver srv' p = get_receiver srv p) \<and> length (receivers srv) \<le> length (receivers srv')"
proof -
  obtain srv1 a where al: "allocate_sockets S os_free srv (r_num_chunks rc) mp = (srv1, a)" by (metis surj_pair)
  show ?thesis
  proof (cases "is_ok a")
    case True
    then obtain socks where a: "a = Ok socks" by (auto simp: is_ok_iff)
    obtain q srv3 where f: "q = take (min (r_num_chunks rc) mp) (free_ports os_free srv)" "length q = min (r_num_chunks rc) mp"
      "available S srv3 + length q = available S srv" "bound srv3 = bound srv \<union> set q"
      "registry srv3 = (\<lambda>p. if p \<in> set q then Some (length (receivers srv)) else registry srv p)"
      "receivers srv3 = receivers srv @ [rc]" "sdisk srv3 = sdisk srv"
      "r = Ok (Waiting (length (receivers srv)) q) \<and> srv' = srv3 \<or> \<not> is_ok r \<and> srv' = drop_sockets srv3 q"
      by (rule open_ports_allocated [OF S n al [unfolded a] o])
    have q: "set q \<inter> bound srv = {}" "set q \<subseteq> data_ports"
      unfolding f(1) data_ports_def using free_ports_facts(2) [of _ os_free srv] by (auto dest!: in_set_takeD)
    have "srv' = srv3 \<or> srv' = drop_sockets srv3 q" using f(8) by blast
    then show ?thesis using f(3-6) q by (auto simp: drop_sockets_def get_receiver_def available_def)
  next
    case False
    from allocate_failed [OF S refl n al this] have "available S srv1 \<le> available S srv" and e: "srv1\<lparr>pool := pool srv\<rparr> = srv" by simp_all
    moreover have "bound srv1 = bound srv" "registry srv1 = registry srv" "receivers srv1 = receivers srv"
      using arg_cong [OF e, of bound] arg_cong [OF e, of registry] arg_cong [OF e, of receivers] by simp_all
    moreover have "srv' = srv1" using o al False by (auto simp: open_ports_def is_ok_iff split: prod.splits res.splits)
    ultimately show ?thesis by (simp add: get_receiver_def)
  qed
qed

section \<open>The invariant\<close>

lemma held_Cons: "held (t\<lparr>t_server := srv, t_live := x # t_live t\<rparr>) = snd x @ held t"
  by (simp add: held_def)

text \<open>A live transfer keeps its registry entries when only other ports change.\<close>

lemma live_ports_held: "(rid, ports) \<in> set (t_live t) \<Longrightarrow> set ports \<subseteq> set (held t)"
  by (force simp: held_def)

lemma transfers_invD:
  assumes "transfers_inv S t"
  shows "distinct (held t)" "set (held t) \<subseteq> bound (t_server t)" "distinct (map fst (t_live t))"
    and "\<And>r ps. (r, ps) \<in> set (t_live t) \<Longrightarrow>
      r < length (receivers (t_server t)) \<and> (\<forall>p \<in> set ps. get_receiver (t_server t) p = Some r)"
    and "available S (t_server t) + length (held t) + t_leaked t = TOTAL_DATA_PORTS"
    and "bound (t_server t) \<subseteq> data_ports" "t_opened t \<le> card (bound (t_server t))"
  using assms by (auto simp: transfers_inv_def)

lemma transfers_inv_shared:
  assumes "transfers_inv S t" "same_shared (t_server t) srv'" "bound srv' = bound (t_server t)"
  shows "transfers_inv S (t\<lparr>t_server := srv'\<rparr>)"
  using assms by (fastforce simp: transfers_inv_def same_shared_def held_def get_receiver_def available_def)

lemma transfers_inv_opens:
  assumes inv: "transfers_inv S t" and S: "sem_ok S" and n: "min (r_num_chunks rc) mp < 2 ^ 32"
    and o: "open_ports S os_free (t_server t) s rc mp = ((srv', s'), Ok (Waiting rid ports))"
  shows "transfers_inv S (t\<lparr>t_server := srv', t_live := (rid, ports) # t_live t, t_opened := t_opened t + length ports\<rparr>)"
proof -
  let ?srv = "t_server t" and ?t' = "t\<lparr>t_server := srv', t_live := (rid, ports) # t_live t, t_opened := t_opened t + length ports\<rparr>"
  note f = open_ports_facts [OF S n o]
  have held: "held ?t' = ports @ held t" by (simp add: held_def)
  note dh = transfers_invD(1) [OF inv] and hb = transfers_invD(2) [OF inv] and live = transfers_invD(4) [OF inv]
    and av = transfers_invD(5) [OF inv] and rg = transfers_invD(6,7) [OF inv]
  have "distinct (held ?t')" "set (held ?t') \<subseteq> bound srv'" using f(1,2,4) hb dh unfolding held by auto
  moreover have "rid \<notin> fst ` set (t_live t)" using live f(7) by fastforce
  then have "distinct (map fst (t_live ?t'))" using transfers_invD(3) [OF inv] by simp
  moreover have "r < length (receivers srv') \<and> (\<forall>p \<in> set ps. get_receiver srv' p = Some r)"
    if "(r, ps) \<in> set (t_live ?t')" for r ps
  proof (cases "(r, ps) \<in> set (t_live t)")
    case True
    then have "p \<notin> set ports" if "p \<in> set ps" for p using that live_ports_held hb f(2) by blast
    then show ?thesis using live [OF True] f(6,8) by auto
  next
    case False
    then show ?thesis using that f(6,7,8) by simp
  qed
  moreover have "available S srv' + length (held ?t') + t_leaked ?t' = TOTAL_DATA_PORTS"
    using av f(5) unfolding held by simp
  moreover have "bound srv' \<subseteq> data_ports" using rg(1) f(3,4) by simp
  moreover have "card (bound srv') = card (bound ?srv) + length ports"
    using f(1,2,4) finite_subset [OF rg(1) data_ports_card(1)]
    by (simp add: card_Un_disjoint distinct_card Int_commute)
  ultimately show ?thesis using rg(2) unfolding transfers_inv_def by auto
qed

lemma transfers_inv_refuses:
  assumes inv: "transfers_inv S t" and S: "sem_ok S" and n: "min (r_num_chunks rc) mp < 2 ^ 32"
    and o: "open_ports S os_free (t_server t) s rc mp = ((srv', s'), r)"
  shows "transfers_inv S (t\<lparr>t_server := srv', t_leaked := t_leaked t + (available S (t_server t) - available S srv')\<rparr>)"
proof -
  let ?srv = "t_server t"
  let ?t' = "t\<lparr>t_server := srv', t_leaked := t_leaked t + (available S ?srv - available S srv')\<rparr>"
  note f = open_ports_taken [OF S n o]
  note dh = transfers_invD(1) [OF inv] and hb = transfers_invD(2) [OF inv] and live = transfers_invD(4) [OF inv]
    and av = transfers_invD(5) [OF inv] and rg = transfers_invD(6,7) [OF inv]
  have "r < length (receivers srv') \<and> (\<forall>p \<in> set ps. get_receiver srv' p = Some r)"
    if "(r, ps) \<in> set (t_live t)" for r ps
    using live [OF that] live_ports_held [OF that] hb f by (metis order_less_le_trans subset_iff)
  moreover have rg': "bound srv' \<subseteq> data_ports" using f rg(1) by auto
  then have "card (bound ?srv) \<le> card (bound srv')"
    using f finite_subset [OF rg' data_ports_card(1)] by (intro card_mono) simp_all
  moreover have "held ?t' = held t" by (simp add: held_def)
  ultimately show ?thesis using dh hb av rg f rg' transfers_invD(3) [OF inv] unfolding transfers_inv_def by auto
qed

text \<open>A transfer leaves the list of live ones; its ports stay bound, its permits may be lost.\<close>

lemma transfers_inv_drops:
  assumes inv: "transfers_inv S t" and l: "t_live t = xs @ (rid, ports) # ys"
  shows "transfers_inv S (t\<lparr>t_live := xs @ ys, t_leaked := t_leaked t + length ports\<rparr>)"
proof -
  have "held t = concat (map snd xs) @ ports @ concat (map snd ys)" by (simp add: held_def l)
  moreover have "held (t\<lparr>t_live := xs @ ys, t_leaked := k\<rparr>) = concat (map snd xs) @ concat (map snd ys)" for k
    by (simp add: held_def)
  moreover have "set (xs @ ys) \<subseteq> set (t_live t)" using l by auto
  ultimately show ?thesis using inv l unfolding transfers_inv_def by auto
qed

lemma transfers_inv_closes:
  assumes inv: "transfers_inv S t" and S: "sem_ok S" and l: "t_live t = xs @ (rid, ports) # ys"
    and c: "control_close S B (t_server t) s rid ports = ((srv', s'), Ok u)"
  shows "transfers_inv S (t\<lparr>t_server := srv', t_live := xs @ ys\<rparr>)"
proof -
  let ?srv = "t_server t" and ?t' = "t\<lparr>t_server := srv', t_live := xs @ ys\<rparr>"
  obtain d where srv': "srv' = cleanup S (?srv\<lparr>sdisk := d\<rparr>) ports" using control_close_shape [OF c] by blast
  have h: "held t = concat (map snd xs) @ ports @ concat (map snd ys)" "held ?t' = concat (map snd xs) @ concat (map snd ys)"
    by (simp_all add: held_def l)
  note dh = transfers_invD(1) [OF inv] and hb = transfers_invD(2) [OF inv] and live = transfers_invD(4) [OF inv]
    and av = transfers_invD(5) [OF inv] and rg = transfers_invD(6,7) [OF inv]
  have "available S (?srv\<lparr>sdisk := d\<rparr>) + length ports \<le> SEM_MAX_PERMITS"
    using av h(1) unfolding TOTAL_DATA_PORTS_value SEM_MAX_PERMITS_def by (simp add: available_def)
  note cl = cleanup_state [OF S this, folded srv']
  have "available S srv' + length (held ?t') + t_leaked ?t' = TOTAL_DATA_PORTS"
    using cl(1) av h by (simp add: available_def)
  moreover have "distinct (held ?t')" "set (held ?t') \<subseteq> bound srv'" using dh hb h cl(3) by auto
  moreover have "distinct (map fst (t_live ?t'))" using transfers_invD(3) [OF inv] l by simp
  moreover have "r < length (receivers srv') \<and> (\<forall>p \<in> set ps. get_receiver srv' p = Some r)"
    if "(r, ps) \<in> set (t_live ?t')" for r ps
  proof -
    have m: "(r, ps) \<in> set (t_live t)" using that l by auto
    have "set (held ?t') \<inter> set ports = {}" using dh unfolding h by auto
    then have "set ps \<inter> set ports = {}" using live_ports_held [OF that] by blast
    then show ?thesis using live [OF m] cl(2,5) by (auto simp: get_receiver_def)
  qed
  moreover have "bound srv' \<subseteq> data_ports \<and> t_opened ?t' \<le> card (bound srv')" using rg cl(3) by simp
  ultimately show ?thesis unfolding transfers_inv_def by auto
qed

lemma transfers_inv_step:
  assumes S: "sem_ok S" and inv: "transfers_inv S t" and st: "lively_step S B t t'"
  shows "transfers_inv S t'"
proof -
  have b: "bound (t_server t) \<subseteq> bound (t_server t')" and "transfer_step S B t t'"
    using st by (simp_all add: lively_step_def)
  from \<open>transfer_step S B t t'\<close> show ?thesis
  proof cases
    case (opens os_free s rc mp srv' s' rid ports)
    then show ?thesis using transfers_inv_opens [OF inv S] by simp
  next
    case (refuses os_free s rc mp srv' s' r e)
    then show ?thesis using transfers_inv_refuses [OF inv S] by simp
  next
    case (turns rid s)
    then show ?thesis using transfers_inv_shared [OF inv] turn_shared [of "t_server t" B] by simp
  next
    case (serves port accepts)
    then have "bound (t_server t') = bound (t_server t)"
      using serve_port_shared [of "t_server t" B port accepts] b by auto
    then show ?thesis
      using transfers_inv_shared [OF inv] serve_port_shared [of "t_server t" B port accepts] serves by simp
  next
    case (closes rid ports s srv' s' u)
    obtain xs ys where l: "t_live t = xs @ (rid, ports) # ys" "(rid, ports) \<notin> set xs" using closes(2) by (meson split_list_first)
    then have "remove1 (rid, ports) (t_live t) = xs @ ys" by (simp add: remove1_append)
    then show ?thesis using transfers_inv_closes [OF inv S l(1) closes(3)] closes(1) by simp
  qed
qed

lemma transfers_inv_start: "sem_ok S \<Longrightarrow> transfers_inv S (transfers_start S d)"
  by (simp add: transfers_inv_def transfers_start_def held_def available_def server_new_def
      TOTAL_DATA_PORTS_value SEM_MAX_PERMITS_def sem_okD(1))

interpretation transfers: invariant_system "\<lambda>t. sem_ok S \<and> t = transfers_start S d"
  "lively_step S B" "\<lambda>t. sem_ok S \<and> transfers_inv S t" for S :: "'p semaphore" and B :: "'h blake3" and d
  by unfold_locales (auto intro: transfers_inv_start transfers_inv_step)

section \<open>Properties\<close>

text \<open>Over any number of concurrent transfers on one server, as long as no port task dies: the ports of
  live transfers are pairwise distinct and bound, every one of them is routed to its own transfer's
  receiver, and permits in the pool, ports held and permits lost by failed openings add up to the size
  of the port range.\<close>

theorem transfers_isolated:
  assumes "sem_ok S" "reach (\<lambda>t. t = transfers_start S d) (lively_step S B) t"
  shows "distinct (held t) \<and> set (held t) \<subseteq> bound (t_server t)
    \<and> (\<forall>(rid, ports) \<in> set (t_live t). rid < length (receivers (t_server t))
         \<and> (\<forall>p \<in> set ports. get_receiver (t_server t) p = Some rid))
    \<and> available S (t_server t) + length (held t) + t_leaked t = TOTAL_DATA_PORTS"
  using transfers.reach_inv [of S d B t] assms by (simp add: transfers_inv_def)

text \<open>Data for the witnesses: a second file, and a server on which two transfers are opened after the
  task of the first transfer's first port has died.\<close>

definition ex_receiver2 :: receiver where
  "ex_receiver2 = receiver_new ''g'' 3 2 2 (b3_hash toy_blake3 ex_content) ''out'' ''tmp''"

definition ex_open1 :: "(nat server \<times> stream) \<times> control res" where
  "ex_open1 = open_ports counter (\<lambda>_. True) (server_new counter empty_disk) (stream_of []) ex_receiver 2"

definition ex_died :: "nat server" where
  "ex_died = serve_port toy_blake3 (fst (fst ex_open1)) 45000 [Some (stream_of (frame_bytes [9]))]"

definition ex_open2 :: "(nat server \<times> stream) \<times> control res" where
  "ex_open2 = open_ports counter (\<lambda>_. True) ex_died (stream_of []) ex_receiver2 2"

definition ex_close1 :: "(nat server \<times> stream) \<times> unit res" where
  "ex_close1 = control_close counter toy_blake3 (fst (fst ex_open2)) (stream_of []) 0 [45000, 45001]"

lemma ex_opens:
  "snd ex_open1 = Ok (Waiting 0 [45000, 45001])" "snd ex_open2 = Ok (Waiting 1 [45000, 45002])"
  "snd ex_close1 = Ok ()"
  by code_simp+

lemma opens_from_pair:
  assumes "snd X = Ok (Waiting rid ports)" "X = open_ports S os_free (t_server t) s rc mp"
    and "min (r_num_chunks rc) mp < 2 ^ 32"
  shows "transfer_step S B t (t\<lparr>t_server := fst (fst X), t_live := (rid, ports) # t_live t, t_opened := t_opened t + length ports\<rparr>)"
  using assms by (intro transfer_step.opens [of S os_free t s rc mp "fst (fst X)" "snd (fst X)"]) (metis prod.collapse)+

lemma transfers_isolated_witness:
  "\<exists>t. reach (\<lambda>t. t = transfers_start counter empty_disk) (lively_step counter toy_blake3) t
     \<and> t_live t = [(0, [45000, 45001])] \<and> get_receiver (t_server t) 45001 = Some 0
     \<and> available counter (t_server t) + 2 + t_leaked t = 1001"
proof -
  let ?t0 = "transfers_start counter empty_disk"
  let ?t1 = "?t0\<lparr>t_server := fst (fst ex_open1), t_live := (0, [45000, 45001]) # t_live ?t0,
    t_opened := t_opened ?t0 + length [45000, 45001 :: u16]\<rparr>"
  have "transfer_step counter toy_blake3 ?t0 ?t1"
    by (rule opens_from_pair [OF ex_opens(1)], simp add: ex_open1_def transfers_start_def, simp)
  then have "lively_step counter toy_blake3 ?t0 ?t1"
    by (simp add: lively_step_def transfers_start_def server_new_def)
  then have r: "reach (\<lambda>t. t = transfers_start counter empty_disk) (lively_step counter toy_blake3) ?t1"
    by (intro reach.move [OF reach.start]) simp_all
  have l: "t_live ?t1 = [(0, [45000, 45001])]" by (simp add: transfers_start_def)
  then have h: "held ?t1 = [45000, 45001]" by (simp add: held_def)
  from transfers_isolated [OF counter_ok r]
  have "get_receiver (t_server ?t1) 45001 = Some 0 \<and> available counter (t_server ?t1) + 2 + t_leaked ?t1 = 1001"
    unfolding l h TOTAL_DATA_PORTS_value by simp
  then show ?thesis using r l by blast
qed

text \<open>The server wears out: closed transfers leave their ports bound, so over its whole life a server
  whose port tasks stay alive hands out at most 1001 data ports to all transfers together, although the
  pool gets every permit back.\<close>

theorem ports_wear_out:
  assumes "sem_ok S" "reach (\<lambda>t. t = transfers_start S d) (lively_step S B) t"
  shows "t_opened t \<le> TOTAL_DATA_PORTS"
proof -
  have "bound (t_server t) \<subseteq> data_ports" "t_opened t \<le> card (bound (t_server t))"
    using transfers.reach_inv [of S d B t] assms by (simp_all add: transfers_inv_def)
  then show ?thesis using card_mono [OF data_ports_card(1), of "bound (t_server t)"] data_ports_card(2) by simp
qed

lemma ports_wear_out_witness:
  "\<exists>t. reach (\<lambda>t. t = transfers_start counter empty_disk) (lively_step counter toy_blake3) t \<and> t_opened t \<le> TOTAL_DATA_PORTS"
proof -
  have "reach (\<lambda>t. t = transfers_start counter empty_disk) (lively_step counter toy_blake3) (transfers_start counter empty_disk)"
    by (rule reach.start) simp
  then show ?thesis using ports_wear_out [OF counter_ok] by blast
qed


section \<open>Clients that vanish\<close>

text \<open>A connection that is broken before the response with the ports is written.\<close>

definition unwritable :: "stream \<Rightarrow> bool" where
  "unwritable s \<longleftrightarrow> tx_limit s = Some 0 \<and> tx_delays s = []"

lemma send_handshake_response_unwritable:
  "unwritable s \<Longrightarrow> \<exists>s' e. send_handshake_response s status ports = (s', Err e)"
  by (simp add: unwritable_def send_handshake_response_def send_timeout_def send_within_def send_def write_all_def
      st_bind_def Let_def to_be_bytes_def)

definition vanished ::
  "'p semaphore \<Rightarrow> (u16 \<Rightarrow> bool) \<Rightarrow> usize \<Rightarrow> 'p server \<Rightarrow> (stream \<times> receiver) list \<Rightarrow> 'p server" where
  "vanished S os_free mp srv xs = foldl (\<lambda>srv (s, rc). fst (fst (open_ports S os_free srv s rc mp))) srv xs"

lemma vanished_one:
  assumes S: "sem_ok S" and mp: "mp < 2 ^ 32" "mp \<le> r_num_chunks rc" and s: "unwritable s"
    and free: "mp \<le> length (free_ports os_free srv)" and srv': "srv' = fst (fst (open_ports S os_free srv s rc mp))"
  shows "bound srv' = bound srv \<and> available S srv' = (if mp \<le> available S srv then available S srv - mp else available S srv)"
proof -
  have n: "min (r_num_chunks rc) mp < 2 ^ 32" "min (r_num_chunks rc) mp = mp" using mp by simp_all
  obtain srv1 a where al: "allocate_sockets S os_free srv (r_num_chunks rc) mp = (srv1, a)" by (metis surj_pair)
  note cs = allocate_sockets_cases [OF S n(2) [symmetric] mp(1) al]
  obtain s' r where o: "open_ports S os_free srv s rc mp = ((srv', s'), r)" using srv' by (metis prod.collapse)
  show ?thesis
  proof (cases "mp \<le> available S srv")
    case True
    then obtain socks where a: "a = Ok socks" using cs(3) free by blast
    obtain q srv3 where f: "q = take (min (r_num_chunks rc) mp) (free_ports os_free srv)" "length q = min (r_num_chunks rc) mp"
      "available S srv3 + length q = available S srv" "bound srv3 = bound srv \<union> set q"
      "registry srv3 = (\<lambda>p. if p \<in> set q then Some (length (receivers srv)) else registry srv p)"
      "receivers srv3 = receivers srv @ [rc]" "sdisk srv3 = sdisk srv"
      "r = Ok (Waiting (length (receivers srv)) q) \<and> srv' = srv3 \<or> \<not> is_ok r \<and> srv' = drop_sockets srv3 q"
      by (rule open_ports_allocated [OF S n(1) al [unfolded a] o])
    obtain t e where "send_handshake_response s RESP_OK (sockets_to_ports socks) = (t, Err e)"
      using send_handshake_response_unwritable [OF s] by blast
    then have "\<not> is_ok r" using o al a by (auto simp: open_ports_def share_receiver_def Let_def)
    then have srv': "srv' = drop_sockets srv3 q" using f(8) by (cases r) auto
    have "set q \<inter> bound srv = {}"
      unfolding f(1) using free_ports_facts(2) [of _ os_free srv] by (auto dest!: in_set_takeD)
    then have "bound srv' = bound srv" using f(4) unfolding srv' drop_sockets_def by auto
    moreover have "available S srv' = available S srv - mp"
      using f(2,3) n(2) unfolding srv' by (simp add: available_def drop_sockets_def)
    ultimately show ?thesis using True by simp
  next
    case False
    then have "srv1 = srv" "\<not> is_ok a" using cs(1) by simp_all
    then have "srv' = srv" using o al by (auto simp: open_ports_def is_ok_iff split: prod.splits res.splits)
    then show ?thesis using False by simp
  qed
qed

lemma vanished_pool:
  assumes S: "sem_ok S" and mp: "0 < mp" "mp < 2 ^ 32"
  shows "mp \<le> length (free_ports os_free srv) \<Longrightarrow> \<forall>(s, rc) \<in> set xs. unwritable s \<and> mp \<le> r_num_chunks rc \<Longrightarrow>
    bound (vanished S os_free mp srv xs) = bound srv
    \<and> available S (vanished S os_free mp srv xs) = available S srv - mp * min (length xs) (available S srv div mp)"
proof (induction xs arbitrary: srv)
  case Nil
  then show ?case by (simp add: vanished_def)
next
  case (Cons x xs)
  obtain s rc where x: "x = (s, rc)" by (cases x)
  let ?srv1 = "fst (fst (open_ports S os_free srv s rc mp))"
  have one: "bound ?srv1 = bound srv" "available S ?srv1 = (if mp \<le> available S srv then available S srv - mp else available S srv)"
    using vanished_one [OF S mp(2) _ _ Cons.prems(1) refl, of rc s] Cons.prems(2) x by auto
  then have "mp \<le> length (free_ports os_free ?srv1)" using Cons.prems(1) by (simp add: free_ports_def can_bind_def [abs_def])
  note IH = Cons.IH [OF this]
  have "vanished S os_free mp srv (x # xs) = vanished S os_free mp ?srv1 xs" by (simp add: vanished_def x)
  moreover have "available S srv - mp - mp * min (length xs) ((available S srv - mp) div mp)
      = available S srv - mp * min (Suc (length xs)) (available S srv div mp)" if "mp \<le> available S srv"
    using le_div_geq [OF mp(1) that] by (simp add: min_def)
  ultimately show ?case using IH Cons.prems(2) one x by auto
qed

text \<open>C37: Clients that vanish use up the pool. A connection that breaks before the response with the ports
  is written ends without cleanup: its listeners are closed, but its permits are not given back. After as many
  such clients as there are shares of \<open>max_parallel\<close> ports in the pool, the same ports are bound as before the
  first of them, and still the next client with a file of that many chunks is told RESP_ERR and turned away.\<close>

theorem vanishing_clients_starve_server:
  assumes "sem_ok S" "0 < mp" "mp < 2 ^ 32" "mp \<le> length (free_ports os_free srv)"
    and "\<forall>(s, rc) \<in> set xs. unwritable s \<and> mp \<le> r_num_chunks rc"
    and "available S srv div mp \<le> length xs"
    and "srv' = vanished S os_free mp srv xs" "mp \<le> r_num_chunks rc" "plain_stream s"
  shows "bound srv' = bound srv \<and> available S srv' = available S srv mod mp
    \<and> (\<exists>s'. open_ports S os_free' srv' s rc mp = ((srv', s'), Ok Finished)
         \<and> tx s' = tx s @ frame_bytes (response_bytes RESP_ERR []))"
proof -
  have p: "bound srv' = bound srv" "available S srv' = available S srv mod mp"
    using vanished_pool [OF assms(1-5)] assms(6,7) by (simp_all add: minus_mult_div_eq_mod)
  obtain srv1 a where al: "allocate_sockets S os_free' srv' (r_num_chunks rc) mp = (srv1, a)" by (metis surj_pair)
  have "mp = min (r_num_chunks rc) mp" "mp > available S srv'" using assms(2,8) p(2) by simp_all
  from allocate_sockets_cases(1) [OF assms(1) this(1) assms(3) al this(2)] al
  show ?thesis using p assms(9) by (simp add: open_ports_def send_handshake_response_def send_timeout_plain)
qed

lemma vanishing_clients_starve_server_witness:
  "\<exists>xs srv' s'. length xs = 10 \<and> srv' = vanished counter (\<lambda>_. True) 100 (server_new counter empty_disk) xs
     \<and> bound srv' = {} \<and> available counter srv' = 1
     \<and> open_ports counter (\<lambda>_. True) srv' (stream_of []) (ex_receiver\<lparr>r_num_chunks := 100\<rparr>) 100 = ((srv', s'), Ok Finished)"
proof -
  let ?S = "server_new counter empty_disk" and ?rc = "ex_receiver\<lparr>r_num_chunks := 100\<rparr>"
  define xs where "xs = replicate 10 ((stream_of [])\<lparr>tx_limit := Some 0\<rparr>, ?rc)"
  define V where "V = vanished counter (\<lambda>_. True) 100 ?S xs"
  have "set (free_ports (\<lambda>_. True) ?S) = data_ports"
    by (auto simp: free_ports_facts(2) server_new_def data_ports_def)
  then have f: "length (free_ports (\<lambda>_. True) ?S) = 1001"
    using distinct_card [OF free_ports_facts(1)] data_ports_card(2) TOTAL_DATA_PORTS_value by metis
  have av: "available counter ?S = 1001" by code_simp
  have xs: "\<forall>(s, rc) \<in> set xs. unwritable s \<and> 100 \<le> r_num_chunks rc" "length xs = 10"
    by (simp_all add: xs_def unwritable_def stream_of_def)
  have r: "bound V = bound ?S \<and> available counter V = available counter ?S mod 100
      \<and> (\<exists>s'. open_ports counter (\<lambda>_. True) V (stream_of []) ?rc 100 = ((V, s'), Ok Finished)
           \<and> tx s' = tx (stream_of []) @ frame_bytes (response_bytes RESP_ERR []))"
    by (rule vanishing_clients_starve_server [OF counter_ok _ _ _ xs(1) _ V_def]) (simp_all add: f av xs(2))
  then obtain s' where "open_ports counter (\<lambda>_. True) V (stream_of []) ?rc 100 = ((V, s'), Ok Finished)" by blast
  moreover have "bound V = {}" using conjunct1 [OF r] by (simp add: server_new_def)
  moreover have "available counter V = 1" using conjunct1 [OF conjunct2 [OF r]] unfolding av by simp
  ultimately show ?thesis using xs(2) V_def by blast
qed

end
