(* ===== verification/Confinement.thy ===== *)
theory Confinement
  imports Transfers
begin

text \<open>
  Which files the operations of the server may write, whatever is on disk, whatever fails and whatever a
  peer sends: the final file, the parts and the metadata of the transfer they work for. None of these
  facts needs the invariant of \<open>Data_Handler\<close>, so they also hold for transfers that disturb each other.
\<close>

section \<open>Two disks that differ on some files only\<close>

definition writes_only :: "path set \<Rightarrow> disk \<Rightarrow> disk \<Rightarrow> bool" where
  "writes_only P d d' \<longleftrightarrow> (\<forall>q. q \<notin> P \<longrightarrow> files d' q = files d q)"

named_theorems writes \<open>which files an operation may write\<close>

lemma writes_onlyI: "(\<And>q. q \<notin> P \<Longrightarrow> files d' q = files d q) \<Longrightarrow> writes_only P d d'"
  by (simp add: writes_only_def)

lemma writes_onlyD: "writes_only P d d' \<Longrightarrow> q \<notin> P \<Longrightarrow> files d' q = files d q"
  unfolding writes_only_def by blast

lemma writes_only_refl [simp]: "writes_only P d d"
  by (simp add: writes_only_def)

lemma writes_only_trans [trans]: "writes_only P d e \<Longrightarrow> writes_only P e f \<Longrightarrow> writes_only P d f"
  unfolding writes_only_def by metis

lemma writes_only_mono: "writes_only P d d' \<Longrightarrow> P \<subseteq> Q \<Longrightarrow> writes_only Q d d'"
  unfolding writes_only_def by blast

lemma file_ops_write [writes]:
  "p \<in> P \<Longrightarrow> writes_only P d (fst (file_create d p))" "p \<in> P \<Longrightarrow> writes_only P d (fst (file_append d p bs))"
  "p \<in> P \<Longrightarrow> writes_only P d (fst (fs_write d p bs))" "p \<in> P \<Longrightarrow> writes_only P d (fst (fs_remove d p))"
  "p \<in> P \<Longrightarrow> q \<in> P \<Longrightarrow> writes_only P d (fst (fs_rename d p q))"
  by (auto simp: fs_defs Let_def intro!: writes_onlyI split: option.splits)

text \<open>The rules compose operations: what each of two steps may write, both may write together.\<close>

lemma st_bind_writes [writes]:
  assumes "writes_only P d (fst X)" "\<And>d1 a. writes_only P d1 (fst (f d1 a))"
  shows "writes_only P d (fst (st_bind X f))"
  using assms writes_only_trans by (cases X) (fastforce simp: st_bind_def split: res.splits)

lemma writes_only_state: "writes_only P d (fst X) \<Longrightarrow> X = (d', r) \<Longrightarrow> writes_only P d d'"
  by simp

section \<open>The files of a transfer\<close>

definition temp_files :: "string \<Rightarrow> string \<Rightarrow> path set" where
  "temp_files temp_dir name = range (part_file temp_dir name) \<union> {meta_file temp_dir name, tmp_file temp_dir name}"

definition name_files :: "string \<Rightarrow> string \<Rightarrow> string \<Rightarrow> path set" where
  "name_files output_dir temp_dir name = insert (path_of (output_dir @ ''/'' @ name)) (temp_files temp_dir name)"

lemma working_files_eq: "working_files rc = temp_files (r_parts_dir rc) (r_filename rc)"
  by (auto simp: working_files_def temp_files_def receiver_part_def receiver_meta_def)

definition files_of :: "receiver \<Rightarrow> path set" where
  "files_of rc = insert (receiver_final rc) (working_files rc)"

lemma files_of_eq: "files_of rc = name_files (r_output_dir rc) (r_parts_dir rc) (r_filename rc)"
  by (simp add: files_of_def name_files_def working_files_eq receiver_final_def final_path_def)

lemma working_files_members [simp]:
  "receiver_part rc i \<in> working_files rc" "receiver_meta rc \<in> working_files rc"
  "tmp_file (r_parts_dir rc) (r_filename rc) \<in> working_files rc"
  by (simp_all add: working_files_def)

lemma files_of_members [simp]:
  "receiver_part rc i \<in> files_of rc" "receiver_meta rc \<in> files_of rc" "receiver_final rc \<in> files_of rc"
  by (simp_all add: files_of_def)

lemma working_files_paths:
  "meta_file (r_parts_dir rc) (r_filename rc) \<in> working_files rc" "tmp_file (r_parts_dir rc) (r_filename rc) \<in> working_files rc"
  "range (part_file (r_parts_dir rc) (r_filename rc)) \<subseteq> working_files rc"
  by (auto simp: working_files_eq temp_files_def)

text \<open>All of them lie directly in the two directories.\<close>

lemma name_files_dirs:
  assumes "plain_name name" "p \<in> name_files output_dir temp_dir name"
  shows "\<exists>n. plain_name n \<and> (p = path_of (output_dir @ ''/'' @ n) \<or> p = path_of (temp_dir @ ''/'' @ n))"
  using assms plain_part_name [OF assms(1)] plain_meta_name [OF assms(1)] plain_tmp_name [OF assms(1)]
  by (auto simp: name_files_def temp_files_def part_file_def part_path_def meta_file_def meta_path_def tmp_file_def tmp_path_def)

section \<open>Metadata and receiver\<close>

lemma meta_save_writes [writes]:
  "meta_file dir f \<in> P \<Longrightarrow> tmp_file dir f \<in> P \<Longrightarrow> writes_only P d (fst (meta_save m d dir f))"
proof -
  assume p: "meta_file dir f \<in> P" "tmp_file dir f \<in> P"
  note rm = writes_only_trans [OF _ file_ops_write(4) [OF p(2)]]
  have "writes_only P d1 (fst (case fs_rename d1 (tmp_file dir f) (meta_file dir f) of (d', Ok _) \<Rightarrow> (d', Ok ())
      | (d', Err e) \<Rightarrow> (fst (fs_remove d' (tmp_file dir f)), Err e) | (d', Panic) \<Rightarrow> (d', Panic)))" for d1
    using file_ops_write(5) [OF p(2,1), of d1] rm by (auto split: prod.splits res.splits)
  then show ?thesis unfolding meta_save_def Let_def by (intro writes p)
qed

lemma remove_parts_writes [writes]: "range (part_file dir f) \<subseteq> P \<Longrightarrow> writes_only P d (remove_parts d dir f is)"
proof (induction "is" arbitrary: d)
  case (Cons i js)
  have "writes_only P d (fst (fs_remove d (part_file dir f i)))" using Cons.prems by (intro writes) auto
  then show ?case using Cons.IH [OF Cons.prems] writes_only_trans by simp
qed simp

lemma meta_purge_writes [writes]:
  "meta_file dir f \<in> P \<Longrightarrow> range (part_file dir f) \<subseteq> P \<Longrightarrow> writes_only P d (meta_purge d dir f n)"
  unfolding meta_purge_def by (rule writes_only_trans [OF file_ops_write(4) remove_parts_writes])

lemma check_parts_writes [writes]: "writes_only (working_files rc) d (fst (check_parts B rc m d is))"
proof (induction "is" arbitrary: d)
  case (Cons i js)
  let ?d = "fst (fs_remove d (path_of (receiver_part_path rc i)))"
  have "writes_only (working_files rc) d ?d" by (simp add: receiver_paths writes)
  then have "writes_only (working_files rc) d (fst (check_parts B rc m ?d js))"
    using Cons.IH [of ?d] by (rule writes_only_trans)
  then show ?case using Cons.IH [of d] by (auto split: prod.splits)
qed simp

lemma load_or_purge_writes [writes]: "writes_only (working_files rc) d (fst (load_or_purge_metadata B rc d))"
proof -
  let ?P = "working_files rc" and ?dir = "r_parts_dir rc" and ?f = "r_filename rc"
  have checked: "writes_only ?P d d'" if "check_parts B rc m d is = (d', v, c)" for m "is" d' v c
    using check_parts_writes writes_only_state that by metis
  have purge: "writes_only ?P e (meta_purge e ?dir ?f n)" and save: "writes_only ?P e (fst (meta_save m e ?dir ?f))"
    for e n m by (intro writes working_files_paths)+
  show ?thesis
    by (auto simp: load_or_purge_metadata_def Let_def purge split: res.splits option.splits prod.splits
        intro: checked writes_only_trans [OF checked purge] writes_only_trans [OF checked save])
qed

lemma copy_loop_writes [writes]: "out \<in> P \<Longrightarrow> writes_only P d (fst (copy_loop B d0 part pos out d h))"
proof (induction B d0 part pos out d h rule: copy_loop.induct)
  case (1 B d0 part pos out d h)
  show ?case
    using "1.IH" "1.prems" unfolding copy_loop.simps [of B d0 part pos out d h]
    by (auto split: res.splits intro!: writes)
qed

lemma assemble_parts_writes [writes]:
  assumes "dirs_ok rc" "out \<in> files_of rc"
  shows "writes_only (files_of rc) d (fst (assemble_parts B rc out d h is))"
  using assms by (induction "is" arbitrary: d h) (auto simp: join_part_eq Let_def intro!: writes)

lemma assemble_writes [writes]: "dirs_ok rc \<Longrightarrow> writes_only (files_of rc) d (fst (assemble B rc d))"
  unfolding assemble_def Let_def
  by (intro writes) (auto simp: join_final_eq receiver_paths split: option.splits intro!: writes)
section \<open>Connections\<close>

lemma record_chunk_writes [writes]: "writes_only (working_files rc) d (snd (fst (record_chunk rc d i h)))"
proof -
  have "writes_only (working_files rc) d (fst (meta_save m d (r_parts_dir rc) (r_filename rc)))" for m
    by (intro writes working_files_paths)
  from writes_only_state [OF this] show ?thesis
    by (auto simp: record_chunk_def Let_def split: res.splits prod.splits)
qed

lemma verify_and_write_writes [writes]:
  "writes_only (working_files rc) d (snd (fst (verify_and_write_chunk B rc d i data h)))"
proof -
  let ?W = "fs_write d (path_of (receiver_part_path rc i)) data"
  have w: "writes_only (working_files rc) d (fst ?W)" by (intro writes) (simp add: receiver_paths)
  have "writes_only (working_files rc) d (snd (fst (record_chunk rc (fst ?W) i h)))"
    using w record_chunk_writes by (rule writes_only_trans)
  then show ?thesis
    using w by (auto simp: verify_and_write_chunk_def split: prod.splits res.splits)
qed

lemma process_chunk_writes [writes]:
  "writes_only (working_files rc) d (fst (snd (fst (process_chunk B rc d s data))))"
  using verify_and_write_writes [of rc d B]
  by (auto simp: process_chunk_def split: prod.splits res.splits option.splits) (metis fst_conv snd_conv)+

lemma data_iteration_writes [writes]:
  "writes_only (working_files rc) d (fst (snd (fst (data_iteration B rc d s))))"
  using process_chunk_writes [of rc d B]
  by (auto simp: data_iteration_def split: prod.splits res.splits) (metis fst_conv snd_conv)+

lemma data_loop_writes:
  "same_transfer rc (fst (fst (data_loop B rc d s))) \<and> writes_only (working_files rc) d (fst (snd (fst (data_loop B rc d s))))"
proof (induction B rc d s rule: data_loop.induct)
  case (1 B rc d s)
  obtain rc' d' s' r where it: "data_iteration B rc d s = ((rc', d', s'), r)" by (metis surj_pair)
  have same: "same_transfer rc rc'" and w: "writes_only (working_files rc) d d'"
    using data_iteration_same [OF it] data_iteration_writes [of rc d B s] it by simp_all
  show ?case
  proof (cases "r = Ok Continue")
    case True
    have "same_transfer rc' (fst (fst (data_loop B rc' d' s')))"
      "writes_only (working_files rc) d' (fst (snd (fst (data_loop B rc' d' s'))))"
      using "1.IH" [OF it [symmetric] refl refl True refl] working_files_same [OF same] by simp_all
    then show ?thesis
      using same w writes_only_trans True it by (simp add: data_loop.simps [of B rc d s] same_transfer_def)
  next
    case False
    then show ?thesis
      using same w it by (simp add: data_loop.simps [of B rc d s] split: res.split flow.split)
  qed
qed

lemma resume_receiver_writes:
  assumes "resume_receiver B rc d = ((rc', d'), r)"
  shows "same_transfer rc rc' \<and> writes_only (working_files rc) d d'"
proof -
  obtain d1 r1 where l: "load_or_purge_metadata B rc d = (d1, r1)" by (metis surj_pair)
  then have "d' = d1" "same_transfer rc rc'"
    using assms by (auto simp: resume_receiver_def Let_def same_transfer_def split: res.splits option.splits)
  then show ?thesis using load_or_purge_writes [of rc d B] l by simp
qed

lemma confirm_complete_writes:
  assumes "dirs_ok rc" "confirm_complete B rc d s = ((d', s'), r)"
  shows "writes_only (files_of rc) d d'"
  using assms assemble_writes [OF assms(1), of d B]
  by (auto simp: confirm_complete_def assemble_file_def split: prod.splits res.splits)

section \<open>What one step of the server may do\<close>

text \<open>The name a connection announces, if its handshake is accepted.\<close>

definition announced :: "stream \<Rightarrow> string set" where
  "announced s = (case recv_timeout s of
     (s1, Ok data) \<Rightarrow> (case parse_handshake data of Ok h \<Rightarrow> {h_safe_name h} | _ \<Rightarrow> {})
   | _ \<Rightarrow> {})"

text \<open>A receiver as the control connections of one server make them, for a name of a given set.\<close>

definition serves :: "string \<Rightarrow> string \<Rightarrow> string set \<Rightarrow> receiver \<Rightarrow> bool" where
  "serves output_dir temp_dir names rc \<longleftrightarrow> dirs_ok rc \<and> r_output_dir rc = output_dir
     \<and> r_parts_dir rc = temp_dir \<and> r_filename rc \<in> names"

definition all_serve :: "string \<Rightarrow> string \<Rightarrow> string set \<Rightarrow> 'p server \<Rightarrow> bool" where
  "all_serve output_dir temp_dir names srv \<longleftrightarrow> (\<forall>rc \<in> set (receivers srv). serves output_dir temp_dir names rc)"

text \<open>Receivers stay those of their transfers, new ones are of a given kind, and only given files are written.\<close>

definition step_confined :: "path set \<Rightarrow> (receiver \<Rightarrow> bool) \<Rightarrow> 'p server \<Rightarrow> 'p server \<Rightarrow> bool" where
  "step_confined P new srv srv' \<longleftrightarrow>
     (\<forall>k < length (receivers srv). same_transfer (receivers srv ! k) (receivers srv' ! k))
   \<and> length (receivers srv) \<le> length (receivers srv')
   \<and> (\<forall>k. length (receivers srv) \<le> k \<and> k < length (receivers srv') \<longrightarrow> new (receivers srv' ! k))
   \<and> writes_only P (sdisk srv) (sdisk srv')"

definition all_temp_files :: "string \<Rightarrow> string set \<Rightarrow> path set" where
  "all_temp_files temp_dir names = (\<Union>n \<in> names. temp_files temp_dir n)"

lemma serves_same: "same_transfer rc rc' \<Longrightarrow> serves out tmp N rc' = serves out tmp N rc"
  using same_transfer_paths(4) [of rc rc'] by (auto simp: serves_def same_transfer_def)

lemma serves_mono: "serves out tmp M rc \<Longrightarrow> M \<subseteq> N \<Longrightarrow> serves out tmp N rc"
  by (auto simp: serves_def)

lemma serves_files:
  "serves out tmp N rc \<Longrightarrow> working_files rc \<subseteq> all_temp_files tmp N"
  "serves out tmp N rc \<Longrightarrow> files_of rc = name_files out tmp (r_filename rc)"
  by (auto simp: serves_def working_files_eq files_of_eq all_temp_files_def)

lemma step_confined_refl [simp]: "step_confined P new srv srv"
  by (auto simp: step_confined_def)

lemma step_confined_mono: "step_confined P new srv srv' \<Longrightarrow> P \<subseteq> Q \<Longrightarrow> step_confined Q new srv srv'"
  using writes_only_mono by (auto simp: step_confined_def)

lemma step_confined_trans:
  assumes "step_confined P new a b" "step_confined P new b c" "length (receivers b) = length (receivers a)"
  shows "step_confined P new a c"
  using assms writes_only_trans by (auto simp: step_confined_def same_transfer_def)

lemma step_confined_cong:
  "step_confined P new srv srv' \<Longrightarrow> receivers srv2 = receivers srv' \<Longrightarrow> sdisk srv2 = sdisk srv' \<Longrightarrow>
     step_confined P new srv srv2"
  by (simp add: step_confined_def)

lemma all_serve_step:
  assumes "all_serve out tmp M srv" "step_confined P (serves out tmp N) srv srv'" "M \<subseteq> N"
  shows "all_serve out tmp N srv'"
proof -
  let ?R = "receivers srv" and ?R' = "receivers srv'"
  have "serves out tmp N (?R' ! k)" if "k < length ?R'" for k
  proof (cases "k < length ?R")
    case True
    then have "serves out tmp N (?R ! k)" using assms(1,3) serves_mono nth_mem unfolding all_serve_def by metis
    moreover have "same_transfer (?R ! k) (?R' ! k)" using assms(2) True by (simp add: step_confined_def)
    ultimately show ?thesis using serves_same by blast
  next
    case False
    then show ?thesis using that assms(2) by (simp add: step_confined_def)
  qed
  then show ?thesis by (auto simp: all_serve_def in_set_conv_nth)
qed

text \<open>One receiver of a server is replaced by another state of the same transfer.\<close>

lemma replace_confined:
  assumes "all_serve out tmp N srv" "rid < length (receivers srv)" "same_transfer (receivers srv ! rid) rc'"
    and "writes_only (working_files (receivers srv ! rid)) (sdisk srv) d'"
  shows "step_confined (all_temp_files tmp N) new srv (srv\<lparr>receivers := (receivers srv)[rid := rc'], sdisk := d'\<rparr>)"
proof -
  have "serves out tmp N (receivers srv ! rid)" using assms(1,2) by (simp add: all_serve_def)
  from writes_only_mono [OF assms(4) serves_files(1) [OF this]] show ?thesis
    using assms(2,3) by (auto simp: step_confined_def nth_list_update)
qed

lemma data_turn_confined:
  assumes "all_serve out tmp N srv"
  shows "step_confined (all_temp_files tmp N) new srv (data_turn B srv t)"
proof -
  obtain rid s where t: "t = (rid, s)" by (cases t)
  show ?thesis
  proof (cases "rid < length (receivers srv)")
    case True
    let ?rc = "receivers srv ! rid"
    obtain rc' d' s' r where it: "data_iteration B ?rc (sdisk srv) s = ((rc', d', s'), r)" by (metis surj_pair)
    have "writes_only (working_files ?rc) (sdisk srv) d'" using data_iteration_writes [of ?rc "sdisk srv" B s] it by simp
    from replace_confined [OF assms True data_iteration_same [OF it] this] show ?thesis
      using True t it by (simp add: data_turn_def)
  qed (simp add: t data_turn_def)
qed

lemma connection_confined:
  assumes "all_serve out tmp N srv" "handle_data_connection B srv s port = ((srv', s'), r)"
  shows "step_confined (all_temp_files tmp N) new srv srv'"
proof (cases "\<exists>rid. get_receiver srv port = Some rid \<and> rid < length (receivers srv)")
  case True
  then obtain rid where rid: "get_receiver srv port = Some rid" "rid < length (receivers srv)" by blast
  let ?rc = "receivers srv ! rid"
  obtain rc' d' s1 r1 where l: "data_loop B ?rc (sdisk srv) s = ((rc', d', s1), r1)" by (metis surj_pair)
  have srv': "srv' = srv\<lparr>receivers := (receivers srv)[rid := rc'], sdisk := d'\<rparr>"
    using assms(2) rid l by (simp add: handle_data_connection_def index_at_def)
  show ?thesis
    unfolding srv' using replace_confined [OF assms(1) rid(2)] data_loop_writes [of ?rc B "sdisk srv" s] l by simp
next
  case False
  then have "srv' = srv"
    using assms(2) by (auto simp: handle_data_connection_def index_at_def split: option.splits)
  then show ?thesis by simp
qed

lemma drop_listener_same [simp]:
  "receivers (drop_listener srv port) = receivers srv" "sdisk (drop_listener srv port) = sdisk srv"
  by (simp_all add: drop_listener_def)

lemma serve_port_confined:
  "all_serve out tmp N srv \<Longrightarrow> step_confined (all_temp_files tmp N) (serves out tmp N) srv (serve_port B srv port accepts)"
proof (induction B srv port accepts rule: serve_port.induct)
  case (3 B srv port s accepts)
  obtain srv' s' r where h: "handle_data_connection B srv s port = ((srv', s'), r)" by (metis surj_pair)
  have c: "step_confined (all_temp_files tmp N) (serves out tmp N) srv srv'"
    using "3.prems" h by (rule connection_confined)
  have l: "length (receivers srv') = length (receivers srv)"
    using connection_shared [OF h] by (simp add: same_shared_def)
  have a: "all_serve out tmp N srv'" using "3.prems" c by (rule all_serve_step) simp
  show ?case
  proof (cases r)
    case Panic
    then show ?thesis using step_confined_cong [OF c] h by simp
  next
    case (Ok u)
    then show ?thesis using step_confined_trans [OF c "3.IH"(1) [OF h [symmetric] refl Ok a] l] h by simp
  next
    case (Err e)
    then show ?thesis using step_confined_trans [OF c "3.IH"(2) [OF h [symmetric] refl Err a] l] h by simp
  qed
qed (auto intro: step_confined_cong [OF step_confined_refl])

section \<open>Control connections\<close>

lemma receive_handshake_announced:
  "receive_handshake s = (s1, Ok (Some h)) \<Longrightarrow> announced s = {h_safe_name h} \<and> handshake_ok h"
  using parse_handshake_sound
  by (auto simp: receive_handshake_def announced_def st_bind_def split: prod.splits res.splits if_splits)

lemma announced_plain: "n \<in> announced s \<Longrightarrow> plain_name n"
  using parse_handshake_sound by (auto simp: announced_def handshake_ok_def split: prod.splits res.splits)

lemma open_ports_shares:
  assumes "open_ports S os_free srv s rc mp = ((srv', s'), r)"
  shows "sdisk srv' = sdisk srv \<and> receivers srv' \<in> {receivers srv, receivers srv @ [rc]}
    \<and> (\<forall>rid ports. r = Ok (Waiting rid ports) \<longrightarrow> rid = length (receivers srv) \<and> receivers srv' = receivers srv @ [rc])"
proof -
  obtain srv1 a where al: "allocate_sockets S os_free srv (r_num_chunks rc) mp = (srv1, a)" by (metis surj_pair)
  have "sdisk srv1 = sdisk srv \<and> receivers srv1 = receivers srv"
    using al by (auto simp: allocate_sockets_def try_reserve_ports_def Let_def split: option.splits prod.splits if_splits)
  then show ?thesis
    using assms al by (auto simp: open_ports_def share_receiver_def register_receivers_def drop_sockets_def Let_def res_simps
        split: res.splits prod.splits)
qed

text \<open>The receiver with which a transfer goes on, and what resuming has written.\<close>

lemma resumed_confined:
  assumes "receive_handshake s = (s1, Ok (Some h))" "output_dir \<noteq> []" "temp_dir \<noteq> []"
    and rr: "resume_receiver B (handshake_receiver h output_dir temp_dir) d = ((rc, d'), b)"
  shows "serves output_dir temp_dir (announced s) rc"
    and "files_of rc \<subseteq> (\<Union>n \<in> announced s. name_files output_dir temp_dir n)"
    and "writes_only (\<Union>n \<in> announced s. name_files output_dir temp_dir n) d d'"
proof -
  let ?rc0 = "handshake_receiver h output_dir temp_dir"
  note an = receive_handshake_announced [OF assms(1)] and res = resume_receiver_writes [OF rr]
  have "dirs_ok ?rc0" using create_receiver_fresh an assms(2,3) by (simp add: fresh_def)
  then have "serves output_dir temp_dir (announced s) ?rc0"
    using an by (simp add: serves_def create_receiver_def receiver_new_def)
  then show rc: "serves output_dir temp_dir (announced s) rc" using res serves_same by blast
  then show P: "files_of rc \<subseteq> (\<Union>n \<in> announced s. name_files output_dir temp_dir n)"
    using serves_files(2) [OF rc] by (auto simp: serves_def)
  have "working_files ?rc0 \<subseteq> files_of rc" using working_files_same res by (auto simp: files_of_def)
  then show "writes_only (\<Union>n \<in> announced s. name_files output_dir temp_dir n) d d'"
    using res writes_only_mono P by blast
qed

lemma control_open_confined:
  assumes dirs: "output_dir \<noteq> []" "temp_dir \<noteq> []"
    and o: "control_open S B os_free srv s output_dir temp_dir mp = ((srv', s'), r)"
  shows "step_confined (\<Union>n \<in> announced s. name_files output_dir temp_dir n)
           (serves output_dir temp_dir (announced s)) srv srv'
    \<and> (\<forall>rid ports. r = Ok (Waiting rid ports) \<longrightarrow>
         rid < length (receivers srv') \<and> r_filename (receivers srv' ! rid) \<in> announced s)"
  using o
proof (cases rule: control_open_cases)
  case (no_handshake x)
  then show ?thesis by (auto simp: res_simps)
next
  case (refused s1 h go)
  then show ?thesis by (auto simp: res_simps)
next
  case (broken s1 h rc d b)
  then show ?thesis using resumed_confined(3) [OF broken(1) dirs broken(3)] by (auto simp: step_confined_def is_ok_iff)
next
  case (complete s1 h s2 rc d d' u)
  note rc = resumed_confined [OF complete(1) dirs complete(3)]
  have "writes_only (files_of rc) d d'"
    using confirm_complete_writes [OF _ complete(4)] rc(1) by (simp add: serves_def)
  then have "writes_only (\<Union>n \<in> announced s. name_files output_dir temp_dir n) (sdisk srv) d'"
    using rc(2,3) writes_only_mono writes_only_trans by blast
  then show ?thesis using complete(5,6) by (auto simp: step_confined_def res_simps)
next
  case (ports s1 h s2 rc d)
  then show ?thesis
    using open_ports_shares [OF ports(4)] resumed_confined [OF ports(1) dirs ports(3)]
    by (auto simp: step_confined_def nth_append serves_def)
qed

lemma cleanup_same [simp]: "receivers (cleanup S srv ports) = receivers srv" "sdisk (cleanup S srv ports) = sdisk srv"
  by (simp_all add: cleanup_def Let_def foldl_remove release_ports_def)

lemma control_close_confined:
  assumes "dirs_ok (receivers srv ! rid)" and c: "control_close S B srv s rid ports = ((srv', s'), r)"
  shows "step_confined (files_of (receivers srv ! rid)) new srv srv' \<and> receivers srv' = receivers srv"
proof -
  let ?rc = "receivers srv ! rid"
  have w: "writes_only (files_of ?rc) (sdisk srv) (fst (assemble B ?rc (sdisk srv)))"
    by (intro writes assms(1))
  have "receivers srv' = receivers srv \<and> sdisk srv' \<in> {sdisk srv, fst (assemble B ?rc (sdisk srv))}"
    using c by (auto simp: control_close_def assemble_file_def Let_def split: if_splits prod.splits res.splits)
  then show ?thesis using w by (auto simp: step_confined_def)
qed

end
