(* ===== verification/Service.thy ===== *)
theory Service
  imports Confinement
begin

text \<open>
  The life of a server: control connections open and end, data connections and port tasks run between
  them, in every order and with every number of clients, whatever they send. Three facts about it: what
  the server tells any client is true, it writes only files of announced names in its two directories,
  and a file it has delivered stays as it is until a client announces that name again.
\<close>

section \<open>The steps\<close>

text \<open>
  A waiting connection is its stream at the start, the index of its receiver, its ports and its stream
  now. Two logs that no code has: \<open>l_answers\<close> of the connections that have ended, with the disk of that
  moment, and \<open>l_opened\<close> of all connections, the newest first.
\<close>

record 'p life =
  l_server :: "'p server"
  l_waiting :: "(stream \<times> nat \<times> u16 list \<times> stream) list"
  l_answers :: "(stream \<times> stream \<times> disk) list"
  l_opened :: "stream list"

definition life_start :: "'p semaphore \<Rightarrow> disk \<Rightarrow> 'p life" where
  "life_start S d = \<lparr>l_server = server_new S d, l_waiting = [], l_answers = [], l_opened = []\<rparr>"

definition connection_opened :: "'p life \<Rightarrow> stream \<Rightarrow> 'p server \<Rightarrow> stream \<Rightarrow> control res \<Rightarrow> 'p life" where
  "connection_opened w s srv' s' r =
     \<lparr>l_server = srv',
      l_waiting = (case r of Ok (Waiting rid ports) \<Rightarrow> (s, rid, ports, s') # l_waiting w | _ \<Rightarrow> l_waiting w),
      l_answers = (case r of Ok Finished \<Rightarrow> (s, s', sdisk srv') # l_answers w | _ \<Rightarrow> l_answers w),
      l_opened = s # l_opened w\<rparr>"

definition connection_closed ::
  "'p life \<Rightarrow> stream \<times> nat \<times> u16 list \<times> stream \<Rightarrow> 'p server \<Rightarrow> stream \<Rightarrow> unit res \<Rightarrow> 'p life" where
  "connection_closed w c srv' s' r =
     \<lparr>l_server = srv', l_waiting = remove1 c (l_waiting w),
      l_answers = (if is_ok r then (fst c, s', sdisk srv') # l_answers w else l_answers w),
      l_opened = l_opened w\<rparr>"

text \<open>
  A waiting connection may end at any time: its peer may leave. A connection that ends with an error or
  a panic leaves no answer in the log.
\<close>

inductive life_step :: "'p semaphore \<Rightarrow> 'h blake3 \<Rightarrow> string \<Rightarrow> string \<Rightarrow> usize \<Rightarrow> 'p life \<Rightarrow> 'p life \<Rightarrow> bool"
  for S :: "'p semaphore" and B :: "'h blake3" and output_dir temp_dir :: string and max_parallel :: usize where
  opens: "life_step S B output_dir temp_dir max_parallel w (connection_opened w s srv' s' r)"
    if "control_open S B os_free (l_server w) s output_dir temp_dir max_parallel = ((srv', s'), r)"
| turns: "life_step S B output_dir temp_dir max_parallel w (w\<lparr>l_server := data_turn B (l_server w) (rid, s)\<rparr>)"
| serves: "life_step S B output_dir temp_dir max_parallel w (w\<lparr>l_server := serve_port B (l_server w) port accepts\<rparr>)"
| closes: "life_step S B output_dir temp_dir max_parallel w (connection_closed w (s, rid, ports, s1) srv' s' r)"
    if "(s, rid, ports, s1) \<in> set (l_waiting w)"
    and "control_close S B (l_server w) s1 rid ports = ((srv', s'), r)"

definition names :: "'p life \<Rightarrow> string set" where
  "names w = (\<Union>s \<in> set (l_opened w). announced s)"

section \<open>Who writes what\<close>

definition life_inv :: "string \<Rightarrow> string \<Rightarrow> 'p life \<Rightarrow> bool" where
  "life_inv output_dir temp_dir w \<longleftrightarrow> all_serve output_dir temp_dir (names w) (l_server w)
     \<and> (\<forall>(s, rid, ports, s1) \<in> set (l_waiting w). rid < length (receivers (l_server w)))"

definition all_files :: "string \<Rightarrow> string \<Rightarrow> string set \<Rightarrow> path set" where
  "all_files output_dir temp_dir N = (\<Union>n \<in> N. name_files output_dir temp_dir n)"

lemma all_files_mono: "M \<subseteq> N \<Longrightarrow> all_files out tmp M \<subseteq> all_files out tmp N"
  by (auto simp: all_files_def)

lemma all_temp_files_sub: "all_temp_files tmp N \<subseteq> all_files out tmp N"
  by (auto simp: all_files_def all_temp_files_def name_files_def)

lemma names_simps [simp]:
  "names (w\<lparr>l_server := srv\<rparr>) = names w" "names (connection_closed w c srv s u) = names w"
  "names (connection_opened w s srv s' r) = announced s \<union> names w"
  by (simp_all add: names_def connection_closed_def connection_opened_def)

lemma connection_simps [simp]:
  "l_server (connection_opened w s srv' s' r) = srv'" "l_server (connection_closed w c srv' s' u) = srv'"
  "l_opened (connection_opened w s srv' s' r) = s # l_opened w" "l_opened (connection_closed w c srv' s' u) = l_opened w"
  "l_waiting (connection_closed w c srv' s' u) = remove1 c (l_waiting w)"
  by (simp_all add: connection_opened_def connection_closed_def)

lemma waiting_opened:
  "x \<in> set (l_waiting (connection_opened w s srv' s' r)) \<longleftrightarrow>
     x \<in> set (l_waiting w) \<or> (\<exists>rid ports. r = Ok (Waiting rid ports) \<and> x = (s, rid, ports, s'))"
  by (auto simp: connection_opened_def split: res.split control.split)

lemma waiting_closed: "set (l_waiting (connection_closed w c srv' s' u)) \<subseteq> set (l_waiting w)"
  by (simp add: set_remove1_subset)

lemma answers_closed:
  "x \<in> set (l_answers (connection_closed w c srv' s' u)) \<longleftrightarrow>
     x \<in> set (l_answers w) \<or> is_ok u \<and> x = (fst c, s', sdisk srv')"
  by (simp add: connection_closed_def) blast

lemma answers_opened:
  "x \<in> set (l_answers (connection_opened w s srv' s' r)) \<longleftrightarrow>
     x \<in> set (l_answers w) \<or> r = Ok Finished \<and> x = (s, s', sdisk srv')"
  by (auto simp: connection_opened_def split: res.split control.split)

lemma names_plain: "n \<in> names w \<Longrightarrow> plain_name n"
  using announced_plain by (auto simp: names_def)

text \<open>Every step is confined to the files of the names announced so far.\<close>

lemma life_step_confined:
  assumes dirs: "out \<noteq> []" "tmp \<noteq> []" and inv: "life_inv out tmp w" and st: "life_step S B out tmp mp w w'"
  shows "step_confined (all_files out tmp (names w')) (serves out tmp (names w')) (l_server w) (l_server w')
    \<and> names w \<subseteq> names w'"
  using st
proof cases
  case (opens os_free s srv' s' r)
  have "step_confined (all_files out tmp (announced s)) (serves out tmp (announced s)) (l_server w) srv'"
    using control_open_confined [OF dirs opens(2)] by (simp add: all_files_def)
  moreover have "serves out tmp (announced s) rc \<Longrightarrow> serves out tmp (names w') rc" for rc
    using serves_mono opens(1) by simp
  ultimately have "step_confined (all_files out tmp (announced s)) (serves out tmp (names w')) (l_server w) srv'"
    by (simp add: step_confined_def)
  moreover have "all_files out tmp (announced s) \<subseteq> all_files out tmp (names w')" "names w \<subseteq> names w'"
    unfolding opens(1) by (auto simp: all_files_def)
  ultimately show ?thesis using opens(1) step_confined_mono by simp
next
  case (turns rid s)
  then show ?thesis
    using step_confined_mono [OF data_turn_confined all_temp_files_sub] inv by (auto simp: life_inv_def)
next
  case (serves port accepts)
  then show ?thesis
    using step_confined_mono [OF serve_port_confined all_temp_files_sub] inv by (auto simp: life_inv_def)
next
  case (closes s rid ports s1 srv' s' r)
  let ?rc = "receivers (l_server w) ! rid"
  have rc: "serves out tmp (names w) ?rc" using inv closes(2) by (auto simp: life_inv_def all_serve_def)
  then have ok: "dirs_ok ?rc" and P: "files_of ?rc \<subseteq> all_files out tmp (names w)"
    using serves_files(2) [OF rc] by (auto simp: serves_def all_files_def)
  show ?thesis
    using step_confined_mono [OF conjunct1 [OF control_close_confined [OF ok closes(3)]] P] closes(1) by simp
qed

lemma life_inv_step:
  assumes dirs: "out \<noteq> []" "tmp \<noteq> []" and inv: "life_inv out tmp w" and st: "life_step S B out tmp mp w w'"
  shows "life_inv out tmp w'"
proof -
  note c = life_step_confined [OF assms]
  have "all_serve out tmp (names w') (l_server w')"
    using all_serve_step [OF _ conjunct1 [OF c] conjunct2 [OF c]] inv by (simp add: life_inv_def)
  moreover have len: "length (receivers (l_server w)) \<le> length (receivers (l_server w'))"
    using c by (simp add: step_confined_def)
  have "\<forall>(s, rid, ports, s1) \<in> set (l_waiting w'). rid < length (receivers (l_server w'))"
    using st
  proof cases
    case (opens os_free s srv' s' r)
    then show ?thesis
      using inv len control_open_confined [OF dirs opens(2)] by (fastforce simp: life_inv_def waiting_opened)
  next
    case (closes s rid ports s1 srv' s' r)
    then show ?thesis using inv len waiting_closed unfolding life_inv_def by fastforce
  qed (use inv len in \<open>fastforce simp: life_inv_def\<close>)+
  ultimately show ?thesis by (simp add: life_inv_def)
qed

lemma life_inv_start: "life_inv out tmp (life_start S d)"
  by (simp add: life_inv_def life_start_def server_new_def all_serve_def)

interpretation life: invariant_system "\<lambda>w. out \<noteq> [] \<and> tmp \<noteq> [] \<and> w = life_start S d"
  "life_step S B out tmp mp" "\<lambda>w. out \<noteq> [] \<and> tmp \<noteq> [] \<and> life_inv out tmp w"
  for S :: "'p semaphore" and B :: "'h blake3" and out tmp mp d
  by unfold_locales (auto intro: life_inv_start life_inv_step)

text \<open>Over any number of steps.\<close>

lemma life_run_confined:
  assumes dirs: "out \<noteq> []" "tmp \<noteq> []" and inv: "life_inv out tmp w" and run: "(life_step S B out tmp mp)\<^sup>*\<^sup>* w w'"
  shows "life_inv out tmp w' \<and> names w \<subseteq> names w'
    \<and> writes_only (all_files out tmp (names w')) (sdisk (l_server w)) (sdisk (l_server w'))"
  using run
proof (induction rule: rtranclp_induct)
  case base
  show ?case using inv by simp
next
  case (step w1 w2)
  have iv: "life_inv out tmp w1" using step.IH by blast
  note c = life_step_confined [OF dirs iv step.hyps(2)]
  have "writes_only (all_files out tmp (names w2)) (sdisk (l_server w)) (sdisk (l_server w1))"
    using step.IH c writes_only_mono all_files_mono by blast
  moreover have "writes_only (all_files out tmp (names w2)) (sdisk (l_server w1)) (sdisk (l_server w2))"
    using c by (simp add: step_confined_def)
  ultimately show ?case
    using step.IH c life_inv_step [OF dirs iv step.hyps(2)] writes_only_trans by blast
qed

section \<open>What all clients are told\<close>

definition told_truth :: "'h blake3 \<Rightarrow> string \<Rightarrow> 'p life \<Rightarrow> bool" where
  "told_truth B output_dir w \<longleftrightarrow>
     (\<forall>(s, s', d) \<in> set (l_answers w). plain_stream s \<longrightarrow> connection_outcome B s output_dir d s')
   \<and> (\<forall>(s, rid, ports, s1) \<in> set (l_waiting w). plain_stream s \<longrightarrow>
        (\<exists>data s0 h. recv_timeout s = (s0, Ok data) \<and> parse_handshake data = Ok h
           \<and> connection_waits (l_server w) s s1 output_dir h rid))"

lemma told_waiting:
  "told_truth B out w \<Longrightarrow> (s, rid, ports, s1) \<in> set (l_waiting w) \<Longrightarrow> plain_stream s \<Longrightarrow>
     \<exists>data s0 h. recv_timeout s = (s0, Ok data) \<and> parse_handshake data = Ok h \<and> connection_waits (l_server w) s s1 out h rid"
  unfolding told_truth_def by fast

lemma told_truthI:
  assumes "\<And>s s' d. (s, s', d) \<in> set (l_answers w) \<Longrightarrow> plain_stream s \<Longrightarrow> connection_outcome B s out d s'"
    and "\<And>s rid ports s1. (s, rid, ports, s1) \<in> set (l_waiting w) \<Longrightarrow> plain_stream s \<Longrightarrow>
      \<exists>data s0 h. recv_timeout s = (s0, Ok data) \<and> parse_handshake data = Ok h \<and> connection_waits (l_server w) s s1 out h rid"
  shows "told_truth B out w"
  using assms unfolding told_truth_def by fast

lemma connection_waits_step:
  "connection_waits srv s s1 out h rid \<Longrightarrow> step_confined P new srv srv' \<Longrightarrow> connection_waits srv' s s1 out h rid"
  by (rule connection_waits_same) (auto simp: connection_waits_def step_confined_def)

lemma told_truth_step:
  assumes B: "blake3_ok B" and dirs: "out \<noteq> []" "tmp \<noteq> []" and inv: "life_inv out tmp w" "told_truth B out w"
    and st: "life_step S B out tmp mp w w'"
  shows "told_truth B out w'"
proof -
  note c = conjunct1 [OF life_step_confined [OF dirs inv(1) st]]
  have old: "\<exists>data s0 h. recv_timeout s = (s0, Ok data) \<and> parse_handshake data = Ok h
      \<and> connection_waits (l_server w') s s1 out h rid"
    if "(s, rid, ports, s1) \<in> set (l_waiting w)" "plain_stream s" for s rid ports s1
    using told_waiting [OF inv(2) that] connection_waits_step [OF _ c] by blast
  have ans: "connection_outcome B s out d s'" if "(s, s', d) \<in> set (l_answers w)" "plain_stream s" for s s' d
    using inv(2) that by (auto simp: told_truth_def)
  from st show ?thesis
  proof cases
    case (opens os_free s srv' s' r)
    show ?thesis
    proof (rule told_truthI)
      fix t t' d
      assume "(t, t', d) \<in> set (l_answers w')" "plain_stream t"
      then show "connection_outcome B t out d t'"
        using ans control_open_outcome [OF B _ dirs, of s S os_free "l_server w" mp srv' s' Finished] opens(2)
        unfolding opens(1) answers_opened by auto
    next
      fix t rid ports t1
      assume "(t, rid, ports, t1) \<in> set (l_waiting w')" "plain_stream t"
      then show "\<exists>data s0 h. recv_timeout t = (s0, Ok data) \<and> parse_handshake data = Ok h
          \<and> connection_waits (l_server w') t t1 out h rid"
        using old control_open_outcome [OF B _ dirs, of s S os_free "l_server w" mp srv' s' "Waiting rid ports"] opens(2)
        unfolding opens(1) waiting_opened by auto
    qed
  next
    case (closes s rid ports s1 srv' s' r)
    have new: "connection_outcome B s out (sdisk srv') s'" if "plain_stream s" "is_ok r"
      using told_waiting [OF inv(2) closes(2) that(1)] closes(3) that(2) connection_waits_outcome [OF B]
      unfolding is_ok_iff by blast
    show ?thesis
      using ans new old waiting_closed [of w "(s, rid, ports, s1)" srv' s' r]
      unfolding closes(1) by (intro told_truthI) (auto simp: answers_closed)
  qed (use old ans in \<open>auto intro!: told_truthI\<close>)
qed

interpretation truth: invariant_system "\<lambda>w. blake3_ok B \<and> out \<noteq> [] \<and> tmp \<noteq> [] \<and> w = life_start S d"
  "life_step S B out tmp mp" "\<lambda>w. blake3_ok B \<and> out \<noteq> [] \<and> tmp \<noteq> [] \<and> life_inv out tmp w \<and> told_truth B out w"
  for S :: "'p semaphore" and B :: "'h blake3" and out tmp mp d
proof unfold_locales
  show "blake3_ok B \<and> out \<noteq> [] \<and> tmp \<noteq> [] \<and> w = life_start S d \<Longrightarrow>
      blake3_ok B \<and> out \<noteq> [] \<and> tmp \<noteq> [] \<and> life_inv out tmp w \<and> told_truth B out w" for w
    by (simp add: life_inv_start) (simp add: told_truth_def life_start_def)
qed (blast intro: life_inv_step told_truth_step)

section \<open>Delivered files stay\<close>

text \<open>A step in which no connection announces the name.\<close>

definition other_step ::
  "'p semaphore \<Rightarrow> 'h blake3 \<Rightarrow> string \<Rightarrow> string \<Rightarrow> usize \<Rightarrow> string \<Rightarrow> 'p life \<Rightarrow> 'p life \<Rightarrow> bool" where
  "other_step S B output_dir temp_dir mp name w w' \<longleftrightarrow> life_step S B output_dir temp_dir mp w w'
     \<and> (\<forall>s. l_opened w' = s # l_opened w \<longrightarrow> name \<notin> announced s)"

definition idle :: "string \<Rightarrow> 'p life \<Rightarrow> bool" where
  "idle name w \<longleftrightarrow> (\<forall>(s, rid, ports, s1) \<in> set (l_waiting w). r_filename (receivers (l_server w) ! rid) \<noteq> name)"

lemma final_apart:
  assumes "out \<noteq> []" "tmp \<noteq> []" "path_of out \<noteq> path_of tmp" "plain_name name" "plain_name n"
  shows "path_of (out @ ''/'' @ name) \<notin> temp_files tmp n"
    and "n \<noteq> name \<Longrightarrow> path_of (out @ ''/'' @ name) \<notin> name_files out tmp n"
proof -
  have "path_of (out @ CHR ''/'' # name) \<noteq> path_of (tmp @ CHR ''/'' # f)" if "plain_name f" for f
    using assms(1-4) that by (auto simp: path_of_dir) (auto simp: path_of_def)
  then show t: "path_of (out @ ''/'' @ name) \<notin> temp_files tmp n"
    using plain_part_name [OF assms(5)] plain_meta_name [OF assms(5)] plain_tmp_name [OF assms(5)]
    by (auto simp: temp_files_def transfer_paths)
  show "n \<noteq> name \<Longrightarrow> path_of (out @ ''/'' @ name) \<notin> name_files out tmp n"
    using t assms(4,5) by (simp add: name_files_def path_of_dir)
qed

lemma idle_same:
  assumes "life_inv out tmp w" "idle name w" "step_confined P new (l_server w) srv'"
    and "(s, rid, ports, s1) \<in> set (l_waiting w)"
  shows "r_filename (receivers srv' ! rid) \<noteq> name"
proof -
  have "rid < length (receivers (l_server w))" "r_filename (receivers (l_server w) ! rid) \<noteq> name"
    using assms(1,2,4) by (auto simp: life_inv_def idle_def)
  then show ?thesis using assms(3) by (auto simp: step_confined_def same_transfer_def)
qed

lemma confined_file: "step_confined P new srv srv' \<Longrightarrow> q \<notin> P \<Longrightarrow> files (sdisk srv') q = files (sdisk srv) q"
  unfolding step_confined_def by (blast dest: writes_onlyD)

lemma other_step_keeps:
  assumes dirs: "out \<noteq> []" "tmp \<noteq> []" "path_of out \<noteq> path_of tmp" and n: "plain_name name"
    and inv: "life_inv out tmp w" and idle: "idle name w" and st: "other_step S B out tmp mp name w w'"
  shows "idle name w' \<and> files (sdisk (l_server w')) (path_of (out @ ''/'' @ name))
      = files (sdisk (l_server w)) (path_of (out @ ''/'' @ name))"
proof -
  let ?F = "path_of (out @ ''/'' @ name)"
  note apart = final_apart [OF dirs n]
  have step: "life_step S B out tmp mp w w'" using st by (simp add: other_step_def)
  note same = idle_same [OF inv idle conjunct1 [OF life_step_confined [OF dirs(1,2) inv step]]]
  have temp: "?F \<notin> all_temp_files tmp (names w)" using apart(1) names_plain by (auto simp: all_temp_files_def)
  have serve: "all_serve out tmp (names w) (l_server w)" using inv by (simp add: life_inv_def)
  have old: "idle name w'" if "set (l_waiting w') \<subseteq> set (l_waiting w)" using same that unfolding idle_def by blast
  from step show ?thesis
  proof cases
    case (opens os_free s srv' s' r)
    note o = control_open_confined [OF dirs(1,2) opens(2)]
    have new: "name \<notin> announced s" using st opens(1) by (simp add: other_step_def)
    then have "?F \<notin> (\<Union>n \<in> announced s. name_files out tmp n)" using apart(2) announced_plain by blast
    then have "files (sdisk srv') ?F = files (sdisk (l_server w)) ?F"
      using confined_file [OF conjunct1 [OF o]] by blast
    moreover have "r_filename (receivers srv' ! rid) \<noteq> name"
      if "(t, rid, ports, s1) \<in> set (l_waiting w')" for t rid ports s1
      using same [of t rid ports s1] o new that unfolding opens(1) waiting_opened by auto
    ultimately show ?thesis using opens(1) unfolding idle_def by auto
  next
    case (turns rid s)
    then show ?thesis using old confined_file [OF data_turn_confined [OF serve] temp] by simp
  next
    case (serves port accepts)
    then show ?thesis using old confined_file [OF serve_port_confined [OF serve] temp] by simp
  next
    case (closes s rid ports s1 srv' s' r)
    let ?rc = "receivers (l_server w) ! rid"
    have rc: "serves out tmp (names w) ?rc" using inv closes(2) by (auto simp: life_inv_def all_serve_def)
    have "r_filename ?rc \<noteq> name" using idle closes(2) by (auto simp: idle_def)
    then have "?F \<notin> files_of ?rc"
      using apart(2) [of "r_filename ?rc"] serves_files(2) [OF rc] rc by (simp add: serves_def dirs_ok_def)
    moreover have "dirs_ok ?rc" using rc by (simp add: serves_def)
    ultimately have "files (sdisk srv') ?F = files (sdisk (l_server w)) ?F"
      using confined_file [OF conjunct1 [OF control_close_confined [OF _ closes(3)]]] by blast
    then show ?thesis
      using old closes(1) set_remove1_subset [of "(s, rid, ports, s1)" "l_waiting w"] by simp
  qed
qed

lemma other_run_keeps:
  assumes dirs: "out \<noteq> []" "tmp \<noteq> []" "path_of out \<noteq> path_of tmp" and n: "plain_name name"
    and inv: "life_inv out tmp w" and idle: "idle name w" and run: "(other_step S B out tmp mp name)\<^sup>*\<^sup>* w w'"
  shows "idle name w' \<and> life_inv out tmp w' \<and> files (sdisk (l_server w')) (path_of (out @ ''/'' @ name))
      = files (sdisk (l_server w)) (path_of (out @ ''/'' @ name))"
  using run
proof (induction rule: rtranclp_induct)
  case (step w1 w2)
  then have "idle name w1" "life_inv out tmp w1" by simp_all
  with other_step_keeps [OF dirs n _ _ step.hyps(2)] life_inv_step [OF dirs(1,2)] step show ?case
    by (auto simp: other_step_def)
qed (use inv idle in simp)

section \<open>Parts of one transfer, file of another\<close>

text \<open>By default the parts are kept in the output directory (\<open>main.rs:69\<close>), beside delivered files.\<close>

lemma assemble_True_parts:
  assumes "dirs_ok rc" "assemble B rc d = (d', Ok True)" "i < r_num_chunks rc"
  shows "files d' (receiver_part rc i) = None"
proof -
  let ?out = "receiver_final rc"
  from assms(2) obtain d1 d2 h where
    cr: "file_create d ?out = (d1, Ok ())"
    and ap: "assemble_parts B rc ?out d1 (b3_new B) [0..<r_num_chunks rc] = (d2, Ok (Some h))"
    and d': "d' = fst (fs_remove d2 (receiver_meta rc))"
    by (auto simp: assemble_def join_final_eq [OF assms(1)] receiver_paths Let_def res_simps split: option.splits)
  have "files d1 ?out \<noteq> None" using cr by (auto simp: file_create_def split: if_splits)
  moreover have "receiver_part rc j \<noteq> ?out" for j using assms(1) by (simp add: transfer_files)
  ultimately have "\<forall>q. q \<noteq> ?out \<longrightarrow> files d2 q = (if q \<in> receiver_part rc ` set [0..<r_num_chunks rc] then None else files d1 q)"
    using assemble_parts_Ok [OF assms(1) distinct_upt _ _ ap] by blast
  moreover have "receiver_part rc i \<noteq> ?out" "receiver_part rc i \<in> receiver_part rc ` set [0..<r_num_chunks rc]"
    using assms(1,3) by (simp_all add: transfer_files)
  ultimately have "files d2 (receiver_part rc i) = None" by (metis (no_types, lifting))
  then show ?thesis using d' fs_remove_cases [of d2 "receiver_meta rc"] by auto
qed

section \<open>Properties\<close>

text \<open>Data for the witnesses: a server that keeps its parts in the output directory, where a file
  \<open>f.part0\<close> is, and on which a client transfers \<open>f\<close> in two chunks.\<close>

definition ex_old_disk :: disk where
  "ex_old_disk = empty_disk\<lparr>files := [path_of ''out/f.part0'' \<mapsto> [9]]\<rparr>"

definition ex_life_open :: "(nat server \<times> stream) \<times> control res" where
  "ex_life_open = control_open counter toy_blake3 (\<lambda>_. True) (server_new counter ex_old_disk) ex_handshake ''out'' ''out'' 2"

definition ex_life_chunk :: "usize \<Rightarrow> bytes \<Rightarrow> nat \<times> stream" where
  "ex_life_chunk i data = (0, stream_of (frame_bytes (chunk_message i 0 data (b3_hash toy_blake3 data))))"

definition ex_life_filled :: "nat server" where
  "ex_life_filled =
     data_turn toy_blake3 (data_turn toy_blake3 (fst (fst ex_life_open)) (ex_life_chunk 1 [3])) (ex_life_chunk 0 [1, 2])"

definition ex_life_close :: "(nat server \<times> stream) \<times> unit res" where
  "ex_life_close =
     control_close counter toy_blake3 ex_life_filled (snd (fst ex_life_open)) 0 [45000, 45001]"

lemma ex_life_opened:
  "case ex_life_open of ((srv, s), r) \<Rightarrow> r = Ok (Waiting 0 [45000, 45001]) \<and> plain_stream s
     \<and> tx s = frame_bytes (response_bytes RESP_OK [45000, 45001])"
  by code_simp

lemma ex_life_receiver:
  "map (\<lambda>rc. (dirs_ok rc, r_parts_dir rc, r_output_dir rc, r_filename rc, r_num_chunks rc,
       r_full_hash rc = b3_hash toy_blake3 ex_content)) (receivers ex_life_filled)
     = [(True, ''out'', ''out'', ''f'', 2, True)]"
  by code_simp

definition ex_life_first :: receiver where
  "ex_life_first = receivers ex_life_filled ! 0"

lemma ex_life_first:
  "ex_life_first = receivers ex_life_filled ! 0" "dirs_ok ex_life_first" "r_output_dir ex_life_first = ''out''"
  "r_filename ex_life_first = ''f''" "r_full_hash ex_life_first = b3_hash toy_blake3 ex_content"
  "r_parts_dir ex_life_first = ''out''" "r_num_chunks ex_life_first = 2"
proof -
  have "length (receivers ex_life_filled) = 1" using arg_cong [OF ex_life_receiver, of length] by simp
  then have "receivers ex_life_filled = [ex_life_first]"
    unfolding ex_life_first_def by (metis length_0_conv length_Suc_conv nth_Cons_0 One_nat_def)
  then show "ex_life_first = receivers ex_life_filled ! 0" "dirs_ok ex_life_first" "r_output_dir ex_life_first = ''out''"
    "r_filename ex_life_first = ''f''" "r_full_hash ex_life_first = b3_hash toy_blake3 ex_content"
    "r_parts_dir ex_life_first = ''out''" "r_num_chunks ex_life_first = 2"
    using ex_life_receiver by (simp_all del: toy_hash)
qed

lemma ex_life_closed:
  "case ex_life_close of ((srv, s), r) \<Rightarrow> r = Ok ()
     \<and> tx s = frame_bytes (response_bytes RESP_OK [45000, 45001]) @ frame_bytes [RESP_OK]
     \<and> files (sdisk srv) (path_of ''out/f'') = Some [1, 2, 3]"
  by code_simp

lemma ex_life_facts:
  "snd ex_life_open = Ok (Waiting 0 [45000, 45001])" "plain_stream (snd (fst ex_life_open))"
  "snd ex_life_close = Ok ()" "tx (snd (fst ex_life_close)) = tx (snd (fst ex_life_open)) @ frame_bytes [RESP_OK]"
  "tx (snd (fst ex_life_close)) = frame_bytes (response_bytes RESP_OK [45000, 45001]) @ frame_bytes [RESP_OK]"
  "files (sdisk (fst (fst ex_life_close))) (path_of ''out/f'') = Some [1, 2, 3]"
  using ex_life_opened ex_life_closed by (auto simp: split_beta)

abbreviation ex_life_step :: "nat life \<Rightarrow> nat life \<Rightarrow> bool" where
  "ex_life_step \<equiv> life_step counter toy_blake3 ''out'' ''out'' 2"

definition ex_life1 :: "nat life" where
  "ex_life1 = connection_opened (life_start counter ex_old_disk) ex_handshake (fst (fst ex_life_open))
     (snd (fst ex_life_open)) (snd ex_life_open)"

definition ex_life2 :: "nat life" where
  "ex_life2 = connection_closed (ex_life1\<lparr>l_server := ex_life_filled\<rparr>)
     (ex_handshake, 0, [45000, 45001], snd (fst ex_life_open)) (fst (fst ex_life_close)) (snd (fst ex_life_close)) (snd ex_life_close)"

lemma ex_life_run:
  "ex_life_step (life_start counter ex_old_disk) ex_life1" "ex_life_step\<^sup>*\<^sup>* ex_life1 ex_life2"
proof -
  let ?w2 = "ex_life1\<lparr>l_server := data_turn toy_blake3 (l_server ex_life1) (ex_life_chunk 1 [3])\<rparr>"
  let ?w3 = "ex_life1\<lparr>l_server := ex_life_filled\<rparr>"
  show "ex_life_step (life_start counter ex_old_disk) ex_life1"
    unfolding ex_life1_def
    by (rule life_step.opens [where os_free = "\<lambda>_. True"]) (simp add: life_start_def ex_life_open_def)
  have "ex_life_step ex_life1 ?w2" unfolding ex_life_chunk_def by (rule life_step.turns)
  moreover have "ex_life_step ?w2 ?w3"
    using life_step.turns [of counter toy_blake3 "''out''" "''out''" 2 ?w2 0 "snd (ex_life_chunk 0 [1, 2])"]
    by (simp add: ex_life_filled_def ex_life_chunk_def ex_life1_def)
  moreover have "ex_life_step ?w3 ex_life2"
    unfolding ex_life2_def
  proof (rule life_step.closes)
    show "(ex_handshake, 0, [45000, 45001], snd (fst ex_life_open)) \<in> set (l_waiting ?w3)"
      by (simp add: ex_life1_def waiting_opened ex_life_facts)
    show "control_close counter toy_blake3 (l_server ?w3) (snd (fst ex_life_open)) 0 [45000, 45001]
        = ((fst (fst ex_life_close), snd (fst ex_life_close)), snd ex_life_close)"
      by (simp add: ex_life_close_def)
  qed
  ultimately show "ex_life_step\<^sup>*\<^sup>* ex_life1 ex_life2" by (meson converse_rtranclp_into_rtranclp rtranclp.rtrancl_refl)
qed

lemma ex_life_reached:
  "reach (\<lambda>w. w = life_start counter ex_old_disk) ex_life_step ex_life1"
  "reach (\<lambda>w. w = life_start counter ex_old_disk) ex_life_step ex_life2"
proof -
  show r: "reach (\<lambda>w. w = life_start counter ex_old_disk) ex_life_step ex_life1"
    using ex_life_run(1) by (intro reach.move [OF reach.start]) simp_all
  show "reach (\<lambda>w. w = life_start counter ex_old_disk) ex_life_step ex_life2"
    using r ex_life_run(2) by (rule reach_trans)
qed

lemma ex_life_answer: "(ex_handshake, snd (fst ex_life_close), sdisk (fst (fst ex_life_close))) \<in> set (l_answers ex_life2)"
  by (simp add: ex_life2_def answers_closed is_ok_iff ex_life_facts)



text \<open>C7: The server writes only what it may. Whatever clients announce and send, and however their
  connections interleave, a file that changes between two moments of a server's life lies directly in
  the output or the temp directory, under a plain name, and belongs to a name some client has announced.\<close>

theorem writes_confined:
  assumes "output_dir \<noteq> []" "temp_dir \<noteq> []"
    and "reach (\<lambda>w. w = life_start S d) (life_step S B output_dir temp_dir mp) w"
    and "(life_step S B output_dir temp_dir mp)\<^sup>*\<^sup>* w w'"
    and "files (sdisk (l_server w')) p \<noteq> files (sdisk (l_server w)) p"
  shows "(\<exists>n. plain_name n \<and> (p = path_of (output_dir @ ''/'' @ n) \<or> p = path_of (temp_dir @ ''/'' @ n)))
    \<and> (\<exists>name \<in> names w'. p \<in> name_files output_dir temp_dir name)"
proof -
  have "life_inv output_dir temp_dir w" using life.reach_inv [of output_dir temp_dir S d B mp w] assms(1-3) by simp
  from life_run_confined [OF assms(1,2) this assms(4)] assms(5)
  obtain name where "name \<in> names w'" "p \<in> name_files output_dir temp_dir name"
    using writes_onlyD unfolding all_files_def by blast
  then show ?thesis using name_files_dirs [OF names_plain] by blast
qed

lemma writes_confined_witness:
  "\<exists>w w'. reach (\<lambda>w. w = life_start counter ex_old_disk) ex_life_step w \<and> ex_life_step\<^sup>*\<^sup>* w w'
     \<and> files (sdisk (l_server w')) (path_of ''out/f'') \<noteq> files (sdisk (l_server w)) (path_of ''out/f'')
     \<and> (\<exists>name \<in> names w'. path_of ''out/f'' \<in> name_files ''out'' ''out'' name)"
proof -
  let ?w = "life_start counter ex_old_disk"
  have r: "reach (\<lambda>w. w = life_start counter ex_old_disk) ex_life_step ?w" by (rule reach.start) simp
  have run: "ex_life_step\<^sup>*\<^sup>* ?w ex_life2" using ex_life_run by (rule converse_rtranclp_into_rtranclp)
  have "files ex_old_disk (path_of ''out/f'') = None" by code_simp
  then have c: "files (sdisk (l_server ex_life2)) (path_of ''out/f'') \<noteq> files (sdisk (l_server ?w)) (path_of ''out/f'')"
    by (simp add: ex_life2_def life_start_def server_new_def ex_life_facts)
  show ?thesis using writes_confined [OF _ _ r run c] r run c by blast
qed

text \<open>C8: A file that the server has delivered stays as it is: while no connection for its name waits and
  none announces it, no client, no data connection left over from an earlier transfer and no other
  transfer changes it, provided that the parts are kept in another directory.\<close>

theorem delivered_file_stays:
  assumes "output_dir \<noteq> []" "temp_dir \<noteq> []" "path_of output_dir \<noteq> path_of temp_dir" "plain_name name"
    and "reach (\<lambda>w. w = life_start S d) (life_step S B output_dir temp_dir mp) w"
    and "idle name w" "(other_step S B output_dir temp_dir mp name)\<^sup>*\<^sup>* w w'"
    and "delivered B (sdisk (l_server w)) output_dir name full_hash"
  shows "delivered B (sdisk (l_server w')) output_dir name full_hash"
proof -
  have "life_inv output_dir temp_dir w" using life.reach_inv [of output_dir temp_dir S d B mp w] assms(1,2,5) by simp
  from other_run_keeps [OF assms(1-4) this assms(6,7)] show ?thesis using assms(8) by (simp add: delivered_def)
qed

lemma delivered_file_stays_witness:
  "\<exists>w'. (other_step counter toy_blake3 ''out'' ''tmp'' 2 ''g'')\<^sup>*\<^sup>* (life_start counter (ex_old_disk\<lparr>files := [path_of ''out/g'' \<mapsto> [9]]\<rparr>)) w'
     \<and> l_opened w' = [ex_handshake] \<and> delivered toy_blake3 (sdisk (l_server w')) ''out'' ''g'' (b3_hash toy_blake3 [9])"
proof -
  let ?d = "ex_old_disk\<lparr>files := [path_of ''out/g'' \<mapsto> [9]]\<rparr>"
  let ?w = "life_start counter ?d"
  let ?X = "control_open counter toy_blake3 (\<lambda>_. True) (l_server ?w) ex_handshake ''out'' ''tmp'' 2"
  let ?w' = "connection_opened ?w ex_handshake (fst (fst ?X)) (snd (fst ?X)) (snd ?X)"
  have "''g'' \<notin> announced ex_handshake" by code_simp
  moreover have "life_step counter toy_blake3 ''out'' ''tmp'' 2 ?w ?w'" by (rule life_step.opens) simp
  ultimately have st: "(other_step counter toy_blake3 ''out'' ''tmp'' 2 ''g'')\<^sup>*\<^sup>* ?w ?w'"
    by (intro r_into_rtranclp) (simp add: other_step_def)
  have r: "reach (\<lambda>w. w = ?w) (life_step counter toy_blake3 ''out'' ''tmp'' 2) ?w" by (rule reach.start) simp
  have p: "plain_name ''g''" "path_of ''out'' \<noteq> path_of ''tmp''" by code_simp+
  have i: "idle ''g'' ?w" by (simp add: idle_def life_start_def)
  have dl: "delivered toy_blake3 (sdisk (l_server ?w)) ''out'' ''g'' (b3_hash toy_blake3 [9])"
    by (simp add: delivered_def life_start_def server_new_def del: toy_hash)
  from delivered_file_stays [OF _ _ p(2,1) r i st dl] show ?thesis
    using st by (intro exI [of _ ?w']) (simp add: life_start_def)
qed

text \<open>C27: With the default configuration, where the parts are kept in the output directory, a transfer
  that succeeds deletes the files of other transfers that are named like its parts: after the server has
  told a client that \<open>f\<close> is transferred, no file \<open>f.part0\<close> is there, although the server may have
  delivered a file of that name.\<close>

theorem part_name_destroyed:
  assumes "rc = receivers srv ! rid" "dirs_ok rc" "r_parts_dir rc = r_output_dir rc" "i < r_num_chunks rc"
    and "plain_stream s" "control_close S B srv s rid ports = ((srv', s'), Ok u)"
    and "tx s' = tx s @ frame_bytes [RESP_OK]"
  shows "\<not> delivered B (sdisk srv') (r_output_dir rc) (r_filename rc @ ''.part'' @ decimal i) full_hash"
proof -
  from control_close_result [OF assms(6,1)] obtain d' r where
    s': "srv' = cleanup S (srv\<lparr>sdisk := d'\<rparr>) ports" "s' = fst (send_timeout s [final_status (succeeded r)])"
    and ok: "succeeded r \<longrightarrow> assemble_file B rc (sdisk srv) = (d', r)" by blast
  have "frame_bytes [final_status (succeeded r)] = frame_bytes [RESP_OK]"
    using s'(2) assms(5,7) by (simp add: send_timeout_plain)
  then have "succeeded r" by (auto simp: frame_bytes_def final_status_def RESP_OK_def RESP_ERR_def split: if_splits)
  then have "assemble B rc (sdisk srv) = (d', Ok True)" using ok by (simp add: succeeded_def assemble_file_def)
  from assemble_True_parts [OF assms(2) this assms(4)] show ?thesis
    using s'(1) assms(3) by (simp add: delivered_def receiver_part_def transfer_paths)
qed

lemma part_name_destroyed_witness:
  "delivered toy_blake3 ex_old_disk ''out'' ''f.part0'' (b3_hash toy_blake3 [9])
   \<and> \<not> delivered toy_blake3 (sdisk (fst (fst ex_life_close))) ''out'' ''f.part0'' (b3_hash toy_blake3 [9])"
proof -
  have "control_close counter toy_blake3 ex_life_filled (snd (fst ex_life_open)) 0 [45000, 45001]
      = ((fst (fst ex_life_close), snd (fst ex_life_close)), Ok ())"
    using ex_life_facts(3) by (simp add: ex_life_close_def prod_eq_iff)
  from part_name_destroyed [OF ex_life_first(1,2) _ _ ex_life_facts(2) this ex_life_facts(4), of 0 "b3_hash toy_blake3 [9]"]
    ex_life_first(3-7)
  have "\<not> delivered toy_blake3 (sdisk (fst (fst ex_life_close))) ''out'' (''f'' @ ''.part'' @ decimal 0) (b3_hash toy_blake3 [9])"
    by (simp del: toy_hash)
  moreover have "''f'' @ ''.part'' @ decimal 0 = ''f.part0''" by code_simp
  moreover have "delivered toy_blake3 ex_old_disk ''out'' ''f.part0'' (b3_hash toy_blake3 [9])"
    by (simp add: delivered_def ex_old_disk_def del: toy_hash)
  ultimately show ?thesis by simp
qed

end
