(* ===== verification/Hazards.thy ===== *)
theory Hazards
  imports End_To_End Service
begin

text \<open>
  Where an honest client and an honest server fail together: a read of the source file that delivers
  less than a chunk, two transfers at the same time whose files have the same name, a chunk injected by a
  stranger, and a worker that comes late.
\<close>

section \<open>A short read of the source file\<close>

lemma check_chunk_wrong_size:
  assumes "i < 2 ^ 32" "length cd < 2 ^ 32" "length h = 32" "length cd \<noteq> expected_chunk_size rc i"
  shows "check_chunk rc (chunk_message i off cd h) = Ok None"
  using chunk_header_message [OF assms(1,2), of off h "[]"] assms(3,4)
  by (simp add: check_chunk_def length_chunk_message CHUNK_HEADER_SIZE_def CHUNK_HASH_SIZE_def)

lemma recv_nothing:
  assumes "rx s = []"
  shows "\<exists>t e. recv_with_timeout s T = (t, Err e) \<and> tx t = tx s"
  using assms by (cases "rx_delays s")
    (auto simp: recv_with_timeout_def recv_def read_exact_def FRAME_HEADER_SIZE_def split: prod.splits)

lemma send_attempts_unanswered:
  assumes "plain_stream (w_stream w)" "\<not> w_flag w" "flag_env w = []" "rx (w_stream w) = []"
  shows "\<exists>w' e. send_attempts w ps tot a (Suc n) = (w', Err e)
    \<and> tx (w_stream w') = tx (w_stream w) @ frame_bytes (concat ps)"
proof -
  let ?s1 = "(w_stream w)\<lparr>tx := tx (w_stream w) @ frame_bytes (concat ps)\<rparr>"
  have s1: "send_parts_within (w_stream w) T ps = (?s1, Ok ())" for T
    using assms(1) by (simp add: plain_stream_def send_parts_within_def send_within_plain send_parts_concat send_frame)
  have lf: "load_flag (w\<lparr>w_stream := ?s1\<rparr>) = (w\<lparr>w_stream := ?s1\<rparr>, False)"
    using assms(2,3) by (cases w) (simp add: load_flag_def)
  obtain t e where "recv_with_timeout ?s1 (attempt_timeout tot a) = (t, Err e)" "tx t = tx ?s1"
    using recv_nothing [of ?s1] assms(4) by force
  then show ?thesis using s1 lf by (simp add: Let_def)
qed

section \<open>Two transfers of one name\<close>

definition same_name :: "receiver \<Rightarrow> receiver \<Rightarrow> bool" where
  "same_name rc rc2 \<longleftrightarrow> r_filename rc2 = r_filename rc \<and> r_parts_dir rc2 = r_parts_dir rc"

text \<open>The parts of the first transfer after a chunk of the second one has arrived.\<close>

definition overwritten :: "receiver \<Rightarrow> bytes \<Rightarrow> receiver \<Rightarrow> bytes \<Rightarrow> usize \<Rightarrow> usize \<Rightarrow> bytes" where
  "overwritten rc content rc2 content2 i j =
     (if j = i then chunk_slice (r_chunk_size rc2) content2 i else chunk_slice (r_chunk_size rc) content j)"

lemma clash_parts:
  assumes B: "blake3_ok B" and oc: "on_course B content rc d" "on_course B content2 rc2 d"
    and ne: "content2 \<noteq> []" and hl: "\<And>p. healthy d p" and nm: "same_name rc rc2"
    and t: "honest_turn B rc2 content2 s i" and compl: "is_complete rc"
    and it: "data_iteration B rc2 d s = ((rc2', d', s'), r)"
  shows "\<forall>j < r_num_chunks rc. files d' (receiver_part rc j) = Some (overwritten rc content rc2 content2 i j)"
    and "\<forall>p. healthy d' p"
proof -
  have parts: "receiver_part rc2 = receiver_part rc" using nm by (simp add: same_name_def receiver_part_def fun_eq_iff)
  have wf: "receiver_wf rc" and all: "\<And>j. j < r_num_chunks rc \<Longrightarrow> received_chunks rc ! j"
    using oc(1) compl is_complete_iff by (auto simp: on_course_def data_inv_def)
  have inv2: "data_inv B rc2 d" using oc(2) by (simp add: on_course_def)
  from honest_turn_step [OF B oc(2) ne hl t] it have
    rc2': "rc2' = recorded rc2 i (b3_hash B (chunk_slice (r_chunk_size rc2) content2 i))"
    and oc2': "on_course B content2 rc2' d'" and sf: "same_faults d d'"
    and others: "\<And>j. j \<noteq> i \<Longrightarrow> files d' (receiver_part rc2 j) = files d (receiver_part rc2 j)" by auto
  show "\<forall>p. healthy d' p" using same_faults_healthy [OF sf] hl by blast
  have i: "i < r_num_chunks rc2" using t by (simp add: honest_turn_def)
  have len: "length (received_chunks rc2) = r_num_chunks rc2" using inv2 by (simp add: data_inv_def receiver_wf_def)
  have same2: "same_transfer rc2 rc2'" unfolding rc2' by simp
  have "received_chunks rc2' ! i" using i len by (simp add: rc2' recorded_def)
  then have "files d' (receiver_part rc2' i) = Some (chunk_slice (r_chunk_size rc2') content2 i)"
    using oc2' i same2 by (simp add: on_course_def same_transfer_def)
  then have "files d' (receiver_part rc i) = Some (chunk_slice (r_chunk_size rc2) content2 i)"
    using same_transfer_paths(1) [OF same2] same2 parts by (simp add: same_transfer_def)
  moreover have "files d (receiver_part rc j) = Some (chunk_slice (r_chunk_size rc) content j)" if "j < r_num_chunks rc" for j
    using oc(1) all [OF that] that by (simp add: on_course_def)
  ultimately show "\<forall>j < r_num_chunks rc. files d' (receiver_part rc j) = Some (overwritten rc content rc2 content2 i j)"
    using others parts by (simp add: overwritten_def)
qed

text \<open>Closing a complete transfer whose parts do not make the promised file.\<close>

lemma ruined_close:
  assumes B: "blake3_ok B" and hl: "\<And>p. healthy (sdisk srv) p"
    and rc: "rc = receivers srv ! rid" "dirs_ok rc" "\<not> r_failed rc" "is_complete rc"
    and parts: "\<And>j. j < r_num_chunks rc \<Longrightarrow> files (sdisk srv) (receiver_part rc j) = Some (parts j)"
    and mixed: "mixed = concat (map parts [0..<r_num_chunks rc])" "b3_hash B mixed \<noteq> r_full_hash rc"
    and pl: "plain_stream c"
  shows "\<exists>srv' c'. control_close S B srv c rid ports = ((srv', c'), Ok ())
    \<and> tx c' = tx c @ frame_bytes [RESP_ERR] \<and> files (sdisk srv') (receiver_final rc) = Some mixed
    \<and> files (sdisk srv') (receiver_meta rc) = None
    \<and> (\<forall>j < r_num_chunks rc. files (sdisk srv') (receiver_part rc j) = None)"
proof -
  from assemble_complete [OF rc(2) B hl parts] mixed obtain d2 where
    "assemble B rc (sdisk srv) = (d2, Ok False)" "files d2 (receiver_final rc) = Some mixed"
    "files d2 (receiver_meta rc) = None" "\<forall>j < r_num_chunks rc. files d2 (receiver_part rc j) = None" by auto
  then show ?thesis
    using rc pl
    by (simp add: control_close_def assemble_file_def succeeded_def final_status_def send_timeout_plain
        cleanup_def Let_def foldl_remove release_ports_def)
qed

section \<open>A worker that comes late\<close>

lemma unanswered_query:
  assumes "rx (w_stream w) = []"
  shows "\<exists>w' e. query_received w = (w', Err e)"
proof -
  obtain s1 r where sd: "send_timeout (w_stream w) [QUERY_MAGIC] = (s1, r)" by (metis surj_pair)
  then have "rx s1 = []" using send_timeout_rx [of "w_stream w" "[QUERY_MAGIC]"] assms by simp
  then obtain t e where "recv_timeout s1 = (t, Err e)"
    using recv_nothing [of s1] unfolding recv_timeout_def by blast
  moreover have "r \<noteq> Panic" using send_timeout_not_Panic [of "w_stream w" "[QUERY_MAGIC]"] sd by simp
  ultimately show ?thesis using sd by (cases r) (auto simp: query_received_def)
qed

lemma unanswered_worker:
  assumes "rx s = []" "e_data env w port = Some s" "e_flags env w = []"
  shows "\<exists>ws. spawn_worker B d c env n w port chunks = (ws, Ok ([], chunks))"
proof -
  let ?w0 = "\<lparr>w_stream = stream_of [], w_flag = False, flag_env = []\<rparr>"
  obtain w' e where "query_received (?w0\<lparr>w_stream := s\<rparr>) = (w', Err e)"
    using unanswered_query [of "?w0\<lparr>w_stream := s\<rparr>"] assms(1) by auto
  moreover have "load_flag ?w0 = (?w0, False)" by (simp add: load_flag_def)
  ultimately show ?thesis
    using assms(2,3) by (simp add: spawn_worker_def worker_def worker_config_of_def)
qed

lemma run_workers_from_failed:
  assumes "run_workers_from B d c env n ports w ls = Ok (failed, flag)" "i < length ls" "ls ! i \<noteq> []"
    and "spawn_worker B d c env n (w + i) (ports ! ((w + i) mod length ports)) (ls ! i) = (ws, Ok (sent, lost))"
  shows "set lost \<subseteq> set failed"
  using assms
proof (induction ls arbitrary: w i failed flag)
  case (Cons l ls)
  show ?case
  proof (cases i)
    case 0
    then show ?thesis using Cons.prems by (auto simp: Let_def res_simps split: if_splits)
  next
    case (Suc j)
    obtain x r where sp: "spawn_worker B d c env n w (ports ! (w mod length ports)) l = (x, r)" by (metis surj_pair)
    obtain f2 g2 where tl: "run_workers_from B d c env n ports (Suc w) ls = Ok (f2, g2)"
      using Cons.prems(1) sp by (auto simp: Let_def res_simps split: if_splits)
    then have g: "set f2 \<subseteq> set failed"
      using Cons.prems(1) sp by (cases r) (auto simp: Let_def split: if_splits)
    from Cons.IH [OF tl, of j] Cons.prems Suc g show ?thesis by simp
  qed
qed simp

text \<open>After cleanup the ports of a transfer lead nowhere: a connection is closed without an answer.\<close>

lemma closed_port_unanswered:
  assumes "control_close S B srv s rid ports = ((srv', s'), Ok u)" "port \<in> set ports"
  shows "handle_data_connection B srv' c port = ((srv', c), Ok ())"
proof -
  obtain d where "srv' = cleanup S (srv\<lparr>sdisk := d\<rparr>) ports" using control_close_shape [OF assms(1)] by blast
  then have "get_receiver srv' port = None"
    using assms(2) by (auto simp: get_receiver_def cleanup_def Let_def foldl_remove release_ports_def)
  then show ?thesis by (simp add: handle_data_connection_def)
qed

section \<open>Properties\<close>

text \<open>C24: A client may exit with 1 after its file is delivered. In a resumed transfer a worker may have
  nothing to send; when it connects after the other workers' chunks have completed the transfer, the
  server has told success on the control connection and removed the ports from the registry, so it closes
  the worker's connection unanswered; the worker counts all its chunks, which the server has, as failed,
  and the client exits with 1 without reading the final status.\<close>

theorem late_worker_fails_run:
  assumes B: "blake3_ok B" and rc: "rc = receivers srv ! rid" "dirs_ok rc" "plain_stream s"
    and close: "control_close S B srv s rid ports = ((srv', s'), Ok u)" "tx s' = tx s @ frame_bytes [RESP_OK]"
    and client: "setup_transfer d cc = Ok (n, k)" "ports \<noteq> []"
      "perform_handshake B d cc (e_control env) = Ok (Some (cs, RESP_OK, ports))"
    and late: "w < length (setup_workers cc k ports)" "setup_workers cc k ports ! w \<noteq> []"
      "handle_data_connection B srv' c (ports ! (w mod length ports)) = ((srv2, c'), r)" "tx c = []"
      "e_data env w (ports ! (w mod length ports)) = Some ds" "rx ds = tx c'" "e_flags env w = []"
    and calm: "run_workers B d cc env (setup_workers cc k ports) ports n = Ok (failed, False)" "\<not> e_interrupt env"
  shows "delivered B (sdisk srv') (r_output_dir rc) (r_filename rc) (r_full_hash rc)
    \<and> set (setup_workers cc k ports ! w) \<subseteq> set failed \<and> run_client B d cc env = Ok (1, False)"
proof -
  let ?l = "setup_workers cc k ports" and ?p = "ports ! (w mod length ports)"
  from control_close_outcome [OF rc(1,2) B rc(3) close(1)] obtain b where
    b: "tx s' = tx s @ frame_bytes [final_status b]"
      "b \<longrightarrow> delivered B (sdisk srv') (r_output_dir rc) (r_filename rc) (r_full_hash rc)" by blast
  have "b" using b(1) close(2) by (cases b) (simp_all add: frame_bytes_def final_status_def RESP_OK_def RESP_ERR_def)
  have "?p \<in> set ports" using client(2) by (simp add: nth_mem)
  from closed_port_unanswered [OF close(1) this] late(3-6) have "rx ds = []" by simp
  from unanswered_worker [OF this late(5,7)] obtain ws where
    "spawn_worker B d cc env n w ?p (?l ! w) = (ws, Ok ([], ?l ! w))" by blast
  then have sub: "set (?l ! w) \<subseteq> set failed"
    using run_workers_from_failed [OF calm(1) [unfolded run_workers_def] late(1,2)] by simp
  then have "failed \<noteq> []" using late(2) by auto
  then have "transfer_chunks B d cc env cs n k ports = Ok (1, False)"
    using calm client(2) by (simp add: transfer_chunks_def)
  then have "run_client B d cc env = Ok (1, False)" using client(1,3) by (simp add: run_client_def)
  then show ?thesis using b(2) \<open>b\<close> sub by blast
qed

definition ex_late_env :: client_env where
  "ex_late_env =
     \<lparr>e_control = Some (stream_of (frame_bytes (response_bytes RESP_OK [45000, 45001]) @ frame_bytes [RESP_OK])),
      e_data = (\<lambda>w _. Some (stream_of (if w = 0 then frame_bytes (query_response [1]) @ frame_bytes [ACK_OK] else []))),
      e_flags = (\<lambda>_. []), e_interrupt = False\<rparr>"

lemma late_worker_fails_run_witness:
  "delivered toy_blake3 (sdisk (fst (fst ex_life_close))) ''out'' ''f'' (b3_hash toy_blake3 ex_content)
   \<and> run_client toy_blake3 ex_source ex_client ex_late_env = Ok (1, False)"
proof -
  have st: "setup_transfer ex_source ex_client = Ok (3, 2)" by code_simp
  have su: "setup_workers ex_client 2 [45000, 45001] = [[0], [1]]" by code_simp
  let ?h = "perform_handshake toy_blake3 ex_source ex_client (e_control ex_late_env)"
  have "res_map (map_option snd) ?h = Ok (Some (RESP_OK, [45000, 45001]))" by code_simp
  then obtain x where "?h = Ok x" "map_option snd x = Some (RESP_OK, [45000, 45001])" unfolding res_map_Ok_iff by metis
  then obtain cs where h: "?h = Ok (Some (cs, RESP_OK, [45000, 45001]))" by (cases x) auto
  have rw: "run_workers toy_blake3 ex_source ex_client ex_late_env [[0], [1]] [45000, 45001] 3 = Ok ([1], False)" by code_simp
  have cl: "control_close counter toy_blake3 ex_life_filled (snd (fst ex_life_open)) 0 [45000, 45001]
      = ((fst (fst ex_life_close), snd (fst ex_life_close)), Ok ())"
    using ex_life_facts(3) by (simp add: ex_life_close_def prod_eq_iff)
  let ?c = "stream_of (frame_bytes [QUERY_MAGIC])"
  have hd: "handle_data_connection toy_blake3 (fst (fst ex_life_close)) ?c ([45000, 45001] ! (1 mod length [45000, 45001 :: u16]))
      = ((fst (fst ex_life_close), ?c), Ok ())"
    by (rule closed_port_unanswered [OF cl]) simp
  have w: "1 < length (setup_workers ex_client 2 [45000, 45001])" "setup_workers ex_client 2 [45000, 45001] ! 1 \<noteq> []"
    unfolding su by simp_all
  have e: "e_data ex_late_env 1 p = Some (stream_of [])" "e_flags ex_late_env 1 = []" "\<not> e_interrupt ex_late_env" for p
    by (simp_all add: ex_late_env_def)
  have t: "tx ?c = []" "rx (stream_of []) = tx ?c" by (simp_all add: stream_of_def)
  show ?thesis
    using late_worker_fails_run [OF toy_blake3_ok ex_life_first(1) ex_life_first(2) ex_life_facts(2) cl ex_life_facts(4)
        st _ h w hd t(1) e(1) t(2) e(2) rw [folded su] e(3)] ex_life_first(3-5) by simp
qed


text \<open>C29: A short read loses a chunk: \<open>send_chunk\<close> calls \<open>read\<close> once, so when the operating system delivers
  fewer bytes than the chunk has, it sends a message of that size; the server drops the message without
  an answer, whatever its state, and the worker, unanswered, fails.\<close>

theorem short_read_loses_chunk:
  assumes B: "blake3_ok B" and p: "promised rc content" "content \<noteq> []" and i: "i < r_num_chunks rc"
    and src: "files d (path_of f) = Some content" "\<not> open_err d (path_of f)" "\<not> read_err d (path_of f) (unat off)"
    and off: "unat off = i * r_chunk_size rc"
    and short: "short_read d (path_of f) (unat off) = Some k" "Suc k < expected_chunk_size rc i"
    and w: "plain_stream (w_stream w)" "\<not> w_flag w" "flag_env w = []" "rx (w_stream w) = []" "0 < retries"
  shows "\<exists>w' e m. send_chunk B d w f i off (expected_chunk_size rc i) retries = (w', Err e)
    \<and> tx (w_stream w') = tx (w_stream w) @ frame_bytes m \<and> (\<forall>ds s. process_chunk B rc ds s m = ((rc, ds, s), Ok ()))"
proof -
  let ?n = "expected_chunk_size rc i" and ?bs = "take (Suc k) (drop (unat off) content)"
  let ?m = "chunk_message i off ?bs (b3_hash B ?bs)"
  have slice: "?n = length (chunk_slice (r_chunk_size rc) content i)" by (rule expected_is_slice [OF p i])
  have small: "r_num_chunks rc \<le> 1000000" "r_chunk_size rc < 2 ^ 32" using p(1) by (simp_all add: promised_def MAX_CHUNKS_def)
  have "Suc k < length (drop (unat off) content)" "?n \<le> r_chunk_size rc"
    using short(2) slice off by (simp_all add: chunk_slice_def)
  then have len: "length ?bs = Suc k" "length ?bs < 2 ^ 32" using short(2) small(2) by simp_all
  have "check_chunk rc ?m = Ok None"
    using B i small(1) len short(2) by (intro check_chunk_wrong_size) (simp_all add: blake3_ok_def)
  then have drop: "process_chunk B rc ds s ?m = ((rc, ds, s), Ok ())" for ds s by (simp add: process_chunk_def)
  obtain n where n: "retries = Suc n" using w(5) gr0_implies_Suc by blast
  have "file_read_at d (path_of f) (unat off) ?n = Ok ?bs"
    using src short by (simp add: file_read_at_def read_count_def contents_def min_def)
  then have sc: "send_chunk B d w f i off ?n retries = send_attempts w [chunk_header_bytes i off (length ?bs), ?bs, b3_hash B ?bs]
      (CHUNK_HEADER_SIZE + length ?bs + CHUNK_HASH_SIZE) 0 (Suc n)"
    using src n by (simp add: send_chunk_def file_open_def calc_hash_def Let_def del: send_attempts.simps length_take)
  from send_attempts_unanswered [OF w(1-4), of "[chunk_header_bytes i off (length ?bs), ?bs, b3_hash B ?bs]"
      "CHUNK_HEADER_SIZE + length ?bs + CHUNK_HASH_SIZE" 0 n]
  show ?thesis unfolding sc chunk_parts using drop by blast
qed

definition ex_short :: disk where
  "ex_short = ex_source\<lparr>short_read := (\<lambda>p pos. if pos = 0 then Some 0 else None)\<rparr>"

lemma short_read_loses_chunk_witness:
  "\<exists>w' e m. send_chunk toy_blake3 ex_short (worker_start (stream_of [])) ''f'' 0 0 2 3 = (w', Err e)
     \<and> tx (w_stream w') = frame_bytes m
     \<and> process_chunk toy_blake3 ex_receiver empty_disk (stream_of []) m = ((ex_receiver, empty_disk, stream_of []), Ok ())"
proof -
  let ?w = "worker_start (stream_of [])"
  have e: "expected_chunk_size ex_receiver 0 = 2" "r_chunk_size ex_receiver = 2" "r_num_chunks ex_receiver = 2" by code_simp+
  have "files ex_short (path_of ''f'') = Some ex_content" "\<not> open_err ex_short (path_of ''f'')"
    "\<not> read_err ex_short (path_of ''f'') (unat 0)" "short_read ex_short (path_of ''f'') (unat 0) = Some 0"
    by (simp_all add: ex_short_def ex_source_def ex_content_def empty_disk_def)
  moreover have "ex_content \<noteq> []" by (simp add: ex_content_def)
  moreover have "plain_stream (w_stream ?w)" "\<not> w_flag ?w" "flag_env ?w = []" "rx (w_stream ?w) = []" "tx (w_stream ?w) = []"
    by (simp_all add: worker_start_def) (simp_all add: stream_of_def)
  ultimately obtain w' e m where "send_chunk toy_blake3 ex_short ?w ''f'' 0 0 2 3 = (w', Err e)" "tx (w_stream w') = frame_bytes m"
    "\<forall>ds s. process_chunk toy_blake3 ex_receiver ds s m = ((ex_receiver, ds, s), Ok ())"
    using short_read_loses_chunk [OF toy_blake3_ok ex_promised, of 0 ex_short "''f''" 0 0 ?w 3] e by auto
  then show ?thesis by blast
qed


definition ex_content2 :: bytes where
  "ex_content2 = [4, 5, 6]"

definition ex_request2 :: handshake_data where
  "ex_request2 = ex_request\<lparr>h_full_hash := b3_hash toy_blake3 ex_content2\<rparr>"

definition ex_pair :: "nat server" where
  "ex_pair = (server_new counter empty_disk)
     \<lparr>receivers := [receiver_of ex_request ''out'' ''tmp'', receiver_of ex_request2 ''out'' ''tmp'']\<rparr>"

text \<open>The first of the two transfers has all its chunks.\<close>

definition ex_clash :: "nat server" where
  "ex_clash = foldl (data_turn toy_blake3) ex_pair [ex_turn 0, ex_turn 1]"

definition ex_intruder :: stream where
  "ex_intruder = stream_of (frame_bytes (slice_message toy_blake3 (receiver_of ex_request2 ''out'' ''tmp'') ex_content2 0 0))"

lemma ex_clash_first:
  "on_course toy_blake3 ex_content (receivers ex_clash ! 0) (sdisk ex_clash)" "healthy (sdisk ex_clash) p"
  "same_transfer (receiver_of ex_request ''out'' ''tmp'') (receivers ex_clash ! 0)" "is_complete (receivers ex_clash ! 0)"
  "0 < length (receivers ex_clash)"
proof -
  let ?rc = "receiver_of ex_request ''out'' ''tmp''"
  have ok: "handshake_ok ex_request" by code_simp
  have r: "receivers ex_pair ! 0 = ?rc" "0 < length (receivers ex_pair)" by (simp_all add: ex_pair_def)
  have hl: "\<And>p. healthy (sdisk ex_pair) p" by (simp add: ex_pair_def server_new_def)
  have oc: "on_course toy_blake3 ex_content (receivers ex_pair ! 0) (sdisk ex_pair)"
    unfolding r(1) by (rule describes_on_course(1) [OF ok ex_describes]) simp_all
  have ts: "honest_turns toy_blake3 0 (receivers ex_pair ! 0) ex_content [ex_turn 0, ex_turn 1] [0, 1]"
    using ex_turn_honest [of 0] ex_turn_honest [of 1] unfolding r(1) by (simp add: honest_turns_def ex_turn_def)
  have ne: "ex_content \<noteq> []" by (simp add: ex_content_def)
  have "on_track toy_blake3 ex_content 0 ex_pair" using r(2) oc hl unfolding on_track_def by blast
  from honest_turns_run [OF toy_blake3_ok ne this ts, folded ex_clash_def]
  have run: "on_track toy_blake3 ex_content 0 ex_clash" "took 0 ex_pair {0, 1} ex_clash" by simp_all
  show "on_course toy_blake3 ex_content (receivers ex_clash ! 0) (sdisk ex_clash)" by (rule on_trackD(2) [OF run(1)])
  show "healthy (sdisk ex_clash) p" by (rule on_trackD(3) [OF run(1)])
  show "0 < length (receivers ex_clash)" by (rule on_trackD(1) [OF run(1)])
  show "same_transfer ?rc (receivers ex_clash ! 0)" using tookD(1) [OF run(2)] unfolding r(1) .
  have "r_num_chunks ?rc = 2" by code_simp
  then have "covers ?rc {0, 1}" by (auto simp: covers_def)
  then show "is_complete (receivers ex_clash ! 0)"
    using took_covers [of 0 ex_pair "[0, 1]" ex_clash "{}"] complete_covers [OF run(1)] run(2) r(1) by simp
qed

lemma ex_clash_second: "receivers ex_clash ! 1 = receiver_of ex_request2 ''out'' ''tmp''" "1 < length (receivers ex_clash)"
proof -
  have "receivers (data_turn toy_blake3 srv (ex_turn i)) ! Suc 0 = receivers srv ! Suc 0" for srv :: "nat server" and i
    by (simp add: data_turn_def ex_turn_def split: prod.split)
  then show "receivers ex_clash ! 1 = receiver_of ex_request2 ''out'' ''tmp''" by (simp add: ex_clash_def ex_pair_def)
  have "length (receivers (data_turn toy_blake3 srv (ex_turn i))) = length (receivers srv)" for srv :: "nat server" and i
    by (simp add: data_turn_def ex_turn_def split: prod.split)
  then show "1 < length (receivers ex_clash)" by (simp add: ex_clash_def ex_pair_def)
qed

lemma ex_intruder_honest: "honest_turn toy_blake3 (receiver_of ex_request2 ''out'' ''tmp'') ex_content2 ex_intruder 0"
proof -
  have "0 < r_num_chunks (receiver_of ex_request2 ''out'' ''tmp'')" by code_simp
  then show ?thesis unfolding honest_turn_def ex_intruder_def stream_of_def
    by (metis append_Nil2 stream.select_convs(1,2))
qed


text \<open>C28: The hash of a chunk protects nobody against a stranger, since it comes in the same message: whoever
  can reach a data port of a transfer whose chunks are all there and acknowledged sends a chunk of the
  right size with the hash of his own data, is told that it is fine, and has replaced the part: the
  transfer ends with an error, his data in the final file, and nothing left to resume.\<close>

theorem injected_chunk_ruins_transfer:
  assumes B: "blake3_ok B" and hl: "\<And>p. healthy (sdisk srv) p" and rc: "rc = receivers srv ! rid" "rid < length (receivers srv)"
    and oc: "on_course B content rc (sdisk srv)" and compl: "is_complete rc"
    and s: "plain_stream s" "rx_delays s = []" "rx s = frame_bytes (chunk_message i off evil (b3_hash B evil)) @ rest"
    and i: "i < r_num_chunks rc" "length evil = expected_chunk_size rc i" "length evil + 48 \<le> MAX_PAYLOAD"
    and mixed: "mixed = concat (map (\<lambda>j. if j = i then evil else chunk_slice (r_chunk_size rc) content j) [0..<r_num_chunks rc])"
      "b3_hash B mixed \<noteq> r_full_hash rc"
    and pl: "plain_stream c"
  shows "\<exists>rc' d' s' srv' c'. data_iteration B rc (sdisk srv) s = ((rc', d', s'), Ok Continue)
    \<and> tx s' = tx s @ frame_bytes [ACK_OK]
    \<and> control_close S B (data_turn B srv (rid, s)) c rid ports = ((srv', c'), Ok ())
    \<and> tx c' = tx c @ frame_bytes [RESP_ERR] \<and> files (sdisk srv') (receiver_final rc) = Some mixed
    \<and> files (sdisk srv') (receiver_meta rc) = None
    \<and> (\<forall>j < r_num_chunks rc. files (sdisk srv') (receiver_part rc j) = None)"
proof -
  let ?rc' = "recorded rc i (b3_hash B evil)"
  have inv: "data_inv B rc (sdisk srv)" and nf: "\<not> r_failed rc" and wf: "receiver_wf rc" and ok: "dirs_ok rc"
    using oc by (auto simp: on_course_def data_inv_def)
  from accepted_turn [OF B inv nf hl i s(2,3)] obtain d' where
    it: "data_iteration B rc (sdisk srv) s = ((?rc', d', fst (send_ack (s\<lparr>rx := rest\<rparr>) ACK_OK)), Ok Continue)"
    and st: "data_inv B ?rc' d'" "same_faults (sdisk srv) d'" "files d' (receiver_part rc i) = Some evil"
    and others: "\<forall>j. j \<noteq> i \<longrightarrow> files d' (receiver_part rc j) = files (sdisk srv) (receiver_part rc j)" by blast
  have all: "received_chunks rc ! j" if "j < r_num_chunks rc" for j using compl that by (simp add: is_complete_iff [OF wf])
  have "receiver_wf ?rc'" using st(1) by (simp add: data_inv_def)
  then have compl': "is_complete ?rc'" using all by (auto simp: is_complete_iff recorded_def keep_flag)
  note same = same_transfer_paths [OF same_transfer_refl(3), of rc i "b3_hash B evil"]
  have rc': "r_num_chunks ?rc' = r_num_chunks rc" "r_full_hash ?rc' = r_full_hash rc" "\<not> r_failed ?rc'"
    using nf by (simp_all add: recorded_def)
  have parts: "files d' (receiver_part ?rc' j) = Some (if j = i then evil else chunk_slice (r_chunk_size rc) content j)"
    if "j < r_num_chunks ?rc'" for j
    using that st(3) others oc all unfolding same(1) rc'(1) by (simp add: on_course_def)
  let ?srv = "data_turn B srv (rid, s)"
  have turn: "receivers ?srv ! rid = ?rc'" "sdisk ?srv = d'" using rc it by (simp_all add: data_turn_def)
  have hl': "healthy (sdisk ?srv) p" for p using same_faults_healthy [OF st(2)] hl turn(2) by simp
  from ruined_close [OF B hl' turn(1) [symmetric], where mixed = mixed and c = c and S = S and ports = ports
      and parts = "\<lambda>j. if j = i then evil else chunk_slice (r_chunk_size rc) content j"]
  have "\<exists>srv' c'. control_close S B ?srv c rid ports = ((srv', c'), Ok ())
      \<and> tx c' = tx c @ frame_bytes [RESP_ERR] \<and> files (sdisk srv') (receiver_final rc) = Some mixed
      \<and> files (sdisk srv') (receiver_meta rc) = None \<and> (\<forall>j < r_num_chunks rc. files (sdisk srv') (receiver_part rc j) = None)"
    using parts mixed ok rc' compl' pl same turn(2) by simp
  moreover have "tx (fst (send_ack (s\<lparr>rx := rest\<rparr>) ACK_OK)) = tx s @ frame_bytes [ACK_OK]"
    using s(1) by (simp add: send_ack_def send_timeout_plain plain_stream_def)
  ultimately show ?thesis using it by blast
qed

lemma injected_chunk_ruins_transfer_witness:
  "\<exists>srv' c'. control_close counter toy_blake3
       (data_turn toy_blake3 ex_clash (0, stream_of (frame_bytes (chunk_message 1 0 [66] (b3_hash toy_blake3 [66]))))) (stream_of []) 0 []
       = ((srv', c'), Ok ())
     \<and> tx c' = frame_bytes [RESP_ERR] \<and> files (sdisk srv') (path_of ''out/f'') = Some [1, 2, 66]"
proof -
  let ?rc = "receivers ex_clash ! 0" and ?s = "stream_of (frame_bytes (chunk_message 1 0 [66] (b3_hash toy_blake3 [66])))"
  note one = ex_clash_first
  have c: "r_num_chunks ?rc = 2" "r_chunk_size ?rc = 2" "r_full_hash ?rc = b3_hash toy_blake3 ex_content" "r_file_size ?rc = 3"
    using one(3) by (simp_all add: same_transfer_def receiver_of_def create_receiver_def receiver_new_def ex_request_def)
  have "chunk_slice 2 ex_content 0 = [1, 2]" by code_simp
  then have mixed: "[1, 2, 66] = concat (map (\<lambda>j. if j = 1 then [66] else chunk_slice (r_chunk_size ?rc) ex_content j)
      [0..<r_num_chunks ?rc])"
    using c by (simp add: upt_rec)
  have "b3_hash toy_blake3 [1, 2, 66] \<noteq> b3_hash toy_blake3 ex_content" by code_simp
  then have h: "b3_hash toy_blake3 [1, 2, 66] \<noteq> r_full_hash ?rc" using c(3) by simp
  have sz: "length [66 :: u8] = expected_chunk_size ?rc 1"
    using c by (simp add: expected_chunk_size_def usize_sub_def usize_mul_def)
  have s: "rx_delays ?s = []" "rx ?s = frame_bytes (chunk_message 1 0 [66] (b3_hash toy_blake3 [66])) @ []"
    by (simp_all add: stream_of_def)
  have small: "length [66 :: u8] + 48 \<le> MAX_PAYLOAD" "1 < r_num_chunks ?rc" using c(1) by (simp_all add: MAX_PAYLOAD_def)
  have fin: "receiver_final ?rc = path_of ''out/f''"
    using same_transfer_paths(3) [OF one(3)] receiver_of_final [of ex_request "''out''" "''tmp''"] by (simp add: ex_request_def)
  have "tx (stream_of []) = []" by (simp add: stream_of_def)
  then show ?thesis
    using injected_chunk_ruins_transfer [OF toy_blake3_ok one(2) refl one(5) one(1) one(4) plain_stream_of s small(2) sz small(1)
        mixed h plain_stream_of, of counter "[]" "[]"] fin by auto
qed

end
