(* ===== verification/Rust_Float.thy ===== *)
theory Rust_Float
  imports Rust_Str
begin

text \<open>
  The part of Rust's \<open>f64\<close> that \<open>src/utils.rs\<close> computes with: parsing a decimal, multiplication, the
  comparison with \<open>usize::MAX as f64\<close> (which is 2^64) and the saturating cast to \<open>usize\<close>.

  A finite value is a sign, a mantissa and a power of two; rounding is to the nearest, ties to even, with
  53 bits, the smallest exponent -1074 and infinity from 2^1024 on. The main lemma: a natural number that
  is a power of two times a number below 2^53 is represented exactly.
\<close>

section \<open>Values and rounding\<close>

datatype f64 = NaN | Infinite bool | Finite bool nat int

fun bit_len :: "nat \<Rightarrow> nat" where
  "bit_len n = (if n = 0 then 0 else Suc (bit_len (n div 2)))"

declare bit_len.simps [simp del]

definition div_even :: "nat \<Rightarrow> nat \<Rightarrow> nat" where
  "div_even p q =
     (let d = p div q; r = p mod q in if 2 * r < q \<or> 2 * r = q \<and> even d then d else Suc d)"

text \<open>The greatest power of two (its exponent) that is at most \<open>p / q\<close>.\<close>

definition ilog2 :: "nat \<Rightarrow> nat \<Rightarrow> int" where
  "ilog2 p q =
     (let e = int (bit_len p) - int (bit_len q)
      in if q * 2 ^ nat e \<le> p * 2 ^ nat (- e) then e else e - 1)"

text \<open>The double nearest to \<open>p / q\<close>.\<close>

definition round_f64 :: "bool \<Rightarrow> nat \<Rightarrow> nat \<Rightarrow> f64" where
  "round_f64 neg p q =
     (if p = 0 then Finite neg 0 0
      else
        let e = max (ilog2 p q - 52) (-1074);
            m = div_even (p * 2 ^ nat (- e)) (q * 2 ^ nat e)
        in if 0 \<le> e \<and> 2 ^ 1024 \<le> m * 2 ^ nat e then Infinite neg else Finite neg m e)"

fun f64_mul :: "f64 \<Rightarrow> f64 \<Rightarrow> f64" where
  "f64_mul (Finite s m e) (Finite t n f) = round_f64 (s \<noteq> t) (m * n * 2 ^ nat (e + f)) (2 ^ nat (- (e + f)))"
| "f64_mul (Infinite s) (Infinite t) = Infinite (s \<noteq> t)"
| "f64_mul (Infinite s) (Finite t n f) = (if n = 0 then NaN else Infinite (s \<noteq> t))"
| "f64_mul (Finite s m e) (Infinite t) = (if m = 0 then NaN else Infinite (s \<noteq> t))"
| "f64_mul NaN y = NaN"
| "f64_mul x NaN = NaN"

text \<open>The literals of the source.\<close>

definition f64_nat :: "nat \<Rightarrow> f64" where
  "f64_nat n = round_f64 False n 1"

text \<open>\<open>x > usize::MAX as f64\<close>: 2^64 - 1 is not a double, its conversion rounds up to 2^64.\<close>

fun exceeds_usize :: "f64 \<Rightarrow> bool" where
  "exceeds_usize NaN = False"
| "exceeds_usize (Infinite neg) = (\<not> neg)"
| "exceeds_usize (Finite neg m e) = (\<not> neg \<and> 2 ^ 64 * 2 ^ nat (- e) < m * 2 ^ nat e)"

text \<open>\<open>x as usize\<close>: truncation, saturating at both ends, NaN is 0.\<close>

fun f64_as_usize :: "f64 \<Rightarrow> usize" where
  "f64_as_usize NaN = 0"
| "f64_as_usize (Infinite neg) = (if neg then 0 else 2 ^ 64 - 1)"
| "f64_as_usize (Finite neg m e) = (if neg then 0 else min (m * 2 ^ nat e div 2 ^ nat (- e)) (2 ^ 64 - 1))"

section \<open>Parsing\<close>

definition is_digit :: "char \<Rightarrow> bool" where
  "is_digit c \<longleftrightarrow> digit_value c \<noteq> None"

definition digits_value :: "string \<Rightarrow> nat" where
  "digits_value ds = (case parse_digits 0 ds of None \<Rightarrow> 0 | Some n \<Rightarrow> n)"

definition ascii_lower :: "char \<Rightarrow> char" where
  "ascii_lower c = (let n = of_char c :: nat in if 65 \<le> n \<and> n \<le> 90 then char_of (n + 32) else c)"

definition split_sign :: "string \<Rightarrow> bool \<times> string" where
  "split_sign s =
     (case s of [] \<Rightarrow> (False, [])
      | c # cs \<Rightarrow> if c = CHR ''-'' then (True, cs) else if c = CHR ''+'' then (False, cs) else (False, s))"

definition parse_exponent :: "string \<Rightarrow> int option" where
  "parse_exponent s =
     (case s of [] \<Rightarrow> Some 0
      | c # cs \<Rightarrow>
          if ascii_lower c = CHR ''e'' then
            (case split_sign cs of (neg, ds) \<Rightarrow>
               if ds \<noteq> [] \<and> list_all is_digit ds
               then Some (if neg then - int (digits_value ds) else int (digits_value ds)) else None)
          else None)"

definition parse_number :: "bool \<Rightarrow> string \<Rightarrow> f64 option" where
  "parse_number neg s =
     (let whole = takeWhile is_digit s;
          rest = dropWhile is_digit s;
          (frac, rest) = (case rest of
             c # cs \<Rightarrow> if c = CHR ''.'' then (takeWhile is_digit cs, dropWhile is_digit cs) else ([], rest)
           | [] \<Rightarrow> ([], []))
      in if whole @ frac = [] then None
         else (case parse_exponent rest of
                 None \<Rightarrow> None
               | Some x \<Rightarrow>
                   let e = x - int (length frac)
                   in Some (round_f64 neg (digits_value (whole @ frac) * 10 ^ nat e) (10 ^ nat (- e)))))"

text \<open>\<open>str::parse::<f64>\<close>.\<close>

definition parse_f64 :: "string \<Rightarrow> f64 option" where
  "parse_f64 s =
     (case split_sign s of (neg, body) \<Rightarrow>
        (case parse_number neg body of
           Some x \<Rightarrow> Some x
         | None \<Rightarrow>
             let w = map ascii_lower body
             in if w = ''inf'' \<or> w = ''infinity'' then Some (Infinite neg)
                else if w = ''nan'' then Some NaN else None))"

section \<open>Exact values\<close>

definition exactly :: "f64 \<Rightarrow> nat \<Rightarrow> bool" where
  "exactly x n \<longleftrightarrow> (\<exists>m e. x = Finite False m e \<and> m * 2 ^ nat e = n * 2 ^ nat (- e))"

lemma bit_len_bounds: "0 < n \<Longrightarrow> 2 ^ (bit_len n - 1) \<le> n \<and> n < 2 ^ bit_len n \<and> 0 < bit_len n"
proof (induction n rule: bit_len.induct)
  case (1 n)
  show ?case
  proof (cases "n div 2 = 0")
    case True
    with 1(2) have "n = 1" by linarith
    then show ?thesis by (simp add: bit_len.simps [of "Suc 0"] bit_len.simps [of 0])
  next
    case False
    with 1 have IH: "2 ^ (bit_len (n div 2) - 1) \<le> n div 2" "n div 2 < 2 ^ bit_len (n div 2)" "0 < bit_len (n div 2)"
      by simp_all
    obtain k where k: "bit_len (n div 2) = Suc k" using IH(3) gr0_conv_Suc by blast
    have "2 ^ Suc k \<le> n" "n < 2 ^ Suc (Suc k)" using IH(1,2) unfolding k by auto
    moreover have "bit_len n = Suc (Suc k)" using 1(2) k by (simp add: bit_len.simps [of n])
    ultimately show ?thesis by simp
  qed
qed

lemma div_even_exact: "0 < q \<Longrightarrow> p = m * q \<Longrightarrow> div_even p q = m"
  by (simp add: div_even_def)

lemma ilog2_le:
  assumes "0 < n" "0 < q" "0 \<le> ilog2 (n * q) q"
  shows "2 ^ nat (ilog2 (n * q) q) \<le> n"
proof -
  define e where "e = int (bit_len (n * q)) - int (bit_len q)"
  show ?thesis
  proof (cases "q * 2 ^ nat e \<le> n * q * 2 ^ nat (- e)")
    case True
    then have i: "ilog2 (n * q) q = e" by (simp add: ilog2_def e_def Let_def)
    then have "nat (- e) = 0" using assms(3) by simp
    then show ?thesis using True assms(2) i by simp
  next
    case False
    then have i: "ilog2 (n * q) q = e - 1" by (simp add: ilog2_def e_def Let_def)
    have "2 ^ (bit_len (n * q) - 1) \<le> n * q" "q < 2 ^ bit_len q"
      using bit_len_bounds [of "n * q"] bit_len_bounds [of q] assms by simp_all
    moreover have "bit_len (n * q) - 1 = nat (e - 1) + bit_len q"
      using i assms(3) unfolding e_def by linarith
    ultimately have a: "2 ^ nat (e - 1) * 2 ^ bit_len q \<le> n * q" by (simp add: power_add)
    have "2 ^ nat (e - 1) * q \<le> 2 ^ nat (e - 1) * 2 ^ bit_len q" using \<open>q < 2 ^ bit_len q\<close> by simp
    with a have "2 ^ nat (e - 1) * q \<le> n * q" by linarith
    then show ?thesis using assms(2) i by simp
  qed
qed

lemma round_f64_exact:
  assumes q: "0 < q" and n: "n = k * 2 ^ j" and k: "k < 2 ^ 53" and small: "n < 2 ^ 1024"
  shows "exactly (round_f64 False (n * q) q) n"
proof (cases "n = 0")
  case True
  then show ?thesis by (simp add: round_f64_def exactly_def)
next
  case False
  define e where "e = max (ilog2 (n * q) q - 52) (-1074)"
  show ?thesis
  proof (cases "e \<le> 0")
    case True
    have "div_even (n * q * 2 ^ nat (- e)) (q * 2 ^ nat e) = n * 2 ^ nat (- e)"
      using q True by (intro div_even_exact) simp_all
    moreover have "\<not> (0 \<le> e \<and> 2 ^ 1024 \<le> n * 2 ^ nat (- e) * 2 ^ nat e)"
      using True small by auto
    ultimately show ?thesis
      using False q True unfolding round_f64_def exactly_def e_def [symmetric] Let_def by simp
  next
    case False': False
    then have e: "ilog2 (n * q) q = e + 52" by (simp add: e_def max_def split: if_splits)
    then have "2 ^ nat (e + 52) \<le> n" using ilog2_le [of n q] False False' q by simp
    also have "n < 2 ^ (53 + j)" unfolding n power_add using k by simp
    finally have "nat (e + 52) < 53 + j" by (rule power_less_imp_less_exp [rotated]) simp
    then have "nat e \<le> j" using False' by linarith
    then obtain i where i: "j = nat e + i" using le_Suc_ex by blast
    have d: "div_even (n * q * 2 ^ nat (- e)) (q * 2 ^ nat e) = k * 2 ^ i"
      using q False' by (intro div_even_exact) (simp_all add: n i power_add)
    have "k * 2 ^ i * 2 ^ nat e = n" by (simp add: n i power_add)
    then show ?thesis
      using False q small False' d unfolding round_f64_def exactly_def e_def [symmetric] Let_def
      by simp
  qed
qed

lemma exactly_nat: "n < 2 ^ 53 \<Longrightarrow> exactly (round_f64 False n 1) n"
  using round_f64_exact [of 1 n n 0] by (simp add: less_trans [of n "2 ^ 53" "2 ^ 1024"])

lemma f64_mul_exact:
  assumes "exactly x n" "exactly y (2 ^ j)" "n < 2 ^ 53" "n * 2 ^ j < 2 ^ 1024"
  shows "exactly (f64_mul x y) (n * 2 ^ j)"
proof -
  obtain m e where x: "x = Finite False m e" "m * 2 ^ nat e = n * 2 ^ nat (- e)"
    using assms(1) by (auto simp: exactly_def)
  obtain l f where y: "y = Finite False l f" "l * 2 ^ nat f = 2 ^ j * 2 ^ nat (- f)"
    using assms(2) by (auto simp: exactly_def)
  let ?q = "2 ^ nat (- (e + f)) :: nat"
  have *: "m * 2 ^ nat e * (l * 2 ^ nat f) * (2 ^ nat (e + f) * ?q)
      = n * 2 ^ nat (- e) * (2 ^ j * 2 ^ nat (- f)) * (2 ^ nat (e + f) * ?q)"
    unfolding x(2) y(2) ..
  have "nat e + nat f + nat (- (e + f)) = nat (- e) + nat (- f) + nat (e + f)" by linarith
  then have p: "2 ^ nat e * 2 ^ nat f * ?q = 2 ^ nat (- e) * 2 ^ nat (- f) * (2 ^ nat (e + f) :: nat)"
    by (metis power_add)
  have "m * l * 2 ^ nat (e + f) * (2 ^ nat (- e) * 2 ^ nat (- f))
      = m * l * (2 ^ nat e * 2 ^ nat f * ?q)"
    unfolding p by simp
  also have "\<dots> = (m * 2 ^ nat e) * (l * 2 ^ nat f) * ?q" by simp
  also have "\<dots> = n * 2 ^ j * ?q * (2 ^ nat (- e) * 2 ^ nat (- f))" unfolding x(2) y(2) by simp
  finally have "m * l * 2 ^ nat (e + f) = n * 2 ^ j * ?q" by simp
  then have "f64_mul x y = round_f64 False (n * 2 ^ j * ?q) ?q" by (simp add: x(1) y(1))
  then show ?thesis using round_f64_exact [of ?q "n * 2 ^ j" n j] assms(3,4) by simp
qed

lemma exceeds_usize_exact:
  assumes "exactly x n"
  shows "exceeds_usize x \<longleftrightarrow> 2 ^ 64 < n"
proof -
  obtain m e where x: "x = Finite False m e" "m * 2 ^ nat e = n * 2 ^ nat (- e)"
    using assms by (auto simp: exactly_def)
  have "0 < (2 ^ nat (- e) :: nat)" by simp
  then have "2 ^ 64 * 2 ^ nat (- e) < n * 2 ^ nat (- e) \<longleftrightarrow> 2 ^ 64 < n"
    by (simp only: mult_less_cancel2 simp_thms)
  then show ?thesis by (simp add: x)
qed

lemma as_usize_exact: "exactly x n \<Longrightarrow> f64_as_usize x = min n (2 ^ 64 - 1)"
  by (auto simp: exactly_def)

lemma is_digit_digit_char: "d < 10 \<Longrightarrow> is_digit (digit_char d)"
  by (simp add: is_digit_def digit_value_char)

lemma decimal_is_digit: "c \<in> set (decimal n) \<Longrightarrow> is_digit c"
  using decimal_digits is_digit_digit_char by blast

lemma not_digit_sign: "\<not> is_digit (CHR ''-'')" "\<not> is_digit (CHR ''+'')"
  by (simp_all add: is_digit_def digit_value_def)

text \<open>A decimal number is the double nearest to it.\<close>

lemma parse_f64_decimal: "parse_f64 (decimal n) = Some (round_f64 False n 1)"
proof -
  have hd: "is_digit (hd (decimal n))" using decimal_is_digit [of "hd (decimal n)" n] by simp
  then have "split_sign (decimal n) = (False, decimal n)"
    using not_digit_sign by (cases "decimal n") (auto simp: split_sign_def)
  moreover have w: "takeWhile is_digit (decimal n) = decimal n" "dropWhile is_digit (decimal n) = []"
    using decimal_is_digit by (auto simp: takeWhile_eq_all_conv)
  have "parse_number False (decimal n) = Some (round_f64 False n 1)"
    by (simp add: parse_number_def Let_def w parse_exponent_def digits_value_def parse_digits_decimal)
  ultimately show ?thesis by (simp add: parse_f64_def)
qed

end
