(* ===== verification/Utils.thy ===== *)
theory Utils
  imports Rust_Float Wire_Codec Disk
begin

text \<open>
  \<open>src/utils.rs\<close>: addresses, chunk sizes, and the download of a file.

  A string is the list of its UTF-8 bytes (\<open>Rust_Str\<close>). Trimming knows every Unicode whitespace
  character. Lowercasing changes the ASCII letters and the Kelvin sign, the one other character whose
  lowercase form is an ASCII letter alone; the rest stays as it is, which matters only in the text of an
  error, since no number contains it. \<open>reqwest\<close> is the parameter \<open>get\<close>: the status and the body of the
  answer to a URL.
\<close>

section \<open>Addresses\<close>

definition parse_address :: "string \<Rightarrow> (string \<times> u16) res" where
  "parse_address addr =
     (case rsplit_once (CHR '':'') addr of
        None \<Rightarrow> Err (InvalidAddress addr)
      | Some (host, port_str) \<Rightarrow>
          (case parse_uint 65535 port_str of
             None \<Rightarrow> Err (InvalidPort addr)
           | Some port \<Rightarrow> Ok (host, word_of_nat port)))"

section \<open>Chunk sizes\<close>

definition whitespace :: "string list" where
  "whitespace =
     map (map char_of)
       (map (\<lambda>n. [n]) [9, 10, 11, 12, 13, 32 :: nat]
        @ [[0xC2, 0x85], [0xC2, 0xA0], [0xE1, 0x9A, 0x80]]
        @ map (\<lambda>n. [0xE2, 0x80, n]) ([0x80..<0x8B] @ [0xA8, 0xA9, 0xAF])
        @ [[0xE2, 0x81, 0x9F], [0xE3, 0x80, 0x80]])"

function strip :: "string list \<Rightarrow> string \<Rightarrow> string" where
  "strip ws s =
     (case find (\<lambda>w. w \<noteq> [] \<and> take (length w) s = w) ws of
        None \<Rightarrow> s
      | Some w \<Rightarrow> strip ws (drop (length w) s))"
  by pat_completeness auto
termination
proof (relation "measure (\<lambda>(ws, s). length s)")
  fix ws s w
  assume "find (\<lambda>w. w \<noteq> [] \<and> take (length w) s = w) ws = Some w"
  then have "w \<noteq> []" "take (length w) s = w" by (auto simp: find_Some_iff)
  then have "0 < length w" "length w \<le> length s" by (simp, metis length_take min.cobounded1)
  then show "((ws, drop (length w) s), ws, s) \<in> measure (\<lambda>(ws, s). length s)"
    by (simp del: length_greater_0_conv)
qed simp

declare strip.simps [simp del]

definition trim :: "string \<Rightarrow> string" where
  "trim s = rev (strip (map rev whitespace) (rev (strip whitespace s)))"

definition KELVIN :: string where
  "KELVIN = map char_of [0xE2, 0x84, 0xAA :: nat]"

fun to_lowercase :: "string \<Rightarrow> string" where
  "to_lowercase [] = []"
| "to_lowercase (c # cs) =
     (if take 3 (c # cs) = KELVIN then CHR ''k'' # to_lowercase (drop 2 cs)
      else ascii_lower c # to_lowercase cs)"

definition multiplier :: "char \<Rightarrow> f64" where
  "multiplier last_char =
     (if last_char = CHR ''k'' then f64_nat 1024
      else if last_char = CHR ''m'' then f64_mul (f64_nat 1024) (f64_nat 1024)
      else if last_char = CHR ''g'' then f64_mul (f64_mul (f64_nat 1024) (f64_nat 1024)) (f64_nat 1024)
      else f64_nat 1)"

definition parse_chunk_size :: "string \<Rightarrow> usize res" where
  "parse_chunk_size v =
     (let value = to_lowercase (trim v) in
      if value = [] then Err EmptyChunkSize
      else if last value \<in> set ''kmg'' then
        (case parse_f64 (butlast value) of
           None \<Rightarrow> Err (InvalidChunkSize value)
         | Some num \<Rightarrow>
             let size = f64_mul num (multiplier (last value)) in
             if exceeds_usize size then Err (ChunkSizeTooLarge value) else Ok (f64_as_usize size))
      else
        (case parse_uint (2 ^ 64 - 1) value of
           None \<Rightarrow> Err (InvalidChunkSize value)
         | Some n \<Rightarrow> Ok n))"

section \<open>Downloads\<close>

definition download_name :: "string \<Rightarrow> string" where
  "download_name url =
     (let path_part = takeWhile (\<lambda>c. c \<noteq> CHR ''?'') url;
          segments = filter (\<lambda>w. w \<noteq> []) (split_on (CHR ''/'') path_part)
      in case rev segments of
           [] \<Rightarrow> ''download''
         | w # _ \<Rightarrow> if CHR ''.'' \<in> set w then w else ''download'')"

text \<open>The body arrives in pieces; \<open>None\<close> is a network error. The pieces are those tokio's \<open>File\<close> writes at
  a time.\<close>

record response =
  http_status :: nat
  http_body :: "bytes option list"

text \<open>
  \<open>write_all\<close> of tokio's \<open>File\<close> hands a piece to a background thread and returns; the next one waits for
  it and reports its error. The function ends without a \<open>flush\<close>, so the last piece may still be on its way
  (its error is lost): \<open>landed\<close> tells whether it is on the disk when the function returns.
\<close>

definition settle :: "disk \<Rightarrow> path \<Rightarrow> bytes option \<Rightarrow> disk \<times> unit res" where
  "settle d p pending = (case pending of None \<Rightarrow> (d, Ok ()) | Some bs \<Rightarrow> file_append d p bs)"

fun download_loop :: "disk \<Rightarrow> path \<Rightarrow> bytes option \<Rightarrow> bytes option list \<Rightarrow> (disk \<times> bytes option) \<times> unit res" where
  "download_loop d p pending [] = ((d, pending), Ok ())"
| "download_loop d p pending (None # body) = ((d, pending), Err (IoError OpRead))"
| "download_loop d p pending (Some chunk # body) =
     (if chunk = [] then download_loop d p pending body
      else case settle d p pending of
        (d', Ok _) \<Rightarrow> download_loop d' p (Some chunk) body
      | (d', Err e) \<Rightarrow> ((d', None), Err e)
      | (d', Panic) \<Rightarrow> ((d', None), Panic))"

definition download_file ::
  "disk \<Rightarrow> (string \<Rightarrow> response option) \<Rightarrow> bool \<Rightarrow> string \<Rightarrow> string \<Rightarrow> disk \<times> string res" where
  "download_file d get landed url temp_dir =
     st_bind (d, create_dir_all d temp_dir) (\<lambda>d _.
       let dest = path_join temp_dir (download_name url) in
       case get url of
         None \<Rightarrow> (d, Err ConnectFailed)
       | Some response \<Rightarrow>
           st_bind (file_create d (path_of dest)) (\<lambda>d _.
             case download_loop d (path_of dest) None (http_body response) of
               ((d', pending), r) \<Rightarrow>
                 (if landed then fst (settle d' (path_of dest) pending) else d',
                  res_map (\<lambda>_. to_string_lossy dest) r)))"

section \<open>Numbers as text\<close>

definition plain_char :: "char \<Rightarrow> bool" where
  "plain_char c \<longleftrightarrow> 32 < (of_char c :: nat) \<and> (of_char c :: nat) < 128"

lemma plain_decimal: "c \<in> set (decimal n) \<Longrightarrow> plain_char c \<and> ascii_lower c = c"
proof -
  assume "c \<in> set (decimal n)"
  then obtain d where "d < 10" "c = digit_char d" using decimal_digits by blast
  then show ?thesis by (simp add: plain_char_def digit_char_def ascii_lower_def Let_def)
qed

lemma strip_plain:
  assumes "s \<noteq> []" "plain_char (hd s)" "\<And>w. w \<in> set ws \<Longrightarrow> \<not> plain_char (hd w)"
  shows "strip ws s = s"
proof -
  have "\<not> (w \<noteq> [] \<and> take (length w) s = w)" if "w \<in> set ws" for w
  proof
    assume "w \<noteq> [] \<and> take (length w) s = w"
    then have "hd w = hd s" by (metis hd_take length_greater_0_conv)
    then show False using assms(2) assms(3) [OF that] by simp
  qed
  then have "find (\<lambda>w. w \<noteq> [] \<and> take (length w) s = w) ws = None" by (auto simp: find_None_iff)
  then show ?thesis by (subst strip.simps) simp
qed

lemma whitespace_not_plain:
  "w \<in> set whitespace \<Longrightarrow> \<not> plain_char (hd w)" "w \<in> set (map rev whitespace) \<Longrightarrow> \<not> plain_char (hd w)"
proof -
  have "list_all (\<lambda>w. \<not> plain_char (hd w)) whitespace" by code_simp
  then show "w \<in> set whitespace \<Longrightarrow> \<not> plain_char (hd w)" by (simp add: list_all_iff)
  have "list_all (\<lambda>w. \<not> plain_char (hd w)) (map rev whitespace)" by code_simp
  then show "w \<in> set (map rev whitespace) \<Longrightarrow> \<not> plain_char (hd w)" by (auto simp: list_all_iff)
qed

lemma trim_plain: "s \<noteq> [] \<Longrightarrow> plain_char (hd s) \<Longrightarrow> plain_char (last s) \<Longrightarrow> trim s = s"
  using strip_plain [of s whitespace] strip_plain [of "rev s" "map rev whitespace"] whitespace_not_plain
  by (simp add: trim_def hd_rev)

lemma lowercase_plain: "list_all plain_char s \<Longrightarrow> to_lowercase s = map ascii_lower s"
  by (induction s rule: to_lowercase.induct) (auto simp: KELVIN_def plain_char_def take_Cons')

lemma trim_lower_number:
  "to_lowercase (trim (decimal n)) = decimal n"
  "plain_char c \<Longrightarrow> to_lowercase (trim (decimal n @ [c])) = decimal n @ [ascii_lower c]"
proof -
  have p: "list_all plain_char (decimal n)" "map ascii_lower (decimal n) = decimal n"
    using plain_decimal by (auto simp: list_all_iff intro: map_idI)
  then have "plain_char (hd (decimal n))" "plain_char (last (decimal n))" by (simp_all add: list_all_iff)
  then show "to_lowercase (trim (decimal n)) = decimal n"
    "plain_char c \<Longrightarrow> to_lowercase (trim (decimal n @ [c])) = decimal n @ [ascii_lower c]"
    using p by (simp_all add: trim_plain lowercase_plain)
qed

text \<open>The factor of a suffix, in either case.\<close>

definition suffix_bits :: "char \<Rightarrow> nat" where
  "suffix_bits c =
     (if ascii_lower c = CHR ''k'' then 10 else if ascii_lower c = CHR ''m'' then 20
      else if ascii_lower c = CHR ''g'' then 30 else 0)"

lemma multiplier_exact: "exactly (multiplier (ascii_lower c)) (2 ^ suffix_bits c)"
proof -
  have k: "exactly (f64_nat 1024) (2 ^ 10)" using exactly_nat [of 1024] by (simp add: f64_nat_def)
  have m: "exactly (f64_mul (f64_nat 1024) (f64_nat 1024)) (2 ^ 20)"
    using f64_mul_exact [OF k k] by simp
  have g: "exactly (f64_mul (f64_mul (f64_nat 1024) (f64_nat 1024)) (f64_nat 1024)) (2 ^ 30)"
    using f64_mul_exact [OF m k] by simp
  show ?thesis using k m g exactly_nat [of 1] by (auto simp: multiplier_def f64_nat_def suffix_bits_def)
qed

lemma suffix_chars: "list_all (\<lambda>c. plain_char c \<and> ascii_lower c \<in> set ''kmg'') ''kKmMgG''"
  by code_simp

lemma suffixed_size:
  assumes n: "n < 2 ^ 53" and c: "c \<in> set ''kKmMgG''"
  shows "parse_chunk_size (decimal n @ [c]) =
    (if 2 ^ 64 < n * 2 ^ suffix_bits c then Err (ChunkSizeTooLarge (decimal n @ [ascii_lower c]))
     else Ok (min (n * 2 ^ suffix_bits c) (2 ^ 64 - 1)))"
proof -
  have plain: "plain_char c" and low: "ascii_lower c \<in> set ''kmg''"
    using c list_all_iff [of "\<lambda>c. plain_char c \<and> ascii_lower c \<in> set ''kmg''" "''kKmMgG''"] suffix_chars by blast+
  have "suffix_bits c \<le> 30" by (simp add: suffix_bits_def)
  then have "n * 2 ^ suffix_bits c \<le> 2 ^ 53 * 2 ^ 30" using n by (intro mult_le_mono power_increasing) simp_all
  also have "\<dots> < (2 ^ 1024 :: nat)" by (simp add: power_add [symmetric])
  finally have small: "n * 2 ^ suffix_bits c < 2 ^ 1024" .
  have e: "exactly (f64_mul (round_f64 False n 1) (multiplier (ascii_lower c))) (n * 2 ^ suffix_bits c)"
    by (rule f64_mul_exact [OF exactly_nat [OF n] multiplier_exact n small])
  note e' = e [unfolded One_nat_def]
  show ?thesis
    using low unfolding parse_chunk_size_def trim_lower_number(2) [OF plain] Let_def
    by (simp add: parse_f64_decimal exceeds_usize_exact [OF e'] as_usize_exact [OF e'])
qed

lemma plain_size: "parse_chunk_size (decimal n) = (if n < 2 ^ 64 then Ok n else Err (InvalidChunkSize (decimal n)))"
proof -
  have "last (decimal n) \<notin> set ''kmg''"
  proof -
    have "is_digit (last (decimal n))" using decimal_is_digit [of "last (decimal n)" n] by simp
    then show ?thesis by (auto simp: is_digit_def digit_value_def)
  qed
  moreover have "parse_uint (2 ^ 64 - 1) (decimal n) = (if n < 2 ^ 64 then Some n else None)"
    using hd_decimal [of n] decimal_nonempty [of n] parse_digits_decimal [of n]
    by (cases "decimal n") (auto simp: parse_uint_def)
  ultimately show ?thesis by (simp add: parse_chunk_size_def trim_lower_number(1))
qed

text \<open>Texts that mean zero, and the size of the largest frame.\<close>

lemma round_negative: "\<not> exceeds_usize (round_f64 True p q) \<and> f64_as_usize (round_f64 True p q) = 0"
  by (simp add: round_f64_def Let_def)

lemma zero_sizes:
  "parse_chunk_size ''0'' = Ok 0" "parse_chunk_size ''nank'' = Ok 0" "parse_chunk_size ''-1k'' = Ok 0"
proof -
  have "decimal 0 = ''0''" by code_simp
  then show "parse_chunk_size ''0'' = Ok 0" using plain_size [of 0] by simp
  have "to_lowercase (trim ''nank'') = ''nank''" "parse_f64 ''nan'' = Some NaN" by code_simp+
  then show "parse_chunk_size ''nank'' = Ok 0" by (simp add: parse_chunk_size_def)
  have "to_lowercase (trim ''-1k'') = ''-1k''" "parse_f64 ''-1'' = Some (Finite True 4503599627370496 (- 52))"
    "multiplier (CHR ''k'') = Finite False 4503599627370496 (- 42)" by code_simp+
  then show "parse_chunk_size ''-1k'' = Ok 0" by (simp add: parse_chunk_size_def round_negative)
qed

lemma size_16M: "parse_chunk_size ''16M'' = Ok 16777216"
proof -
  have "decimal 16 = ''16''" "suffix_bits (CHR ''M'') = 20" by code_simp+
  then show ?thesis using suffixed_size [of 16 "CHR ''M''"] by simp
qed

section \<open>Splitting an address\<close>

lemma rsplit_once_Some:
  "rsplit_once c s = Some (a, b) \<longleftrightarrow> s = a @ c # b \<and> c \<notin> set b"
proof
  assume r: "rsplit_once c s = Some (a, b)"
  then obtain x where d: "dropWhile (\<lambda>x. x \<noteq> c) (rev s) = x # rev a" and b: "rev b = takeWhile (\<lambda>x. x \<noteq> c) (rev s)"
    by (auto simp: rsplit_once_def split: list.splits)
  have "x = c" using d by (metis (mono_tags, lifting) hd_dropWhile list.distinct(1) list.sel(1))
  have "rev s = rev b @ c # rev a"
    using takeWhile_dropWhile_id [of "\<lambda>x. x \<noteq> c" "rev s"] unfolding d b [symmetric] \<open>x = c\<close> by simp
  then have "s = a @ c # b" by (metis append.assoc append_Cons append_Nil rev.simps(2) rev_append rev_rev_ident)
  moreover have "c \<notin> set b" using b by (metis set_rev set_takeWhileD)
  ultimately show "s = a @ c # b \<and> c \<notin> set b" ..
next
  assume a: "s = a @ c # b \<and> c \<notin> set b"
  then have "rev s = rev b @ c # rev a" "\<And>x. x \<in> set (rev b) \<Longrightarrow> x \<noteq> c" by auto
  then have "dropWhile (\<lambda>x. x \<noteq> c) (rev s) = c # rev a" "takeWhile (\<lambda>x. x \<noteq> c) (rev s) = rev b"
    by (simp_all add: dropWhile_append takeWhile_append)
  then show "rsplit_once c s = Some (a, b)" by (simp add: rsplit_once_def)
qed

lemma parse_address_Ok:
  "parse_address addr = Ok (host, port) \<longleftrightarrow>
     (\<exists>t. addr = host @ CHR '':'' # t \<and> CHR '':'' \<notin> set t \<and> parse_uint 65535 t = Some (unat port))"
proof -
  have w: "word_of_nat n = port \<longleftrightarrow> n = unat port" if "n \<le> 65535" for n
  proof -
    have "unat (word_of_nat n :: u16) = n" using that by (intro unat_u16_of_usize) simp
    then show ?thesis by auto
  qed
  show ?thesis
  proof
    assume "parse_address addr = Ok (host, port)"
    then obtain t n where "rsplit_once (CHR '':'') addr = Some (host, t)" "parse_uint 65535 t = Some n" "port = word_of_nat n"
      by (auto simp: parse_address_def split: option.splits)
    then show "\<exists>t. addr = host @ CHR '':'' # t \<and> CHR '':'' \<notin> set t \<and> parse_uint 65535 t = Some (unat port)"
      using w [OF parse_uint_le] by (auto simp: rsplit_once_Some)
  next
    assume "\<exists>t. addr = host @ CHR '':'' # t \<and> CHR '':'' \<notin> set t \<and> parse_uint 65535 t = Some (unat port)"
    then obtain t where "rsplit_once (CHR '':'') addr = Some (host, t)" "parse_uint 65535 t = Some (unat port)"
      by (auto simp: rsplit_once_Some)
    then show "parse_address addr = Ok (host, port)" by (simp add: parse_address_def)
  qed
qed

lemma parse_address_not_Panic: "parse_address addr \<noteq> Panic"
  by (auto simp: parse_address_def split: option.splits)

section \<open>What a download leaves\<close>

lemma last_or_default:
  assumes "\<And>w. w \<in> set xs \<Longrightarrow> P w" "P z"
  shows "P (case rev xs of [] \<Rightarrow> z | w # _ \<Rightarrow> if Q w then w else z)"
proof (cases "rev xs")
  case (Cons w ws)
  then have "w \<in> set xs" by (metis list.set_intros(1) set_rev)
  then show ?thesis using assms Cons by simp
qed (use assms(2) in simp)

lemma download_name_plain: "CHR ''/'' \<notin> set (download_name url)" "download_name url \<noteq> []"
proof -
  have "CHR ''/'' \<notin> set (download_name url) \<and> download_name url \<noteq> []"
    unfolding download_name_def Let_def
    by (rule last_or_default [where P = "\<lambda>w. CHR ''/'' \<notin> set w \<and> w \<noteq> []"]) (auto dest: split_on_sep)
  then show "CHR ''/'' \<notin> set (download_name url)" "download_name url \<noteq> []" by simp_all
qed

text \<open>The disk with a file of the given content.\<close>

definition with_file :: "disk \<Rightarrow> path \<Rightarrow> bytes \<Rightarrow> disk" where
  "with_file d p bs = d\<lparr>files := (files d)(p \<mapsto> bs)\<rparr>"

lemma settle_with_file:
  "write_room d p = None \<Longrightarrow>
     settle (with_file d p a) p pending = (with_file d p (a @ (case pending of None \<Rightarrow> [] | Some bs \<Rightarrow> bs)), Ok ())"
  by (auto simp: settle_def file_append_def with_file_def contents_def split: option.split)

definition in_order :: "bytes option \<Rightarrow> bytes list \<Rightarrow> bytes list" where
  "in_order pending pieces = (case pending of None \<Rightarrow> [] | Some bs \<Rightarrow> [bs]) @ filter (\<lambda>c. c \<noteq> []) pieces"

lemma download_loop_with_file:
  assumes "write_room d p = None"
  shows "download_loop (with_file d p a) p pending (map Some pieces) =
    ((with_file d p (a @ concat (butlast (in_order pending pieces))),
      if in_order pending pieces = [] then None else Some (last (in_order pending pieces))), Ok ())"
proof (induction pieces arbitrary: a pending)
  case Nil
  then show ?case by (simp add: in_order_def split: option.split)
next
  case (Cons c pieces)
  then show ?case
    by (cases "c = []"; cases pending) (simp_all add: in_order_def settle_with_file [OF assms])
qed

lemma concat_in_order: "concat (in_order None pieces) = concat pieces"
  by (induction pieces) (auto simp: in_order_def)

lemma concat_last: "xs \<noteq> [] \<Longrightarrow> concat (butlast xs) @ last xs = concat xs"
  by (induction xs) auto

section \<open>Properties\<close>

text \<open>An address is accepted exactly if it ends in a colon and a number below 65536 without further
  colons; the host is all that comes before, and every host with a printed port is read back. Parsing
  never panics.\<close>

theorem address_roundtrip:
  "(parse_address addr = Ok (host, port) \<longleftrightarrow>
      (\<exists>t. addr = host @ CHR '':'' # t \<and> CHR '':'' \<notin> set t \<and> parse_uint 65535 t = Some (unat port)))
   \<and> parse_address (host @ CHR '':'' # decimal (unat port)) = Ok (host, port)
   \<and> parse_address addr \<noteq> Panic"
proof -
  have "unat port < 2 ^ 16" using unsigned_less [of port] by simp
  then have "parse_uint 65535 (decimal (unat port)) = Some (unat port)" by (intro parse_uint_decimal) simp
  then have "parse_address (host @ CHR '':'' # decimal (unat port)) = Ok (host, port)"
    using decimal_no_sep(2) by (auto simp: parse_address_Ok)
  then show ?thesis using parse_address_Ok parse_address_not_Panic by blast
qed



text \<open>A download that meets no error leaves a file directly in the temporary directory, whatever the
  status of the answer, with the whole body if the last piece has landed, and without its last
  nonempty piece otherwise (nothing flushes the file).\<close>

theorem download_outcome:
  assumes "get url = Some response" "http_body response = map Some pieces"
    and "\<not> mkdir_err d (path_of dir)" "\<not> create_err d (path_of (path_join dir (download_name url)))"
    and "write_room d (path_of (path_join dir (download_name url))) = None"
  shows "download_file d get landed url dir =
      (with_file d (path_of (path_join dir (download_name url)))
         (if landed then concat pieces else concat (butlast (filter (\<lambda>c. c \<noteq> []) pieces))),
       Ok (to_string_lossy (path_join dir (download_name url))))
    \<and> CHR ''/'' \<notin> set (download_name url)"
proof -
  let ?p = "path_of (path_join dir (download_name url))"
  have c: "file_create d ?p = (with_file d ?p [], Ok ())" using assms(4) by (simp add: file_create_def with_file_def)
  let ?ne = "in_order None pieces"
  have o: "?ne = filter (\<lambda>c. c \<noteq> []) pieces" by (simp add: in_order_def)
  have l: "concat (butlast ?ne) @ (case if ?ne = [] then None else Some (last ?ne) of None \<Rightarrow> [] | Some bs \<Rightarrow> bs) = concat pieces"
    using concat_in_order [of pieces] concat_last [of ?ne] by (cases "?ne = []") simp_all
  have "download_file d get landed url dir =
      (if landed then with_file d ?p (concat pieces) else with_file d ?p (concat (butlast ?ne)),
       Ok (to_string_lossy (path_join dir (download_name url))))"
    using download_loop_with_file [OF assms(5), of "[]" None pieces] settle_with_file [OF assms(5)] l c assms(1-3)
    by (simp add: download_file_def create_dir_all_def Let_def)
  then show ?thesis using download_name_plain(1) o by auto
qed

definition ex_get :: "string \<Rightarrow> response option" where
  "ex_get url = Some \<lparr>http_status = 404, http_body = map Some [[1, 2], [3]]\<rparr>"

lemma download_outcome_witness:
  "download_file empty_disk ex_get False ''http://h/a/b.bin?x=1'' ''/tmp''
     = (with_file empty_disk (path_of ''/tmp/b.bin'') [1, 2], Ok ''/tmp/b.bin'')
   \<and> CHR ''/'' \<notin> set (download_name ''http://h/a/b.bin?x=1'')"
proof -
  have n: "path_join ''/tmp'' (download_name ''http://h/a/b.bin?x=1'') = ''/tmp/b.bin''"
    "to_string_lossy ''/tmp/b.bin'' = ''/tmp/b.bin''" by code_simp+
  show ?thesis
    using download_outcome [of ex_get "''http://h/a/b.bin?x=1''" _ "[[1, 2], [3]]" empty_disk "''/tmp''" False,
        unfolded n, OF ex_get_def]
    by (simp add: empty_disk_def)
qed

end
