(* ===== verification/Tls.thy ===== *)
theory Tls
  imports Frame Disk
begin

text \<open>
  TLS on both sides (\<open>src/client/tls.rs\<close>, \<open>src/server/tls.rs\<close>). rustls is a parameter: what it needs to
  know of a certificate verifier are the three functions of its trait, and what the program relies on is
  that a TLS handshake only succeeds if the verifier has accepted the certificate and the signature the
  peer presents. Certificates are a type parameter; a stream after the handshake is again a stream.
\<close>

section \<open>The client\<close>

record 'c verifier =
  verify_server_cert :: "'c \<Rightarrow> string \<Rightarrow> bool"
  verify_tls12_signature :: "bytes \<Rightarrow> 'c \<Rightarrow> bytes \<Rightarrow> bool"
  verify_tls13_signature :: "bytes \<Rightarrow> 'c \<Rightarrow> bytes \<Rightarrow> bool"

definition NoCertVerifier :: "'c verifier" where
  "NoCertVerifier =
     \<lparr>verify_server_cert = (\<lambda>end_entity server_name. True),
      verify_tls12_signature = (\<lambda>message cert dsa_signature. True),
      verify_tls13_signature = (\<lambda>message cert dsa_signature. True)\<rparr>"

text \<open>
  The network and rustls: connecting, the names \<open>ServerName::try_from\<close> accepts, the verifier over the
  given roots, the TLS handshake, and what the peer of a stream presents in it (certificate, signed
  message, signature, and whether it speaks TLS 1.3).
\<close>

record 'c tls_net =
  tcp_connect :: "string \<Rightarrow> u16 \<Rightarrow> stream option"
  server_name_ok :: "string \<Rightarrow> bool"
  webpki_verifier :: "'c verifier"
  tls_connect :: "'c verifier \<Rightarrow> string \<Rightarrow> stream \<Rightarrow> stream option"
  presented :: "stream \<Rightarrow> 'c"
  signed :: "stream \<Rightarrow> bytes \<times> bytes"
  speaks_13 :: "stream \<Rightarrow> bool"

definition connect_to_server ::
  "'c tls_net \<Rightarrow> string \<Rightarrow> u16 \<Rightarrow> bool \<Rightarrow> bool \<Rightarrow> stream res" where
  "connect_to_server net host port use_tls tls_no_verify =
     (if \<not> use_tls then
        (case tcp_connect net host port of None \<Rightarrow> Err ConnectFailed | Some s \<Rightarrow> Ok s)
      else
        let verifier = (if tls_no_verify then NoCertVerifier else webpki_verifier net) in
        if \<not> server_name_ok net host then Err TlsFailed
        else
          (case tcp_connect net host port of
             None \<Rightarrow> Err ConnectFailed
           | Some s \<Rightarrow>
               (case tls_connect net verifier host s of None \<Rightarrow> Err TlsFailed | Some t \<Rightarrow> Ok t)))"

section \<open>The server\<close>

text \<open>\<open>rustls_pemfile\<close> and the check of \<open>with_single_cert\<close>.\<close>

record ('c, 'k) pem =
  pem_certs :: "bytes \<Rightarrow> 'c list option"
  pem_private_key :: "bytes \<Rightarrow> 'k option option"
  single_cert :: "'c list \<Rightarrow> 'k \<Rightarrow> bool"

definition load_tls_context :: "('c, 'k) pem \<Rightarrow> disk \<Rightarrow> string \<Rightarrow> string \<Rightarrow> ('c list \<times> 'k) res" where
  "load_tls_context pem d certfile keyfile =
     res_bind (fs_read d (path_of certfile)) (\<lambda>cert_file.
     case pem_certs pem cert_file of
       None \<Rightarrow> Err TlsFailed
     | Some certs \<Rightarrow>
         res_bind (fs_read d (path_of keyfile)) (\<lambda>key_file.
         case pem_private_key pem key_file of
           None \<Rightarrow> Err TlsFailed
         | Some None \<Rightarrow> Err NoPrivateKey
         | Some (Some key) \<Rightarrow>
             if single_cert pem certs key then Ok (certs, key) else Err TlsFailed))"

section \<open>What rustls promises\<close>

definition accepts :: "'c tls_net \<Rightarrow> 'c verifier \<Rightarrow> string \<Rightarrow> stream \<Rightarrow> bool" where
  "accepts net v host s \<longleftrightarrow>
     verify_server_cert v (presented net s) host
   \<and> (case signed net s of (message, sig) \<Rightarrow>
        if speaks_13 net s then verify_tls13_signature v message (presented net s) sig
        else verify_tls12_signature v message (presented net s) sig)"

definition tls_sound :: "'c tls_net \<Rightarrow> bool" where
  "tls_sound net \<longleftrightarrow> (\<forall>v host s. tls_connect net v host s \<noteq> None \<longrightarrow> accepts net v host s)"

lemma connect_tls:
  assumes "connect_to_server net host port True no_verify = Ok t"
  shows "\<exists>s. tcp_connect net host port = Some s
    \<and> tls_connect net (if no_verify then NoCertVerifier else webpki_verifier net) host s = Some t"
  using assms by (auto simp: connect_to_server_def Let_def split: if_splits option.splits)

lemma connect_verified:
  assumes "tls_sound net" "connect_to_server net host port True False = Ok t"
  shows "\<exists>s. tcp_connect net host port = Some s \<and> accepts net (webpki_verifier net) host s"
  using connect_tls [OF assms(2)] assms(1) by (force simp: tls_sound_def)

lemma no_cert_verifier_accepts: "accepts net NoCertVerifier host s"
  by (simp add: accepts_def NoCertVerifier_def split: prod.split)

lemma load_tls_context_not_Panic: "load_tls_context pem d certfile keyfile \<noteq> Panic"
  by (auto simp: load_tls_context_def file_open_def fs_read_def res_simps split: option.splits if_splits)

end
