(* ===== verification/Accept_Loop.thy ===== *)
theory Accept_Loop
  imports Transfers
begin

text \<open>
  The server's main function (\<open>run_server\<close> of \<open>src/server/mod.rs\<close>): the start, the accept loop with its
  limit on concurrent control connections and the shutdown by Ctrl-C, and the task it spawns for each
  connection.

  What the operating system delivers to the loop is a list of events. The connection semaphore is the
  parameter \<open>semaphore\<close> of \<open>Server_State\<close>; \<open>tokio::select!\<close> takes one ready branch per iteration, and the
  sleep of one second starts anew in every iteration, so a \<open>Tick\<close> is a second without an \<open>accept\<close>.
\<close>

section \<open>Configuration and start\<close>

record server_config =
  sc_bind_host :: string
  sc_port :: u16
  sc_output_dir :: string
  sc_temp_dir :: string
  sc_certfile :: "string option"
  sc_keyfile :: "string option"
  sc_max_parallel :: usize

text \<open>Loading certificates and binding the control port are the environment's; the result tells
  whether TLS is on.\<close>

definition server_start ::
  "disk \<Rightarrow> server_config \<Rightarrow> (string \<Rightarrow> string \<Rightarrow> unit res) \<Rightarrow> (string \<Rightarrow> u16 \<Rightarrow> unit res) \<Rightarrow> bool res" where
  "server_start d c load_tls bind_control =
     res_bind (create_dir_all d (sc_output_dir c)) (\<lambda>_.
     res_bind (case (sc_certfile c, sc_keyfile c) of
                 (Some cert, Some key) \<Rightarrow> res_map (\<lambda>_. True) (load_tls cert key)
               | _ \<Rightarrow> Ok False) (\<lambda>tls.
     res_map (\<lambda>_. tls) (bind_control (sc_bind_host c) (sc_port c))))"

section \<open>The accept loop\<close>

definition MAX_CONCURRENT_CONNECTIONS :: usize where
  [const_defs]: "MAX_CONCURRENT_CONNECTIONS = 128"

text \<open>\<open>TaskEnds k\<close>: the \<open>k\<close>-th running task ends, by returning or by a panic; its permit is dropped.\<close>

datatype server_event = AcceptError | Accepted stream | Tick | TaskEnds nat | Interrupt

record 'p accept_state =
  a_sem :: 'p
  a_running :: "stream list"
  a_shutdown :: bool

definition accept_start :: "'p semaphore \<Rightarrow> 'p accept_state" where
  "accept_start S = \<lparr>a_sem = sem_new S MAX_CONCURRENT_CONNECTIONS, a_running = [], a_shutdown = False\<rparr>"

definition drop_nth :: "nat \<Rightarrow> 'a list \<Rightarrow> 'a list" where
  "drop_nth k xs = take k xs @ drop (Suc k) xs"

fun accept_event :: "'p semaphore \<Rightarrow> 'p accept_state \<Rightarrow> server_event \<Rightarrow> 'p accept_state" where
  "accept_event S a AcceptError = a"
| "accept_event S a (Accepted s) =
     (case sem_try_acquire_many S (a_sem a) 1 of
        Some p \<Rightarrow> a\<lparr>a_sem := p, a_running := a_running a @ [s]\<rparr>
      | None \<Rightarrow> a)"
| "accept_event S a Tick = a"
| "accept_event S a (TaskEnds k) =
     (if k < length (a_running a)
      then a\<lparr>a_sem := sem_add_permits S (a_sem a) 1, a_running := drop_nth k (a_running a)\<rparr> else a)"
| "accept_event S a Interrupt = a\<lparr>a_shutdown := True\<rparr>"

text \<open>The second component tells whether the loop has returned.\<close>

fun accept_loop :: "'p semaphore \<Rightarrow> 'p accept_state \<Rightarrow> server_event list \<Rightarrow> 'p accept_state \<times> bool" where
  "accept_loop S a [] = (a, False)"
| "accept_loop S a (e # es) =
     (if e = Tick \<and> a_shutdown a then (a, True) else accept_loop S (accept_event S a e) es)"

text \<open>The spawned task: the TLS handshake (\<open>accept_tls\<close>, the environment's) and the control
  connection. What it returns is only logged.\<close>

definition connection_task ::
  "'p semaphore \<Rightarrow> 'h blake3 \<Rightarrow> (u16 \<Rightarrow> bool) \<Rightarrow> 'p server \<Rightarrow> bool \<Rightarrow> (stream \<Rightarrow> stream option) \<Rightarrow> stream
     \<Rightarrow> server_config \<Rightarrow> round list \<Rightarrow> ('p server \<times> stream) \<times> bool res" where
  "connection_task S B os_free srv tls accept_tls s c rounds =
     (if tls then
        (case accept_tls s of
           Some s' \<Rightarrow> handle_control_connection S B os_free srv s' (sc_output_dir c) (sc_temp_dir c) (sc_max_parallel c) rounds
         | None \<Rightarrow> ((srv, s), Ok True))
      else handle_control_connection S B os_free srv s (sc_output_dir c) (sc_temp_dir c) (sc_max_parallel c) rounds)"

section \<open>The limit on connections\<close>

inductive accept_step :: "'p semaphore \<Rightarrow> 'p accept_state \<Rightarrow> 'p accept_state \<Rightarrow> bool" for S :: "'p semaphore" where
  iterate: "accept_step S a (accept_event S a e)"

inductive_simps accept_step_iff: "accept_step S a b"

definition accept_inv :: "'p semaphore \<Rightarrow> 'p accept_state \<Rightarrow> bool" where
  "accept_inv S a \<longleftrightarrow> sem_available S (a_sem a) + length (a_running a) = MAX_CONCURRENT_CONNECTIONS"

lemma length_drop_nth: "k < length xs \<Longrightarrow> Suc (length (drop_nth k xs)) = length xs"
  by (simp add: drop_nth_def)

lemma accept_inv_event:
  assumes S: "sem_ok S" and inv: "accept_inv S a"
  shows "accept_inv S (accept_event S a e)"
proof (cases e)
  case (Accepted s)
  show ?thesis
  proof (cases "sem_try_acquire_many S (a_sem a) 1")
    case (Some p)
    then show ?thesis
      using inv sem_okD(3,4) [OF S Some] Accepted by (simp add: accept_inv_def)
  qed (use inv Accepted in simp)
next
  case (TaskEnds k)
  have "sem_available S (a_sem a) + 1 \<le> SEM_MAX_PERMITS"
    using inv by (simp add: accept_inv_def SEM_MAX_PERMITS_def MAX_CONCURRENT_CONNECTIONS_def)
  then show ?thesis
    using inv sem_okD(5) [OF S] length_drop_nth [of k "a_running a"] TaskEnds by (auto simp: accept_inv_def)
qed (use inv in \<open>simp_all add: accept_inv_def\<close>)

lemma accept_inv_start: "sem_ok S \<Longrightarrow> accept_inv S (accept_start S)"
  by (simp add: accept_inv_def accept_start_def MAX_CONCURRENT_CONNECTIONS_def SEM_MAX_PERMITS_def sem_okD(1))

interpretation accepting: invariant_system "\<lambda>a. sem_ok S \<and> a = accept_start S" "accept_step S"
  "\<lambda>a. sem_ok S \<and> accept_inv S a" for S :: "'p semaphore"
  by unfold_locales (auto simp: accept_step_iff intro: accept_inv_start accept_inv_event)

lemma accept_loop_reach:
  "reach init (accept_step S) a \<Longrightarrow> reach init (accept_step S) (fst (accept_loop S a es))"
  by (induction S a es rule: accept_loop.induct) (auto intro: reach.move accept_step.iterate)

section \<open>Shutdown\<close>

text \<open>A quiet second after the interrupt.\<close>

fun quiet_after :: "bool \<Rightarrow> server_event list \<Rightarrow> bool" where
  "quiet_after seen [] = False"
| "quiet_after seen (e # es) = (seen \<and> e = Tick \<or> quiet_after (seen \<or> e = Interrupt) es)"

lemma accept_event_shutdown: "a_shutdown (accept_event S a e) = (a_shutdown a \<or> e = Interrupt)"
  by (cases e) (auto split: option.splits)

lemma accept_loop_stops: "snd (accept_loop S a es) = quiet_after (a_shutdown a) es"
  by (induction S a es rule: accept_loop.induct) (auto simp: accept_event_shutdown)

section \<open>Properties\<close>

text \<open>C18: Whatever events the server's loop sees, at most 128 connection tasks run at the same time, free
  permits and running tasks always add up to 128, and a connection is turned away exactly when 128 tasks
  run.\<close>

theorem connection_limit:
  assumes "sem_ok S" and "accept_loop S (accept_start S) es = (a, stopped)"
  shows "length (a_running a) \<le> MAX_CONCURRENT_CONNECTIONS
    \<and> sem_available S (a_sem a) + length (a_running a) = MAX_CONCURRENT_CONNECTIONS
    \<and> (accept_event S a (Accepted s) = a \<longleftrightarrow> length (a_running a) = MAX_CONCURRENT_CONNECTIONS)"
proof -
  have "reach (\<lambda>a. sem_ok S \<and> a = accept_start S) (accept_step S) a"
    using accept_loop_reach [OF reach.start, of "\<lambda>a. sem_ok S \<and> a = accept_start S" "accept_start S" S es] assms by simp
  then have inv: "sem_available S (a_sem a) + length (a_running a) = MAX_CONCURRENT_CONNECTIONS"
    using accepting.reach_inv by (auto simp: accept_inv_def)
  have "accept_event S a (Accepted s) = a \<longleftrightarrow> sem_try_acquire_many S (a_sem a) 1 = None"
    by (auto split: option.splits dest: arg_cong [of _ _ "\<lambda>a. length (a_running a)"])
  then show ?thesis using inv sem_okD(2) [OF assms(1), of "a_sem a" 1] by auto
qed

lemma connection_limit_witness:
  "length (a_running (fst (accept_loop counter (accept_start counter) (replicate 130 (Accepted (stream_of [])))))) = 128
   \<and> accept_event counter (fst (accept_loop counter (accept_start counter) (replicate 130 (Accepted (stream_of []))))) (Accepted (stream_of []))
     = fst (accept_loop counter (accept_start counter) (replicate 130 (Accepted (stream_of []))))"
proof -
  let ?X = "accept_loop counter (accept_start counter) (replicate 130 (Accepted (stream_of [])))"
  have l: "length (a_running (fst ?X)) = 128" by code_simp
  have "?X = (fst ?X, snd ?X)" by simp
  from connection_limit [OF counter_ok this, of "stream_of []"] l show ?thesis
    by (simp add: MAX_CONCURRENT_CONNECTIONS_def)
qed

end
