(* ===== verification/Command.thy ===== *)
theory Command
  imports Utils Tls Accept_Loop Exchange
begin

text \<open>
  The two commands (\<open>src/main.rs\<close>, arguments of \<open>src/cli.rs\<close>): from the arguments to the configuration
  of \<open>server::run_server\<close> and \<open>client::run_client\<close>, and the exit codes. Parsing the command line is clap's;
  its results, the defaults included, are the argument records.
\<close>

section \<open>Arguments\<close>

record server_args =
  sa_address :: string
  sa_output_dir :: string
  sa_temp_dir :: "string option"
  sa_cert :: "string option"
  sa_key :: "string option"
  sa_max_parallel :: usize
  sa_verbose :: bool

record client_args =
  ca_address :: string
  ca_file :: "string option"
  ca_url :: "string option"
  ca_temp_dir :: string
  ca_chunk_size :: "string option"
  ca_chunk_count :: "usize option"
  ca_parallel :: usize
  ca_retries :: usize
  ca_tls :: bool
  ca_tls_no_verify :: bool
  ca_verbose :: bool

definition DEFAULT_CHUNK_SIZE :: string where "DEFAULT_CHUNK_SIZE = ''2M''"
definition DEFAULT_PARALLEL :: usize where [const_defs]: "DEFAULT_PARALLEL = 25"
definition DEFAULT_RETRIES :: usize where [const_defs]: "DEFAULT_RETRIES = 3"
definition MAX_PARALLEL :: usize where [const_defs]: "MAX_PARALLEL = 100"

text \<open>The defaults clap fills in.\<close>

definition default_server_args :: server_args where
  "default_server_args = \<lparr>sa_address = ''0.0.0.0:19999'', sa_output_dir = ''./received/'', sa_temp_dir = None,
     sa_cert = None, sa_key = None, sa_max_parallel = MAX_PARALLEL, sa_verbose = False\<rparr>"

definition default_client_args :: client_args where
  "default_client_args = \<lparr>ca_address = ''localhost:19999'', ca_file = None, ca_url = None, ca_temp_dir = ''/tmp'',
     ca_chunk_size = None, ca_chunk_count = None, ca_parallel = DEFAULT_PARALLEL, ca_retries = DEFAULT_RETRIES,
     ca_tls = False, ca_tls_no_verify = False, ca_verbose = False\<rparr>"

section \<open>The server command\<close>

definition server_config_of :: "server_args \<Rightarrow> string \<Rightarrow> u16 \<Rightarrow> server_config" where
  "server_config_of args bind_host port =
     \<lparr>sc_bind_host = bind_host, sc_port = port, sc_output_dir = sa_output_dir args,
      sc_temp_dir = (case sa_temp_dir args of None \<Rightarrow> sa_output_dir args | Some t \<Rightarrow> t),
      sc_certfile = sa_cert args, sc_keyfile = sa_key args, sc_max_parallel = sa_max_parallel args\<rparr>"

definition load_tls :: "('c, 'k) pem \<Rightarrow> disk \<Rightarrow> string \<Rightarrow> string \<Rightarrow> unit res" where
  "load_tls pem d certfile keyfile = res_map (\<lambda>_. ()) (load_tls_context pem d certfile keyfile)"

text \<open>The exit code, or \<open>None\<close> if the server still runs after the events.\<close>

definition server_command ::
  "'p semaphore \<Rightarrow> disk \<Rightarrow> ('c, 'k) pem \<Rightarrow> (string \<Rightarrow> u16 \<Rightarrow> unit res) \<Rightarrow> server_args
     \<Rightarrow> server_event list \<Rightarrow> int option res" where
  "server_command S d pem bind_control args es =
     (case parse_address (sa_address args) of
        Err e \<Rightarrow> Ok (Some 1)
      | Panic \<Rightarrow> Panic
      | Ok (bind_host, port) \<Rightarrow>
          (case server_start d (server_config_of args bind_host port) (load_tls pem d) bind_control of
             Err e \<Rightarrow> Ok (Some 1)
           | Panic \<Rightarrow> Panic
           | Ok tls \<Rightarrow> Ok (if snd (accept_loop S (accept_start S) es) then Some 0 else None)))"

section \<open>The client command\<close>

text \<open>\<open>Ok None\<close> is the return of exit code 1.\<close>

definition input_file ::
  "disk \<Rightarrow> (string \<Rightarrow> response option) \<Rightarrow> bool \<Rightarrow> client_args \<Rightarrow> disk \<times> string option res" where
  "input_file d get landed args =
     (case (ca_file args, ca_url args) of
        (Some f, None) \<Rightarrow> (d, Ok (Some f))
      | (None, Some url) \<Rightarrow>
          (case download_file d get landed url (ca_temp_dir args) of
             (d', Ok p) \<Rightarrow> (d', Ok (Some p))
           | (d', Err e) \<Rightarrow> (d', Ok None)
           | (d', Panic) \<Rightarrow> (d', Panic))
      | (None, None) \<Rightarrow> (d, Ok None)
      | (Some f, Some url) \<Rightarrow> (d, Ok None))"

definition chosen_chunk_size :: "client_args \<Rightarrow> u64 \<Rightarrow> usize option res" where
  "chosen_chunk_size args file_size =
     (case ca_chunk_count args of
        Some count \<Rightarrow>
          if count = 0 then Ok None else res_map Some (div_ceil (unat file_size) count)
      | None \<Rightarrow>
          (let size_str = (case ca_chunk_size args of None \<Rightarrow> DEFAULT_CHUNK_SIZE | Some s \<Rightarrow> s)
           in case parse_chunk_size size_str of
                Ok s \<Rightarrow> Ok (Some s)
              | Err e \<Rightarrow> Ok None
              | Panic \<Rightarrow> Panic))"

definition client_config_of :: "client_args \<Rightarrow> string \<Rightarrow> u16 \<Rightarrow> string \<Rightarrow> usize \<Rightarrow> client_config" where
  "client_config_of args host port filepath chunk_size =
     \<lparr>c_host = host, c_port = port, c_filepath = filepath, c_chunk_size = chunk_size,
      c_parallel = ca_parallel args, c_retries = ca_retries args, c_tls = ca_tls args,
      c_tls_no_verify = ca_tls_no_verify args, c_verbose = ca_verbose args\<rparr>"

text \<open>The number of chunks is computed for the log, and so divides by the chunk size.\<close>

definition configure_client :: "disk \<Rightarrow> client_args \<Rightarrow> string \<Rightarrow> client_config option res" where
  "configure_client d args filepath =
     (case stat_len d (path_of filepath) of
        Err e \<Rightarrow> Ok None
      | Panic \<Rightarrow> Panic
      | Ok file_size \<Rightarrow>
          (case parse_address (ca_address args) of
             Err e \<Rightarrow> Ok None
           | Panic \<Rightarrow> Panic
           | Ok (host, port) \<Rightarrow>
               res_bind (chosen_chunk_size args file_size) (\<lambda>chosen.
                 case chosen of
                   None \<Rightarrow> Ok None
                 | Some chunk_size \<Rightarrow>
                     res_bind (div_ceil (unat file_size) chunk_size) (\<lambda>num_chunks.
                       Ok (Some (client_config_of args host port filepath chunk_size))))))"

text \<open>\<open>client::run_client\<close> connects with the configuration; the environment has the rest. \<open>None\<close> is the exit
  code 1 before the client has run; a result has the exit code and whether the run was interrupted.\<close>

definition connected :: "'c tls_net \<Rightarrow> client_config \<Rightarrow> client_env \<Rightarrow> client_env" where
  "connected net c env =
     env\<lparr>e_control :=
       (case connect_to_server net (c_host c) (c_port c) (c_tls c) (c_tls_no_verify c) of
          Ok s \<Rightarrow> Some s
        | Err e \<Rightarrow> None
        | Panic \<Rightarrow> None)\<rparr>"

definition client_session ::
  "'h blake3 \<Rightarrow> disk \<Rightarrow> (string \<Rightarrow> response option) \<Rightarrow> bool \<Rightarrow> 'c tls_net \<Rightarrow> client_args \<Rightarrow> client_env
     \<Rightarrow> (int \<times> bool) option res" where
  "client_session B d get landed net args env =
     (case input_file d get landed args of
        (d', Ok (Some filepath)) \<Rightarrow>
          res_bind (configure_client d' args filepath) (\<lambda>config.
            case config of
              None \<Rightarrow> Ok None
            | Some c \<Rightarrow> res_map Some (run_client B d' c (connected net c env)))
      | (d', Ok None) \<Rightarrow> Ok None
      | (d', Err e) \<Rightarrow> Err e
      | (d', Panic) \<Rightarrow> Panic)"

definition client_command ::
  "'h blake3 \<Rightarrow> disk \<Rightarrow> (string \<Rightarrow> response option) \<Rightarrow> bool \<Rightarrow> 'c tls_net \<Rightarrow> client_args \<Rightarrow> client_env \<Rightarrow> int res" where
  "client_command B d get landed net args env =
     res_map (\<lambda>r. case r of None \<Rightarrow> 1 | Some (code, interrupted) \<Rightarrow> code)
       (client_session B d get landed net args env)"

section \<open>Lemmas\<close>

lemma recv_oversized:
  assumes "rx s = frame_bytes m @ rest" "MAX_PAYLOAD < length m" "length m < 2 ^ 32"
  shows "\<exists>s'. recv s = (s', Err (FrameTooLarge (length m))) \<and> tx s' = tx s"
  using assms unat_u32_of_usize [OF assms(3)]
  by (simp add: recv_def read_exact_def FRAME_HEADER_SIZE_def frame_bytes_def)

lemma data_loop_oversized:
  assumes "rx s = frame_bytes m @ rest" "MAX_PAYLOAD < length m" "length m < 2 ^ 32"
  shows "\<exists>s'. data_loop B rc d s = ((rc, d, s'), Ok ()) \<and> tx s' = tx s"
proof -
  have "\<exists>s1 e. recv_with_timeout s (timeout_for_bytes MAX_PAYLOAD) = (s1, Err e) \<and> tx s1 = tx s"
  proof -
    have r: "\<exists>s1. recv t = (s1, Err (FrameTooLarge (length m))) \<and> tx s1 = tx s" if "rx t = rx s" "tx t = tx s" for t
      using recv_oversized [of t m rest] assms that by simp
    show ?thesis
    proof (cases "rx_delays s")
      case Nil
      then show ?thesis using r [of s] by (auto simp: recv_with_timeout_def)
    next
      case (Cons x xs)
      then show ?thesis using r [of "s\<lparr>rx_delays := xs\<rparr>"] by (cases x) (auto simp: recv_with_timeout_def)
    qed
  qed
  then obtain s' where "data_iteration B rc d s = ((rc, d, s'), Ok Break)" "tx s' = tx s"
    by (cases "r_failed rc") (auto simp: data_iteration_def)
  then show ?thesis by (subst data_loop.simps) simp
qed

lemma quiet_after_iff:
  "quiet_after seen es \<longleftrightarrow> (\<exists>xs ys. es = xs @ Tick # ys \<and> (seen \<or> Interrupt \<in> set xs))"
proof (induction es arbitrary: seen)
  case (Cons e es)
  show ?case
  proof
    assume "quiet_after seen (e # es)"
    then consider "seen" "e = Tick" | "quiet_after (seen \<or> e = Interrupt) es" by auto
    then show "\<exists>xs ys. e # es = xs @ Tick # ys \<and> (seen \<or> Interrupt \<in> set xs)"
    proof cases
      case 1
      then show ?thesis by (intro exI [of _ "[]"] exI [of _ es]) simp
    next
      case 2
      then obtain xs ys where "es = xs @ Tick # ys" "(seen \<or> e = Interrupt) \<or> Interrupt \<in> set xs"
        using Cons.IH by blast
      then show ?thesis by (intro exI [of _ "e # xs"] exI [of _ ys]) auto
    qed
  next
    assume "\<exists>xs ys. e # es = xs @ Tick # ys \<and> (seen \<or> Interrupt \<in> set xs)"
    then obtain xs ys where x: "e # es = xs @ Tick # ys" "seen \<or> Interrupt \<in> set xs" by blast
    show "quiet_after seen (e # es)"
    proof (cases xs)
      case (Cons x zs)
      with x show ?thesis using Cons.IH by auto
    qed (use x in simp)
  qed
qed simp

lemma server_command_result:
  "server_command S d pem bind_control args es = Ok (Some 0) \<longleftrightarrow>
     (\<exists>host port tls. parse_address (sa_address args) = Ok (host, port)
        \<and> server_start d (server_config_of args host port) (load_tls pem d) bind_control = Ok tls \<and> quiet_after False es)"
  by (auto simp: server_command_def accept_loop_stops accept_start_def split: res.splits)

text \<open>A certificate without a key, or a key without a certificate, starts the server without TLS.\<close>

lemma half_tls_is_plain:
  "sa_cert args = None \<or> sa_key args = None \<Longrightarrow>
     server_start d (server_config_of args host port) load bind_control = Ok tls \<Longrightarrow> \<not> tls"
  by (auto simp: server_start_def server_config_of_def res_simps split: option.splits)

lemma configure_client_Some:
  assumes "configure_client d args filepath = Ok (Some c)"
  obtains n host port cs k where "stat_len d (path_of filepath) = Ok n" "parse_address (ca_address args) = Ok (host, port)"
    "chosen_chunk_size args n = Ok (Some cs)" "div_ceil (unat n) cs = Ok k" "c = client_config_of args host port filepath cs"
  using assms by (auto simp: configure_client_def res_simps split: res.splits option.splits)

text \<open>Cutting a file into at most the requested number of chunks.\<close>

lemma chunk_count_bound:
  assumes "div_ceil n count = Ok c" "div_ceil n c = Ok k" "0 < n"
  shows "0 < k \<and> k \<le> count \<and> n \<le> k * c"
proof -
  have a: "n \<le> c * count" using div_ceil_bounds [OF assms(1,3)] by simp
  have b: "0 < k" "(k - 1) * c < n" "n \<le> k * c" using div_ceil_bounds [OF assms(2,3)] by auto
  have "(k - 1) * c < count * c" using a b(2) by (metis mult.commute order_less_le_trans)
  then have "k - 1 < count" by simp
  then show ?thesis using b by linarith
qed

definition zero_chunk_size :: "client_args \<Rightarrow> u64 \<Rightarrow> bool" where
  "zero_chunk_size args n \<longleftrightarrow>
     (case ca_chunk_count args of
        Some count \<Rightarrow> 0 < count \<and> n = 0
      | None \<Rightarrow> parse_chunk_size (case ca_chunk_size args of None \<Rightarrow> DEFAULT_CHUNK_SIZE | Some t \<Rightarrow> t) = Ok 0)"

lemma configure_client_Panic:
  assumes "stat_len d (path_of filepath) = Ok n" "parse_address (ca_address args) = Ok hp"
  shows "configure_client d args filepath = Panic \<longleftrightarrow> zero_chunk_size args n"
proof -
  have np: "parse_chunk_size v \<noteq> Panic" for v
    by (auto simp: parse_chunk_size_def Let_def split: option.splits)
  have d0: "div_ceil k count = Ok 0 \<longleftrightarrow> 0 < count \<and> k = 0" for k count
    by (cases "k = 0") (auto simp: div_ceil_def div_eq_0_iff split: if_splits)
  have dp: "div_ceil k c = Panic \<longleftrightarrow> c = 0" for k c by (simp add: div_ceil_def)
  have "configure_client d args filepath = Panic \<longleftrightarrow> chosen_chunk_size args n = Panic \<or> chosen_chunk_size args n = Ok (Some 0)"
    using assms by (cases hp; cases "chosen_chunk_size args n")
      (auto simp: configure_client_def res_simps dp split: option.splits)
  also have "\<dots> \<longleftrightarrow> zero_chunk_size args n"
    using np by (auto simp: zero_chunk_size_def chosen_chunk_size_def res_simps dp d0 unat_eq_zero Let_def
        split: option.splits res.splits)
  finally show ?thesis .
qed

section \<open>Properties\<close>

text \<open>C36: The server command exits with 0 exactly if its address is valid, it could start (with the
  configuration made of its arguments), and a whole second without a connection attempt follows a Ctrl-C,
  whether or not transfers are running (in the first witness one is); as long as connection attempts come more often, it keeps running.\<close>

theorem server_command_exit:
  "(server_command S d pem bind_control args es = Ok (Some 0) \<longleftrightarrow>
     (\<exists>host port tls. parse_address (sa_address args) = Ok (host, port)
        \<and> server_start d (server_config_of args host port) (load_tls pem d) bind_control = Ok tls
        \<and> (\<exists>xs ys. es = xs @ Tick # ys \<and> Interrupt \<in> set xs)))
   \<and> (Tick \<notin> set es \<longrightarrow> server_command S d pem bind_control args es \<noteq> Ok (Some 0))"
  unfolding server_command_result quiet_after_iff by auto

definition ex_pem :: "(nat, nat) pem" where
  "ex_pem = \<lparr>pem_certs = (\<lambda>_. Some []), pem_private_key = (\<lambda>_. Some None), single_cert = (\<lambda>_ _. True)\<rparr>"

lemma server_command_exit_witness:
  "server_command counter empty_disk ex_pem (\<lambda>_ _. Ok ()) default_server_args
      [Accepted (stream_of []), Interrupt, AcceptError, Tick] = Ok (Some 0)
   \<and> server_command counter empty_disk ex_pem (\<lambda>_ _. Ok ()) default_server_args
      (Interrupt # replicate 100 AcceptError) \<noteq> Ok (Some 0)"
proof
  let ?es = "[Accepted (stream_of []), Interrupt, AcceptError, Tick]"
  have p: "parse_address (sa_address default_server_args) = Ok (''0.0.0.0'', 19999)" by code_simp
  have s: "server_start empty_disk (server_config_of default_server_args ''0.0.0.0'' 19999) (load_tls ex_pem empty_disk)
      (\<lambda>_ _. Ok ()) = Ok False" by code_simp
  have "?es = [Accepted (stream_of []), Interrupt, AcceptError] @ Tick # []" by simp
  then have "\<exists>xs ys. ?es = xs @ Tick # ys \<and> Interrupt \<in> set xs" by fastforce
  then show "server_command counter empty_disk ex_pem (\<lambda>_ _. Ok ()) default_server_args ?es = Ok (Some 0)"
    using server_command_exit [THEN conjunct1, THEN iffD2] p s by blast
  have "Tick \<notin> set (Interrupt # replicate 100 AcceptError)" by simp
  then show "server_command counter empty_disk ex_pem (\<lambda>_ _. Ok ()) default_server_args
      (Interrupt # replicate 100 AcceptError) \<noteq> Ok (Some 0)"
    using server_command_exit by blast
qed

text \<open>A client that starts its transfer has a positive chunk size, an address that was valid and a file
  that exists; with a requested number of chunks, a nonempty file is cut into at least one and at most
  that many chunks that cover it.\<close>

theorem client_configured:
  assumes "configure_client d args filepath = Ok (Some c)"
  shows "0 < c_chunk_size c \<and> c_filepath c = filepath
    \<and> parse_address (ca_address args) = Ok (c_host c, c_port c)
    \<and> (\<exists>n. stat_len d (path_of filepath) = Ok n
         \<and> (\<forall>count k. ca_chunk_count args = Some count \<longrightarrow> 0 < unat n \<longrightarrow> div_ceil (unat n) (c_chunk_size c) = Ok k
              \<longrightarrow> 0 < k \<and> k \<le> count \<and> unat n \<le> k * c_chunk_size c))"
proof -
  obtain n host port cs k where r: "stat_len d (path_of filepath) = Ok n" "parse_address (ca_address args) = Ok (host, port)"
    "chosen_chunk_size args n = Ok (Some cs)" "div_ceil (unat n) cs = Ok k"
    "c = client_config_of args host port filepath cs"
    using assms by (rule configure_client_Some)
  then have "div_ceil (unat n) count = Ok cs" if "ca_chunk_count args = Some count" for count
    using that by (auto simp: chosen_chunk_size_def res_simps split: if_splits)
  then have "\<forall>count k. ca_chunk_count args = Some count \<longrightarrow> 0 < unat n \<longrightarrow> div_ceil (unat n) cs = Ok k
      \<longrightarrow> 0 < k \<and> k \<le> count \<and> unat n \<le> k * cs"
    using chunk_count_bound by blast
  moreover have "0 < cs" using r(4) by (auto simp: div_ceil_def split: if_splits)
  ultimately show ?thesis using r by (auto simp: client_config_of_def)
qed

text \<open>The witnesses send the file of three bytes.\<close>

lemma ex_source_len: "stat_len ex_source (path_of ''f'') = Ok 3"
  by (simp add: stat_len_def ex_source_def)

lemma default_address: "parse_address (ca_address default_client_args) = Ok (''localhost'', 19999)"
  by code_simp

lemma client_configured_witness:
  "configure_client ex_source (default_client_args\<lparr>ca_chunk_count := Some 2\<rparr>) ''f''
     = Ok (Some (client_config_of default_client_args ''localhost'' 19999 ''f'' 2))
   \<and> 0 < c_chunk_size (client_config_of default_client_args ''localhost'' 19999 ''f'' 2)"
proof -
  let ?args = "default_client_args\<lparr>ca_chunk_count := Some 2\<rparr>"
  let ?c = "client_config_of default_client_args ''localhost'' 19999 ''f'' 2"
  have "configure_client ex_source ?args ''f'' = Ok (Some ?c)"
    using ex_source_len default_address
    by (simp add: configure_client_def chosen_chunk_size_def div_ceil_def client_config_of_def)
  from client_configured [OF this] this show ?thesis by (simp add: client_config_of_def)
qed

text \<open>The client command panics at its start exactly if the chunk size comes out as zero: a requested
  number of chunks for an empty file, or a size text that means zero, such as \<open>0\<close>, \<open>nank\<close> or \<open>-1k\<close>.\<close>

theorem zero_chunk_size_panics:
  assumes "stat_len d (path_of filepath) = Ok n" "parse_address (ca_address args) = Ok hp"
  shows "(configure_client d args filepath = Panic \<longleftrightarrow>
      (case ca_chunk_count args of
         Some count \<Rightarrow> 0 < count \<and> n = 0
       | None \<Rightarrow> parse_chunk_size (case ca_chunk_size args of None \<Rightarrow> DEFAULT_CHUNK_SIZE | Some t \<Rightarrow> t) = Ok 0))
    \<and> parse_chunk_size ''0'' = Ok 0 \<and> parse_chunk_size ''nank'' = Ok 0 \<and> parse_chunk_size ''-1k'' = Ok 0"
  using configure_client_Panic [OF assms] zero_sizes unfolding zero_chunk_size_def by blast

lemma zero_chunk_size_panics_witness:
  "configure_client ex_source (default_client_args\<lparr>ca_chunk_size := Some ''nank''\<rparr>) ''f'' = Panic"
proof -
  have "parse_address (ca_address (default_client_args\<lparr>ca_chunk_size := Some ''nank''\<rparr>)) = Ok (''localhost'', 19999)"
    using default_address by simp
  moreover have "ca_chunk_count default_client_args = None" by (simp add: default_client_args_def)
  ultimately show ?thesis
    using zero_chunk_size_panics [OF ex_source_len, of "default_client_args\<lparr>ca_chunk_size := Some ''nank''\<rparr>"]
      zero_sizes by simp
qed

text \<open>A chunk that does not fit into a frame is refused by every data connection, at once and without
  an answer: nothing is stored. The client sends such chunks from a chunk size of 16M on.\<close>

theorem oversized_chunk_refused:
  assumes "blake3_ok B" "rx s = frame_bytes (chunk_message i off data (b3_hash B data)) @ rest"
    and "MAX_PAYLOAD < length data + 48" "length data + 48 < 2 ^ 32"
  shows "(\<exists>s'. data_loop B rc d s = ((rc, d, s'), Ok ()) \<and> tx s' = tx s)
    \<and> parse_chunk_size ''16M'' = Ok MAX_PAYLOAD"
proof -
  have l: "length (chunk_message i off data (b3_hash B data)) = length data + 48"
    using assms(1) by (simp add: length_chunk_message blake3_ok_def)
  have "parse_chunk_size ''16M'' = Ok MAX_PAYLOAD" by (simp add: size_16M MAX_PAYLOAD_def)
  then show ?thesis using data_loop_oversized [OF assms(2)] assms(3,4) l by metis
qed

lemma oversized_chunk_refused_witness:
  "\<exists>s'. data_loop toy_blake3 ex_receiver empty_disk
        (stream_of (frame_bytes (chunk_message 0 0 (replicate MAX_PAYLOAD 7) (b3_hash toy_blake3 (replicate MAX_PAYLOAD 7)))))
      = ((ex_receiver, empty_disk, s'), Ok ()) \<and> tx s' = []"
proof -
  let ?data = "replicate MAX_PAYLOAD (7 :: u8)"
  let ?s = "stream_of (frame_bytes (chunk_message 0 0 ?data (b3_hash toy_blake3 ?data)))"
  have "rx ?s = frame_bytes (chunk_message 0 0 ?data (b3_hash toy_blake3 ?data)) @ []" "tx ?s = []"
    by (simp_all add: stream_of_def)
  moreover have "MAX_PAYLOAD < length ?data + 48" "length ?data + 48 < 2 ^ 32"
    by (simp_all add: MAX_PAYLOAD_def)
  ultimately show ?thesis using oversized_chunk_refused [OF toy_blake3_ok, of ?s] by metis
qed

text \<open>C13: A client command that ends uninterrupted with exit code 0 has talked to the server of its
  address, which confirmed the transfer; with \<open>--tls\<close> and without \<open>--tls-no-verify\<close> the certificate and
  the signature which that server presented were verified for the host of the address.\<close>

theorem client_success_authenticated:
  assumes "tls_sound net" "client_session B d get landed net args env = Ok (Some (0, False))"
  shows "\<exists>host port s t. parse_address (ca_address args) = Ok (host, port)
    \<and> tcp_connect net host port = Some s \<and> server_confirmed t
    \<and> connect_to_server net host port (ca_tls args) (ca_tls_no_verify args) = Ok t
    \<and> (\<not> ca_tls args \<longrightarrow> t = s)
    \<and> (ca_tls args \<and> \<not> ca_tls_no_verify args \<longrightarrow> accepts net (webpki_verifier net) host s)"
proof -
  obtain d' filepath c where c: "configure_client d' args filepath = Ok (Some c)"
    "run_client B d' c (connected net c env) = Ok (0, False)"
    using assms(2) by (auto simp: client_session_def res_simps split: res.splits option.splits prod.splits)
  obtain t where t: "e_control (connected net c env) = Some t" "server_confirmed t"
    using run_client_0 [OF c(2)] by blast
  have cfg: "parse_address (ca_address args) = Ok (c_host c, c_port c)" "c_tls c = ca_tls args"
    "c_tls_no_verify c = ca_tls_no_verify args"
    using c(1) by (auto simp: configure_client_def res_simps client_config_of_def split: res.splits option.splits)
  have con: "connect_to_server net (c_host c) (c_port c) (ca_tls args) (ca_tls_no_verify args) = Ok t"
    using t(1) cfg(2,3) by (auto simp: connected_def split: res.splits)
  show ?thesis
  proof (cases "ca_tls args")
    case True
    then show ?thesis
      using con cfg(1) t(2) connect_tls [of net "c_host c" "c_port c" "ca_tls_no_verify args" t]
        connect_verified [OF assms(1), of "c_host c" "c_port c" t] by fastforce
  next
    case False
    then show ?thesis using con cfg(1) t(2) by (auto simp: connect_to_server_def split: option.splits)
  qed
qed

text \<open>A TLS handshake with a server whose certificate is its name.\<close>

definition ex_net :: "string tls_net" where
  "ex_net = \<lparr>tcp_connect = (\<lambda>_ _. Some (stream_of (frame_bytes (response_bytes RESP_EXISTS [])))),
     server_name_ok = (\<lambda>_. True),
     webpki_verifier = \<lparr>verify_server_cert = (\<lambda>c host. c = host), verify_tls12_signature = (\<lambda>m c sig. m = sig),
       verify_tls13_signature = (\<lambda>m c sig. m = sig)\<rparr>,
     tls_connect = (\<lambda>v host s.
       if verify_server_cert v ''localhost'' host \<and> verify_tls13_signature v [1] ''localhost'' [1] then Some s else None),
     presented = (\<lambda>_. ''localhost''), signed = (\<lambda>_. ([1], [1])), speaks_13 = (\<lambda>_. True)\<rparr>"

lemma ex_net_sound: "tls_sound ex_net"
  by (simp add: tls_sound_def accepts_def ex_net_def)

definition ex_args :: client_args where
  "ex_args = default_client_args\<lparr>ca_file := Some ''f'', ca_chunk_size := Some ''2'', ca_tls := True\<rparr>"

lemma client_success_authenticated_witness:
  "client_session toy_blake3 ex_source (\<lambda>_. None) True ex_net ex_args (ex_env [] []) = Ok (Some (0, False))
   \<and> (\<exists>host s. accepts ex_net (webpki_verifier ex_net) host s)"
proof -
  have r: "client_session toy_blake3 ex_source (\<lambda>_. None) True ex_net ex_args (ex_env [] []) = Ok (Some (0, False))"
    by code_simp
  have "ca_tls ex_args \<and> \<not> ca_tls_no_verify ex_args" by (simp add: ex_args_def default_client_args_def)
  then show ?thesis using client_success_authenticated [OF ex_net_sound r] r by blast
qed

end
