(* ===== verification/Program.thy ===== *)
theory Program
  imports Command
begin

text \<open>
  The process (\<open>main\<close> of \<open>src/main.rs\<close>, \<open>Commands\<close> of \<open>src/cli.rs\<close>): which command runs, the level of its log,
  and the exit status. A panic of the main task ends the process with the status 101.
\<close>

section \<open>Commands\<close>

datatype commands = ServerCommand server_args | ClientCommand client_args

fun verbose :: "commands \<Rightarrow> bool" where
  "verbose (ServerCommand args) = sa_verbose args"
| "verbose (ClientCommand args) = ca_verbose args"

datatype level_filter = LevelInfo | LevelDebug

definition init_logging :: "bool \<Rightarrow> level_filter" where
  "init_logging verb = (if verb then LevelDebug else LevelInfo)"

text \<open>What the process meets: the events of the accept loop for a server, the network for a client.\<close>

record ('p, 'h, 'c, 'k) world =
  the_semaphore :: "'p semaphore"
  the_blake3 :: "'h blake3"
  the_disk :: disk
  the_pem :: "('c, 'k) pem"
  the_bind :: "string \<Rightarrow> u16 \<Rightarrow> unit res"
  the_events :: "server_event list"
  the_http :: "string \<Rightarrow> response option"
  the_landed :: bool
  the_net :: "'c tls_net"
  the_env :: client_env

text \<open>The log level, and the exit code, or \<open>None\<close> for a server that still runs.\<close>

definition bee_main :: "('p, 'h, 'c, 'k) world \<Rightarrow> commands \<Rightarrow> level_filter \<times> int option res" where
  "bee_main W command =
     (init_logging (verbose command),
      case command of
        ServerCommand args \<Rightarrow>
          server_command (the_semaphore W) (the_disk W) (the_pem W) (the_bind W) args (the_events W)
      | ClientCommand args \<Rightarrow>
          res_map Some (client_command (the_blake3 W) (the_disk W) (the_http W) (the_landed W) (the_net W) args (the_env W)))"

definition exit_status :: "int option res \<Rightarrow> int option" where
  "exit_status r = (case r of Ok code \<Rightarrow> code | Err e \<Rightarrow> Some 1 | Panic \<Rightarrow> Some 101)"

section \<open>Nothing else panics\<close>

lemma hash_loop_not_Panic: "hash_loop B d p pos h \<noteq> Panic"
proof (induction B d p pos h rule: hash_loop.induct)
  case (1 B d p pos h)
  then show ?case
    by (cases "file_read_at d p pos BUFFER_SIZE") (auto simp: hash_loop.simps [of B d p pos h])
qed

lemma build_handshake_not_Panic: "0 < cs \<Longrightarrow> build_handshake B d f cs \<noteq> Panic"
  by (auto simp: build_handshake_def Let_def res_simps stat_len_def count_chunks_def div_ceil_def file_hash_def
      file_open_def hash_loop_not_Panic split: option.splits if_splits)

lemma recv_with_timeout_not_Panic: "snd (recv_with_timeout s T) \<noteq> Panic"
  by (auto simp: recv_with_timeout_def recv_not_Panic split: list.splits prod.splits)

lemma setup_transfer_not_Panic: "0 < c_chunk_size c \<Longrightarrow> setup_transfer d c \<noteq> Panic"
  by (auto simp: setup_transfer_def Let_def res_simps div_ceil_def split: if_splits)

lemma perform_handshake_not_Panic:
  assumes "0 < c_chunk_size c"
  shows "perform_handshake B d c conn \<noteq> Panic" "perform_handshake B d c conn \<noteq> Err e"
  using build_handshake_not_Panic [OF assms, of B d "c_filepath c"] send_timeout_not_Panic
    recv_with_timeout_not_Panic parse_response_not_Panic
  by (auto simp: perform_handshake_def recv_timeout_def split: option.splits res.splits prod.splits)
    (metis snd_conv)+

lemma confirmation_code_total: "confirmation_code s n = Ok 0 \<or> confirmation_code s n = Ok 1"
  using recv_with_timeout_not_Panic [of s "timeout_for_bytes (unat n)"]
  by (auto simp: confirmation_code_def recv_final_status_def st_bind_def Let_def split: prod.splits res.splits bool.splits)

text \<open>A client with a positive chunk size returns, with 0 or 1.\<close>

lemma run_client_returns:
  assumes "0 < c_chunk_size c"
  shows "\<exists>code b. run_client B d c env = Ok (code, b) \<and> (code = 0 \<or> code = 1)"
proof -
  have tc: "\<exists>code b. transfer_chunks B d c env s n k ports = Ok (code, b) \<and> (code = 0 \<or> code = 1)" for s n k ports
  proof (cases "ports = []")
    case True
    then show ?thesis using confirmation_code_total [of s n] by (auto simp: transfer_chunks_def)
  next
    case False
    from run_workers_total [OF this, of B d c env n 0 "setup_workers c k ports"] obtain failed flag where
      "run_workers B d c env (setup_workers c k ports) ports n = Ok (failed, flag)"
      by (auto simp: is_ok_iff run_workers_def)
    then show ?thesis using False confirmation_code_total [of s n] by (auto simp: transfer_chunks_def Let_def)
  qed
  show ?thesis
    using setup_transfer_not_Panic [OF assms, of d] perform_handshake_not_Panic [OF assms, of B d "e_control env"] tc
      confirmation_code_total
    by (auto simp: run_client_def split: res.splits option.splits prod.splits) (metis res_map.simps(1))+
qed

lemma configured_positive:
  assumes "configure_client d args f = Ok (Some c)"
  shows "0 < c_chunk_size c"
  using assms by (rule configure_client_Some) (auto simp: client_config_of_def div_ceil_def split: if_splits)

lemma configure_client_not_Err: "configure_client d args f \<noteq> Err e"
  by (auto simp: configure_client_def res_simps chosen_chunk_size_def div_ceil_def Let_def
      split: res.splits option.splits if_splits)

lemma settle_not_Panic: "snd (settle d p pending) \<noteq> Panic"
  by (auto simp: settle_def file_append_def Let_def split: option.splits)

lemma download_loop_not_Panic: "snd (download_loop d p pending body) \<noteq> Panic"
  by (induction d p pending body rule: download_loop.induct)
    (auto split: res.splits prod.splits dest: arg_cong [of _ _ snd] simp: settle_not_Panic)

lemma download_loop_result [simp]: "download_loop d p pending body \<noteq> (st, Panic)"
  using download_loop_not_Panic [of d p pending body] by auto

lemma download_file_not_Panic: "snd (download_file d get landed url dir) \<noteq> Panic"
  by (auto simp: download_file_def st_bind_def create_dir_all_def file_create_def Let_def res_simps
      split: option.splits prod.splits res.splits)

lemma input_file_total: "\<exists>d' f. input_file d get landed args = (d', Ok f)"
  using download_file_not_Panic [of d get landed _ "ca_temp_dir args"]
  by (auto simp: input_file_def split: option.splits prod.splits res.splits) (metis snd_conv)

text \<open>A client command whose input file was there and whose address was valid divides by zero or returns.\<close>

definition starts_with_zero :: "disk \<Rightarrow> (string \<Rightarrow> response option) \<Rightarrow> bool \<Rightarrow> client_args \<Rightarrow> bool" where
  "starts_with_zero d get landed args \<longleftrightarrow>
     (\<exists>d' f n hp. input_file d get landed args = (d', Ok (Some f)) \<and> stat_len d' (path_of f) = Ok n
        \<and> parse_address (ca_address args) = Ok hp \<and> zero_chunk_size args n)"

lemma configure_Panic_iff:
  "configure_client d args f = Panic \<longleftrightarrow>
     (\<exists>n hp. stat_len d (path_of f) = Ok n \<and> parse_address (ca_address args) = Ok hp \<and> zero_chunk_size args n)"
proof (cases "stat_len d (path_of f)")
  case (Ok n)
  show ?thesis
  proof (cases "parse_address (ca_address args)")
    case (Ok hp)
    with \<open>stat_len d (path_of f) = Ok n\<close> show ?thesis using configure_client_Panic by blast
  next
    case (Err e)
    with \<open>stat_len d (path_of f) = Ok n\<close> show ?thesis by (simp add: configure_client_def)
  qed (simp add: parse_address_not_Panic)
next
  case (Err e)
  then show ?thesis by (simp add: configure_client_def)
next
  case Panic
  then show ?thesis by (simp add: stat_len_def split: option.splits)
qed

lemma client_command_cases:
  "(client_command B d get landed net args env = Panic \<longleftrightarrow> starts_with_zero d get landed args)
   \<and> (\<not> starts_with_zero d get landed args \<longrightarrow>
        client_command B d get landed net args env = Ok 0 \<or> client_command B d get landed net args env = Ok 1)"
proof -
  obtain d' fo where inp: "input_file d get landed args = (d', Ok fo)" using input_file_total by blast
  show ?thesis
  proof (cases fo)
    case None
    then show ?thesis using inp by (simp add: client_command_def client_session_def starts_with_zero_def)
  next
    case (Some f)
    have z: "starts_with_zero d get landed args \<longleftrightarrow> configure_client d' args f = Panic"
      using inp Some by (auto simp: starts_with_zero_def configure_Panic_iff)
    show ?thesis
    proof (cases "configure_client d' args f")
      case (Ok co)
      show ?thesis
      proof (cases co)
        case None
        then show ?thesis using inp Some Ok z by (simp add: client_command_def client_session_def)
      next
        case (Some c)
        from run_client_returns [OF configured_positive, of d' args f c B d' "connected net c env"] Ok Some obtain code b where
          "run_client B d' c (connected net c env) = Ok (code, b)" "code = 0 \<or> code = 1" by blast
        then show ?thesis using inp \<open>fo = Some f\<close> Some Ok z by (auto simp: client_command_def client_session_def)
      qed
    next
      case Panic
      then show ?thesis using inp Some z by (simp add: client_command_def client_session_def)
    qed (simp add: configure_client_not_Err)
  qed
qed

lemma server_command_cases:
  assumes "\<And>h p. bind h p \<noteq> Panic"
  shows "server_command S d pem bind args es \<in> {Ok None, Ok (Some 0), Ok (Some 1)}"
proof -
  have "server_start d (server_config_of args host port) (load_tls pem d) bind \<noteq> Panic" for host port
    using assms load_tls_context_not_Panic [of pem d]
    by (auto simp: server_start_def create_dir_all_def load_tls_def res_simps split: option.splits if_splits)
  then show ?thesis
    using parse_address_not_Panic by (auto simp: server_command_def split: res.splits)
qed

section \<open>Properties\<close>

text \<open>C25: How the process ends, whatever the arguments, the disk and the network are: a server runs on or
  exits with 0 or 1 and never panics; a client exits with 0 or 1, or it panics (status 101), which happens
  exactly when its input file is there, its address is valid and the chunk size comes out as zero, such as
  for \<open>0\<close>, \<open>nank\<close>, \<open>-1k\<close> or a requested number of chunks of an empty file. The log level follows \<open>--verbose\<close>.\<close>

theorem process_exits:
  assumes "\<And>h p. the_bind W h p \<noteq> Panic"
  shows "exit_status (snd (bee_main W (ServerCommand sargs))) \<in> {None, Some 0, Some 1}
    \<and> exit_status (snd (bee_main W (ClientCommand cargs))) \<in> {Some 0, Some 1, Some 101}
    \<and> (exit_status (snd (bee_main W (ClientCommand cargs))) = Some 101 \<longleftrightarrow>
         starts_with_zero (the_disk W) (the_http W) (the_landed W) cargs)
    \<and> (fst (bee_main W command) = LevelDebug \<longleftrightarrow> verbose command)"
proof -
  have "exit_status (snd (bee_main W (ServerCommand sargs))) \<in> {None, Some 0, Some 1}"
    using server_command_cases [of "the_bind W" "the_semaphore W" "the_disk W" "the_pem W" sargs "the_events W"] assms
    by (auto simp: bee_main_def exit_status_def)
  moreover have "exit_status (snd (bee_main W (ClientCommand cargs))) \<in> {Some 0, Some 1, Some 101}
      \<and> (exit_status (snd (bee_main W (ClientCommand cargs))) = Some 101 \<longleftrightarrow>
         starts_with_zero (the_disk W) (the_http W) (the_landed W) cargs)"
    using client_command_cases [of "the_blake3 W" "the_disk W" "the_http W" "the_landed W" "the_net W" cargs "the_env W"]
    by (auto simp: bee_main_def exit_status_def)
  moreover have "fst (bee_main W command) = LevelDebug \<longleftrightarrow> verbose command"
    by (simp add: bee_main_def init_logging_def)
  ultimately show ?thesis by blast
qed

definition ex_world :: "(nat, bytes, string, nat) world" where
  "ex_world = \<lparr>the_semaphore = counter, the_blake3 = toy_blake3, the_disk = ex_source,
     the_pem = \<lparr>pem_certs = (\<lambda>_. None), pem_private_key = (\<lambda>_. None), single_cert = (\<lambda>_ _. False)\<rparr>,
     the_bind = (\<lambda>_ _. Ok ()), the_events = [Interrupt, Tick], the_http = (\<lambda>_. None), the_landed = True,
     the_net = ex_net, the_env = ex_env [] []\<rparr>"

lemma process_exits_witness:
  "exit_status (snd (bee_main ex_world (ClientCommand (ex_args\<lparr>ca_chunk_size := Some ''nank''\<rparr>)))) = Some 101
   \<and> exit_status (snd (bee_main ex_world (ServerCommand default_server_args))) = Some 0
   \<and> exit_status (snd (bee_main ex_world (ClientCommand ex_args))) = Some 0"
proof -
  let ?args = "ex_args\<lparr>ca_chunk_size := Some ''nank''\<rparr>"
  have "the_bind ex_world h p \<noteq> Panic" for h p by (simp add: ex_world_def)
  note pe = process_exits [OF this]
  have i: "input_file ex_source (\<lambda>_. None) True ?args = (ex_source, Ok (Some ''f''))"
    by (simp add: input_file_def ex_args_def default_client_args_def)
  have "parse_address (ca_address ?args) = Ok (''localhost'', 19999)" using default_address by (simp add: ex_args_def)
  moreover have "zero_chunk_size ?args 3" using zero_sizes by (simp add: zero_chunk_size_def ex_args_def default_client_args_def)
  ultimately have "starts_with_zero (the_disk ex_world) (the_http ex_world) (the_landed ex_world) ?args"
    using i ex_source_len unfolding starts_with_zero_def by (simp add: ex_world_def)
  then have "exit_status (snd (bee_main ex_world (ClientCommand ?args))) = Some 101" using pe by blast
  moreover have "exit_status (snd (bee_main ex_world (ServerCommand default_server_args))) = Some 0"
    "exit_status (snd (bee_main ex_world (ClientCommand ex_args))) = Some 0" by code_simp+
  ultimately show ?thesis by blast
qed

end
