(* ===== verification/Service_Ports.thy ===== *)
theory Service_Ports
  imports Service
begin

text \<open>
  The data ports over the life of a server: every control connection takes its ports from the pool,
  hands them out and gives their permits back, while the others wait, their data connections run and
  their port tasks come and go. The invariant is that of \<open>Transfers\<close>, for whole control connections.
\<close>

section \<open>A life as transfers\<close>

text \<open>The live transfers are those of the waiting connections; the counters are not in the code.\<close>

definition live_of :: "'p life \<Rightarrow> (nat \<times> u16 list) list" where
  "live_of w = map (\<lambda>(s, rid, ports, s1). (rid, ports)) (l_waiting w)"

definition transfers_of :: "'p life \<Rightarrow> nat \<Rightarrow> nat \<Rightarrow> 'p transfers" where
  "transfers_of w leaked opened =
     \<lparr>t_server = l_server w, t_live = live_of w, t_leaked = leaked, t_opened = opened\<rparr>"

definition ports_inv :: "'p semaphore \<Rightarrow> 'p life \<Rightarrow> bool" where
  "ports_inv S w \<longleftrightarrow> (\<exists>leaked opened. transfers_inv S (transfers_of w leaked opened))"

text \<open>Steps in which no port task dies.\<close>

definition lively_life ::
  "'p semaphore \<Rightarrow> 'h blake3 \<Rightarrow> string \<Rightarrow> string \<Rightarrow> usize \<Rightarrow> 'p life \<Rightarrow> 'p life \<Rightarrow> bool" where
  "lively_life S B output_dir temp_dir mp w w' \<longleftrightarrow> life_step S B output_dir temp_dir mp w w'
     \<and> bound (l_server w) \<subseteq> bound (l_server w')"

lemma live_of_opened:
  "live_of (connection_opened w s srv' s' r) = (case r of Ok (Waiting rid ports) \<Rightarrow> (rid, ports) # live_of w | _ \<Rightarrow> live_of w)"
  by (simp add: live_of_def connection_opened_def split: res.split control.split)

lemma ports_invI: "transfers_inv S (transfers_of w k m) \<Longrightarrow> ports_inv S w"
  unfolding ports_inv_def by blast

lemma ports_inv_shared:
  assumes "ports_inv S w" "same_shared (l_server w) (l_server w')" "bound (l_server w') = bound (l_server w)"
    and "live_of w' = live_of w"
  shows "ports_inv S w'"
proof -
  obtain k m where "transfers_inv S (transfers_of w k m)" using assms(1) by (auto simp: ports_inv_def)
  from transfers_inv_shared [OF this] have "transfers_inv S (transfers_of w' k m)" using assms(2-4) by (simp add: transfers_of_def)
  then show ?thesis by (rule ports_invI)
qed

section \<open>Control connections\<close>

text \<open>Opening a connection allocates ports on a server whose disk resuming has changed, or changes the disk only.\<close>

lemma opened_ports:
  assumes dirs: "output_dir \<noteq> []" "temp_dir \<noteq> []"
    and o: "control_open S B os_free srv s output_dir temp_dir mp = ((srv', s'), r)"
  obtains (disk) d where "srv' = srv\<lparr>sdisk := d\<rparr>" "\<And>rid ports. r \<noteq> Ok (Waiting rid ports)"
    | (ports) d s2 rc where "open_ports S os_free (srv\<lparr>sdisk := d\<rparr>) s2 rc mp = ((srv', s'), r)" "min (r_num_chunks rc) mp < 2 ^ 32"
  using o
proof (cases rule: control_open_cases)
  case (no_handshake x)
  then show thesis using disk [of "sdisk srv"] by (cases x) simp_all
next
  case (refused s1 h go)
  then show thesis using disk [of "sdisk srv"] by (cases go) simp_all
next
  case (broken s1 h rc d b)
  then show thesis using disk [of d] by (auto simp: is_ok_iff)
next
  case (complete s1 h s2 rc d d' u)
  then show thesis using disk [of d'] by (cases u) simp_all
next
  case (ports s1 h s2 rc d)
  have ok: "handshake_ok h" using receive_handshake_announced [OF ports(1)] by simp
  have "r_num_chunks rc = h_num_chunks h"
    using resume_receiver_ok [OF create_receiver_fresh [OF ok dirs] ports(3)] by (simp add: create_receiver_def receiver_new_def)
  then have "min (r_num_chunks rc) mp < 2 ^ 32" using ok by (simp add: handshake_ok_def MAX_CHUNKS_def min_less_iff_disj)
  then show thesis using that(2) ports(4) by blast
qed

lemma ports_inv_opens:
  assumes dirs: "output_dir \<noteq> []" "temp_dir \<noteq> []" and S: "sem_ok S" and inv: "ports_inv S w"
    and o: "control_open S B os_free (l_server w) s output_dir temp_dir mp = ((srv', s'), r)"
  shows "ports_inv S (connection_opened w s srv' s' r)"
  using dirs o
proof (cases rule: opened_ports)
  case (disk d)
  then have "live_of (connection_opened w s srv' s' r) = live_of w"
    by (auto simp: live_of_opened split: res.split control.split)
  then show ?thesis using ports_inv_shared [OF inv] disk(1) by (simp add: same_shared_def)
next
  case (ports d s2 rc)
  obtain k m where t: "transfers_inv S (transfers_of w k m)" using inv by (auto simp: ports_inv_def)
  let ?t = "(transfers_of w k m)\<lparr>t_server := (l_server w)\<lparr>sdisk := d\<rparr>\<rparr>"
  have i: "transfers_inv S ?t" by (rule transfers_inv_shared [OF t]) (simp_all add: transfers_of_def same_shared_def)
  have o': "open_ports S os_free (t_server ?t) s2 rc mp = ((srv', s'), r)" using ports(1) by simp
  show ?thesis
  proof (cases "\<exists>rid ps. r = Ok (Waiting rid ps)")
    case True
    then obtain rid ps where r: "r = Ok (Waiting rid ps)" by blast
    from transfers_inv_opens [OF i S ports(2) o' [unfolded r]] show ?thesis
      by (intro ports_invI [of S _ k "m + length ps"]) (simp add: transfers_of_def live_of_opened r)
  next
    case False
    then have "live_of (connection_opened w s srv' s' r) = live_of w"
      by (auto simp: live_of_opened split: res.split control.split)
    then show ?thesis using transfers_inv_refuses [OF i S ports(2) o']
      by (intro ports_invI) (simp add: transfers_of_def)
  qed
qed

lemma close_panic_shape:
  "control_close S B srv s rid ports = ((srv', s'), r) \<Longrightarrow> r \<noteq> Ok () \<Longrightarrow> \<exists>d. srv' = srv\<lparr>sdisk := d\<rparr>"
  by (auto simp: control_close_def Let_def split: prod.splits res.splits if_splits)

lemma ports_inv_closes:
  assumes S: "sem_ok S" and inv: "ports_inv S w" and c: "(s, rid, ports, s1) \<in> set (l_waiting w)"
    and o: "control_close S B (l_server w) s1 rid ports = ((srv', s'), r)"
  shows "ports_inv S (connection_closed w (s, rid, ports, s1) srv' s' r)"
proof -
  let ?f = "\<lambda>(s, rid, ports, s1). (rid, ports)" and ?w' = "connection_closed w (s, rid, ports, s1) srv' s' r"
  obtain k m where t: "transfers_inv S (transfers_of w k m)" using inv by (auto simp: ports_inv_def)
  obtain xs ys where x: "l_waiting w = xs @ (s, rid, ports, s1) # ys" "(s, rid, ports, s1) \<notin> set xs"
    using c by (meson split_list_first)
  have l: "t_live (transfers_of w k m) = map ?f xs @ (rid, ports) # map ?f ys" using x(1) by (simp add: transfers_of_def live_of_def)
  have live: "live_of ?w' = map ?f xs @ map ?f ys" using x by (simp add: live_of_def remove1_append)
  have w': "transfers_of ?w' i j = \<lparr>t_server = srv', t_live = map ?f xs @ map ?f ys, t_leaked = i, t_opened = j\<rparr>" for i j
    unfolding transfers_of_def live by simp
  show ?thesis
  proof (cases "r = Ok ()")
    case True
    have "control_close S B (t_server (transfers_of w k m)) s1 rid ports = ((srv', s'), Ok ())"
      using o True by (simp add: transfers_of_def)
    from transfers_inv_closes [OF t S l this] show ?thesis
      by (intro ports_invI [of S ?w' k m]) (simp add: w', simp add: transfers_of_def)
  next
    case False
    then obtain d where d: "srv' = (l_server w)\<lparr>sdisk := d\<rparr>" using close_panic_shape [OF o] by blast
    have "transfers_inv S (transfers_of ?w' (k + length ports) m)"
      using transfers_inv_shared [OF transfers_inv_drops [OF t l], of srv'] unfolding w'
      by (simp add: d same_shared_def transfers_of_def)
    then show ?thesis by (rule ports_invI)
  qed
qed

lemma ports_inv_step:
  assumes dirs: "output_dir \<noteq> []" "temp_dir \<noteq> []" and S: "sem_ok S" and inv: "ports_inv S w"
    and st: "lively_life S B output_dir temp_dir mp w w'"
  shows "ports_inv S w'"
proof -
  have b: "bound (l_server w) \<subseteq> bound (l_server w')" and "life_step S B output_dir temp_dir mp w w'"
    using st by (simp_all add: lively_life_def)
  from \<open>life_step S B output_dir temp_dir mp w w'\<close> show ?thesis
  proof cases
    case (opens os_free s srv' s' r)
    then show ?thesis using ports_inv_opens [OF dirs S inv] by simp
  next
    case (turns rid s)
    then show ?thesis using ports_inv_shared [OF inv, of w'] turn_shared [of "l_server w" B] by (simp add: live_of_def)
  next
    case (serves port accepts)
    then have "bound (l_server w') = bound (l_server w)" using serve_port_shared [of "l_server w" B port accepts] b by auto
    then show ?thesis
      using ports_inv_shared [OF inv, of w'] serve_port_shared [of "l_server w" B port accepts] serves by (simp add: live_of_def)
  next
    case (closes s rid ports s1 srv' s' r)
    then show ?thesis using ports_inv_closes [OF S inv] by simp
  qed
qed

lemma ports_inv_start: "sem_ok S \<Longrightarrow> ports_inv S (life_start S d)"
  using transfers_inv_start [of S d]
  by (intro ports_invI [of S _ 0 0]) (simp add: transfers_of_def live_of_def life_start_def transfers_start_def)

interpretation ports_life: invariant_system "\<lambda>w. sem_ok S \<and> out \<noteq> [] \<and> tmp \<noteq> [] \<and> w = life_start S d"
  "lively_life S B out tmp mp" "\<lambda>w. sem_ok S \<and> out \<noteq> [] \<and> tmp \<noteq> [] \<and> ports_inv S w"
  for S :: "'p semaphore" and B :: "'h blake3" and out tmp mp d
  by unfold_locales (auto intro: ports_inv_start ports_inv_step)

section \<open>Properties\<close>

text \<open>C17: Over every interleaving of control connections, data connections and port tasks, whatever clients
  send, as long as no port task dies: no two waiting connections have a receiver or a port in common, every
  port of a waiting connection is bound and leads to that connection's receiver, and the permits in the pool
  and the ports in use never exceed the 1001 ports of the range.\<close>

theorem connections_isolated:
  assumes "sem_ok S" "output_dir \<noteq> []" "temp_dir \<noteq> []"
    and "reach (\<lambda>w. w = life_start S d) (lively_life S B output_dir temp_dir mp) w"
  shows "distinct (map fst (live_of w)) \<and> distinct (concat (map snd (live_of w)))
    \<and> (\<forall>(s, rid, ports, s1) \<in> set (l_waiting w). rid < length (receivers (l_server w))
         \<and> (\<forall>p \<in> set ports. p \<in> bound (l_server w) \<and> get_receiver (l_server w) p = Some rid))
    \<and> available S (l_server w) + length (concat (map snd (live_of w))) \<le> TOTAL_DATA_PORTS"
proof -
  obtain k m where "transfers_inv S (transfers_of w k m)"
    using ports_life.reach_inv [of S output_dir temp_dir d B mp w] assms by (auto simp: ports_inv_def)
  note inv = transfers_invD [OF this, unfolded transfers_of_def held_def, simplified]
  have "rid < length (receivers (l_server w)) \<and> (\<forall>p \<in> set ports. p \<in> bound (l_server w) \<and> get_receiver (l_server w) p = Some rid)"
    if c: "(s, rid, ports, s1) \<in> set (l_waiting w)" for s rid ports s1
  proof -
    have l: "(rid, ports) \<in> set (live_of w)" using c by (force simp: live_of_def)
    then have "set ports \<subseteq> bound (l_server w)" using inv(2) by fastforce
    then show ?thesis using inv(4) [OF l] by blast
  qed
  then show ?thesis using inv(1,3,5) by auto
qed

text \<open>Two clients, with files \<open>f\<close> and \<open>g\<close>, on a server that gives each two ports.\<close>

lemma open_keeps_bound:
  assumes dirs: "output_dir \<noteq> []" "temp_dir \<noteq> []" and S: "sem_ok S"
    and o: "control_open S B os_free srv s output_dir temp_dir mp = ((srv', s'), r)"
  shows "bound srv \<subseteq> bound srv'"
  using dirs o
proof (cases rule: opened_ports)
  case (ports d s2 rc)
  then show ?thesis using open_ports_taken [OF S ports(2,1)] by simp
qed simp

definition ex_handshake2 :: stream where
  "ex_handshake2 = stream_of (frame_bytes (handshake_bytes (str_bytes ''g'') 3 2 2 (b3_hash toy_blake3 ex_content)))"

definition ex_second_open :: "(nat server \<times> stream) \<times> control res" where
  "ex_second_open = control_open counter toy_blake3 (\<lambda>_. True) (fst (fst ex_life_open)) ex_handshake2 ''out'' ''out'' 2"

lemma lively_opens:
  assumes "output_dir \<noteq> []" "temp_dir \<noteq> []" "sem_ok S"
    and X: "X = control_open S B os_free (l_server w) s output_dir temp_dir mp"
  shows "lively_life S B output_dir temp_dir mp w (connection_opened w s (fst (fst X)) (snd (fst X)) (snd X))"
proof -
  have o: "control_open S B os_free (l_server w) s output_dir temp_dir mp = ((fst (fst X), snd (fst X)), snd X)" by (simp add: X)
  show ?thesis using open_keeps_bound [OF assms(1-3) o] life_step.opens [OF o] by (simp add: lively_life_def)
qed

lemma connections_isolated_witness:
  "\<exists>w. reach (\<lambda>w. w = life_start counter ex_old_disk) (lively_life counter toy_blake3 ''out'' ''out'' 2) w
     \<and> live_of w = [(1, [45002, 45003]), (0, [45000, 45001])]
     \<and> get_receiver (l_server w) 45001 = Some 0 \<and> get_receiver (l_server w) 45002 = Some 1
     \<and> available counter (l_server w) + 4 \<le> 1001"
proof -
  let ?w0 = "life_start counter ex_old_disk" and ?X = ex_life_open and ?Y = ex_second_open
  let ?w1 = "connection_opened ?w0 ex_handshake (fst (fst ?X)) (snd (fst ?X)) (snd ?X)"
  let ?w2 = "connection_opened ?w1 ex_handshake2 (fst (fst ?Y)) (snd (fst ?Y)) (snd ?Y)"
  have r: "snd ?X = Ok (Waiting 0 [45000, 45001])" "snd ?Y = Ok (Waiting 1 [45002, 45003])" by code_simp+
  have "lively_life counter toy_blake3 ''out'' ''out'' 2 ?w0 ?w1"
    by (rule lively_opens [OF _ _ counter_ok]) (simp_all add: ex_life_open_def life_start_def)
  moreover have "lively_life counter toy_blake3 ''out'' ''out'' 2 ?w1 ?w2"
    by (rule lively_opens [OF _ _ counter_ok]) (simp_all add: ex_second_open_def)
  ultimately have w: "reach (\<lambda>w. w = ?w0) (lively_life counter toy_blake3 ''out'' ''out'' 2) ?w2"
    by (intro reach.move [OF reach.move [OF reach.start]]) simp_all
  have l: "l_waiting ?w2 = [(ex_handshake2, 1, [45002, 45003], snd (fst ?Y)), (ex_handshake, 0, [45000, 45001], snd (fst ?X))]"
    unfolding connection_opened_def r by (simp add: life_start_def)
  then have lv: "live_of ?w2 = [(1, [45002, 45003]), (0, [45000, 45001])]" by (simp add: live_of_def)
  have d: "''out'' \<noteq> []" by simp
  note c = connections_isolated [OF counter_ok d d w, unfolded l lv TOTAL_DATA_PORTS_value]
  show ?thesis by (rule exI [of _ ?w2]) (use w lv c in simp)
qed

end
