(* ===== verification/Interrupted_Run.thy ===== *)
theory Interrupted_Run
  imports End_To_End
begin

text \<open>
  A client that comes back: its first run is cut off when some chunks have arrived, its second run, with
  the same chunk size and perhaps other settings, meets the server again or one restarted on its disk.
  The second run is the whole program on both sides.
\<close>

section \<open>The server after the first run\<close>

text \<open>What the second run needs of the server's memory; the disk is what the first run has left.\<close>

definition has_ports :: "'p semaphore \<Rightarrow> (u16 \<Rightarrow> bool) \<Rightarrow> 'p server \<Rightarrow> usize \<Rightarrow> usize \<Rightarrow> bool" where
  "has_ports S os_free srv mp n \<longleftrightarrow> 0 < mp \<and> mp < 256 \<and> min n mp \<le> available S srv
     \<and> min n mp \<le> length (free_ports os_free srv)"

lemma cut_off_run:
  assumes B: "blake3_ok B" and cr: "client_ready cd c content name" and n: "n = chunk_total content (c_chunk_size c)"
    and sr: "server_ready S os_free srv output_dir temp_dir mp name n" and rid: "rid = length (receivers srv)"
    and hs: "build_handshake B cd (c_filepath c) (c_chunk_size c) = Ok hs"
    and rounds: "waiting_rounds rounds" and closed: "outcome = ReadClosed \<or> outcome = ReadFailed"
    and honest: "honest_turns B rid (receiver_of (request_of B c content name) output_dir temp_dir) content
      (concat (map fst rounds) @ turns) is"
    and part: "\<not> {..<n} \<subseteq> set is"
  shows "\<exists>srv2 s2. handle_control_connection S B os_free srv (stream_of (frame_bytes hs)) output_dir temp_dir mp
      (rounds @ [(turns, outcome)]) = ((srv2, s2), Ok True)
    \<and> half_done B content (request_of B c content name) output_dir temp_dir (set is) (sdisk srv2)
    \<and> same_faults (sdisk srv) (sdisk srv2) \<and> files (sdisk srv2) (path_of (output_dir @ ''/'' @ name)) = None"
proof -
  let ?h = "request_of B c content name"
  have sa: "server_accepts S os_free srv output_dir temp_dir mp name n"
    and nometa: "files (sdisk srv) (meta_file temp_dir (h_safe_name ?h)) = None" using sr by (simp_all add: server_ready_def)
  note sad = server_acceptsD [OF sa] and ds = request_describes [OF cr, of B]
  obtain hs' s where h: "build_handshake B cd (c_filepath c) (c_chunk_size c) = Ok hs'" "parse_handshake hs' = Ok ?h"
    "recv_timeout (stream_of (frame_bytes hs')) = (s, Ok hs')" using client_handshake [OF B cr] by blast
  have e: "hs' = hs" using h(1) hs by simp
  have hd: "half_done B content ?h output_dir temp_dir {} (sdisk srv)"
    by (rule half_done_none [OF parse_handshake_sound [OF h(2)] ds sad(2,3) nometa])
  have ne: "content \<noteq> []" "\<not> {..<n} \<subseteq> {}" using cr part by (auto simp: client_ready_def)
  obtain srv1 s1 where
    o: "control_open S B os_free srv (stream_of (frame_bytes hs)) output_dir temp_dir mp
      = ((srv1, s1), Ok (Waiting rid (offered_ports os_free srv n mp)))"
    using transfer_opens [OF B cr n sa ne(2) hd refl rid] h(1) unfolding e by (metis res.inject(1))
  have part': "\<not> {..<h_num_chunks ?h} \<subseteq> set is" using part n by simp
  show ?thesis
    using interrupted_session [OF B ne(1) plain_stream_of sad(2,3,4) h(3,2) [unfolded e] ds nometa o rounds closed honest part']
      sad(6) by auto
qed

section \<open>Properties\<close>

text \<open>C5: A client's run is cut off when the chunks \<open>is\<close>, some but not all, have arrived over any connections in
  any order. When the client runs again, on the same server or on one restarted on its disk, with the same
  chunk size and any other settings, both programs run to the end: each worker sends exactly the chunks of
  its share that had not arrived, the server has the file, the client exits with code 0.\<close>

theorem interrupted_run_completes:
  assumes B: "blake3_ok B" and cr: "client_ready cd c content name" and n: "n = chunk_total content (c_chunk_size c)"
    and sr: "server_ready S os_free srv output_dir temp_dir mp name n" and rid: "rid = length (receivers srv)"
    and hs: "build_handshake B cd (c_filepath c) (c_chunk_size c) = Ok hs"
    and rounds: "waiting_rounds rounds" and closed: "outcome = ReadClosed \<or> outcome = ReadFailed"
    and honest: "honest_turns B rid (receiver_of (request_of B c content name) output_dir temp_dir) content
      (concat (map fst rounds) @ turns) is"
    and part: "set is \<subset> {..<n}"
    and first: "handle_control_connection S B os_free srv (stream_of (frame_bytes hs)) output_dir temp_dir mp
      (rounds @ [(turns, outcome)]) = ((srv2, s2), r)"
    and again: "sdisk srv' = sdisk srv2" "has_ports S os_free' srv' mp' n"
    and cr': "client_ready cd' c' content name" "c_chunk_size c' = c_chunk_size c"
    and ports: "ports = offered_ports os_free' srv' n mp'" "A = missing (set is) (setup_workers c' n ports)"
      "rid' = length (receivers srv')"
    and sched: "waits_on sched" "list_all (\<lambda>w. w < length A) (all_turns sched)"
      "\<forall>w < length A. length (A ! w) < count_list (all_turns sched) w"
  shows "r = Ok True \<and> (\<exists>hs' srv3 t start conns srv4 t2. build_handshake B cd' (c_filepath c') (c_chunk_size c') = Ok hs'
    \<and> control_open S B os_free' srv' (stream_of (frame_bytes hs')) output_dir temp_dir mp' = ((srv3, t), Ok (Waiting rid' ports))
    \<and> (\<forall>w < length A. get_receiver srv3 (ports ! (w mod length ports)) = Some rid')
    \<and> start = (srv3, \<lambda>w. stream_of (client_bytes B (c_chunk_size c') content (A ! w)))
    \<and> conns = snd (foldl (serve B rid') start (all_turns sched))
    \<and> handle_control_connection S B os_free' srv' (stream_of (frame_bytes hs')) output_dir temp_dir mp' (rounds_of B rid' start sched)
        = ((srv4, t2), Ok True)
    \<and> files (sdisk srv4) (path_of (output_dir @ ''/'' @ name)) = Some content
    \<and> run_client B cd' c' (network_of t2 conns) = Ok (0, False)
    \<and> (\<forall>w < length A. tx (w_stream (fst (spawn_worker B cd' c' (network_of t2 conns) (word_of_nat (length content)) w
          (ports ! (w mod length ports)) (setup_workers c' n ports ! w)))) = client_bytes B (c_chunk_size c') content (A ! w)))"
proof -
  note sad = server_acceptsD [OF conjunct1 [OF sr [unfolded server_ready_def]]]
  have "\<not> {..<n} \<subseteq> set is" using part by blast
  from cut_off_run [OF B cr n sr rid hs rounds closed honest this] first have
    f: "r = Ok True" "half_done B content (request_of B c content name) output_dir temp_dir (set is) (sdisk srv2)"
      "same_faults (sdisk srv) (sdisk srv2)" "files (sdisk srv2) (path_of (output_dir @ ''/'' @ name)) = None" by auto
  have "\<forall>p. healthy (sdisk srv2) p" using same_faults_healthy [OF f(3)] sad(4) by blast
  moreover have "mkdir_err (sdisk srv2) = mkdir_err (sdisk srv)"
    using arg_cong [OF f(3) [unfolded same_faults_def], of mkdir_err] by simp
  then have "\<forall>p. \<not> mkdir_err (sdisk srv2) p" using sad(5) by metis
  ultimately have sa': "server_accepts S os_free' srv' output_dir temp_dir mp' name n"
    using sad(1-3) f(4) again unfolding server_accepts_def has_ports_def again(1) by blast
  have n': "n = chunk_total content (c_chunk_size c')" using n cr'(2) by simp
  have "request_of B c' content name = request_of B c content name" using cr'(2) by (simp add: request_of_def)
  then have hd': "half_done B content (request_of B c' content name) output_dir temp_dir (set is) (sdisk srv')"
    using f(2) again(1) by simp
  show ?thesis using f(1) missing_chunks_run [OF B cr'(1) n' sa' part hd' ports sched] by blast
qed

text \<open>Chunk 1 arrives in the first run; in the second, on a restarted server, worker 1 has nothing to send.\<close>

lemma interrupted_run_completes_witness:
  "\<exists>hs srv2 s2 hs' rounds srv4 t2 conns.
     handle_control_connection counter toy_blake3 (\<lambda>_. True) (server_new counter empty_disk) (stream_of (frame_bytes hs))
       ''out'' ''tmp'' 100 [([ex_turn 1], Slept), ([], ReadClosed)] = ((srv2, s2), Ok True)
   \<and> handle_control_connection counter toy_blake3 (\<lambda>_. True) (server_new counter (sdisk srv2)) (stream_of (frame_bytes hs'))
       ''out'' ''tmp'' 100 rounds = ((srv4, t2), Ok True)
   \<and> files (sdisk srv4) (path_of ''out/f'') = Some [1, 2, 3]
   \<and> run_client toy_blake3 ex_source ex_client (network_of t2 conns) = Ok (0, False)"
proof -
  let ?S = "server_new counter empty_disk" and ?os = "\<lambda>_ :: u16. True" and ?rounds = "[([ex_turn 1], Slept)]"
  obtain hs s where hs: "build_handshake toy_blake3 ex_source (c_filepath ex_client) (c_chunk_size ex_client) = Ok hs"
    using client_handshake [OF toy_blake3_ok ex_client_ready] by blast
  let ?H = "handle_control_connection counter toy_blake3 ?os ?S (stream_of (frame_bytes hs)) ''out'' ''tmp'' 100 (?rounds @ [([], ReadClosed)])"
  obtain srv2 s2 r where H: "?H = ((srv2, s2), r)" by (metis surj_pair)
  let ?S' = "server_new counter (sdisk srv2)"
  have n: "2 = chunk_total [1, 2, 3 :: u8] (c_chunk_size ex_client)" by code_simp
  have req: "request_of toy_blake3 ex_client [1, 2, 3] ''f'' = ex_request"
    using n by (simp add: request_of_def ex_request_def ex_content_def) (simp add: ex_client_def)
  have ts: "honest_turns toy_blake3 0 (receiver_of (request_of toy_blake3 ex_client [1, 2, 3] ''f'') ''out'' ''tmp'') [1, 2, 3]
      (concat (map fst ?rounds) @ []) [1]"
    using ex_turn_honest [of 1] unfolding req by (simp add: honest_turns_def ex_turn_def ex_content_def)
  have w: "waiting_rounds ?rounds" by (simp add: waiting_rounds_def)
  have cl: "ReadClosed = ReadClosed \<or> ReadClosed = ReadFailed" by simp
  have "set [1 :: nat] \<subseteq> {..<2}" "0 \<in> {..<2 :: nat}" "0 \<notin> set [1 :: nat]" by simp_all
  then have part: "set [1 :: nat] \<subset> {..<2}" by blast
  have fp: "free_ports ?os ?S' = free_ports ?os ?S" by (simp add: free_ports_def can_bind_def [abs_def] server_new_def)
  have "available counter ?S' = 1001" by (simp add: available_def server_new_def counter_def TOTAL_DATA_PORTS_value)
  then have hp: "has_ports counter ?os ?S' 100 2" using ex_ports(2) by (simp add: has_ports_def fp)
  have p: "[45000, 45001] = offered_ports ?os ?S' 2 100" by (simp add: offered_ports_def fp ex_ports(1))
  have "setup_workers ex_client 2 [45000, 45001] = [[0], [1]]" by code_simp
  then have A: "[[0], []] = missing (set [1]) (setup_workers ex_client 2 [45000, 45001])" by (simp add: missing_def)
  let ?sched = "[([0, 1, 0], Slept)] :: schedule"
  have sched: "waits_on ?sched" "list_all (\<lambda>w. w < length [[0 :: nat], []]) (all_turns ?sched)"
    "\<forall>w < length [[0 :: nat], []]. length ([[0], []] ! w) < count_list (all_turns ?sched) w"
    by (simp_all add: waits_on_def all_turns_def less_Suc_eq)
  have r: "0 = length (receivers ?S)" "0 = length (receivers ?S')" "sdisk ?S' = sdisk srv2" by (simp_all add: server_new_def)
  note res = interrupted_run_completes [OF toy_blake3_ok ex_client_ready n ex_server_ready r(1) hs w cl ts part H r(3) hp
      ex_client_ready refl p A r(2) sched]
  show ?thesis using res H by fastforce
qed

end
